(* ===== verification/Snort_Prelude.thy ===== *)
theory Snort_Prelude
  imports Main "HOL-Library.Word"
begin

text \<open>
  Shared vocabulary of the development: the machine integer types the sources use, byte
  buffers as lists, and the generic list, option and modular-arithmetic lemmas that several
  components rely on.
\<close>

type_synonym u8 = "8 word"
type_synonym u16 = "16 word"
type_synonym u32 = "32 word"
type_synonym u64 = "64 word"
type_synonym bytes = "u8 list"

named_theorems modulo_wrap \<open>reduction of an index that exceeds the modulus at most once\<close>

lemma mod_wrap_once [modulo_wrap]:
  fixes x n :: int
  assumes "0 \<le> x" and "x < 2 * n"
  shows "x mod n = (if x < n then x else x - n)"
proof (cases "x < n")
  case True
  with assms show ?thesis by simp
next
  case False
  have "x mod n = (x - n) mod n" by simp
  also have "\<dots> = x - n" by (rule mod_pos_pos_trivial) (use False assms in auto)
  finally show ?thesis using False by simp
qed

lemma unat_u8_less: "unat (w :: u8) < 256"
  using unsigned_less [of w] by simp

lemma unat_u32_less: "unat (w :: u32) < 2 ^ 32"
  using unsigned_less [of w] by simp

end
