(* ===== verification/Ring_Buffer.thy ===== *)
theory Ring_Buffer
  imports Snort_Prelude
begin

text \<open>
  The single-producer single-consumer ring of \<^verbatim>\<open>src/helpers/ring_logic.h\<close> (class RingLogic,
  the index arithmetic) and \<^verbatim>\<open>src/helpers/ring.h\<close> (template class Ring, the storage).
  A ring of size \<open>sz\<close> holds at most \<open>sz - 2\<close> elements: one slot is the last one read
  and one is the next one to write. The theory shows that the ring implements a bounded
  queue, first as a sequential object through the locale \<open>bounded_fifo\<close>, then under
  every interleaving of the machine steps of one \<^verbatim>\<open>put\<close> thread and one \<^verbatim>\<open>get\<close> thread.
\<close>

section \<open>RingLogic\<close>

record ring_logic =
  sz :: int
  rx :: int
  wx :: int

definition ring_logic_next :: "ring_logic \<Rightarrow> int \<Rightarrow> int" where
  "ring_logic_next l ix = (if ix + 1 < sz l then ix + 1 else 0)"

definition ring_logic_new :: "int \<Rightarrow> ring_logic" where
  "ring_logic_new n = \<lparr>sz = n, rx = 0, wx = 1\<rparr>"

definition ring_logic_read :: "ring_logic \<Rightarrow> int" where
  "ring_logic_read l = (let nx = ring_logic_next l (rx l) in if nx = wx l then -1 else nx)"

definition ring_logic_write :: "ring_logic \<Rightarrow> int" where
  "ring_logic_write l = (let nx = ring_logic_next l (wx l) in if nx = rx l then -1 else wx l)"

definition ring_logic_push :: "ring_logic \<Rightarrow> bool \<times> ring_logic" where
  "ring_logic_push l =
     (let nx = ring_logic_next l (wx l)
      in if nx = rx l then (False, l) else (True, l\<lparr>wx := nx\<rparr>))"

definition ring_logic_pop :: "ring_logic \<Rightarrow> bool \<times> ring_logic" where
  "ring_logic_pop l =
     (let nx = ring_logic_next l (rx l)
      in if nx = wx l then (False, l) else (True, l\<lparr>rx := nx\<rparr>))"

definition ring_logic_count :: "ring_logic \<Rightarrow> int" where
  "ring_logic_count l = (let c = wx l - rx l - 1 in if c < 0 then c + sz l else c)"

definition ring_logic_full :: "ring_logic \<Rightarrow> bool" where
  "ring_logic_full l = (ring_logic_count l = sz l)"

definition ring_logic_empty :: "ring_logic \<Rightarrow> bool" where
  "ring_logic_empty l = (ring_logic_count l = 0)"

section \<open>Ring\<close>

text \<open>
  The storage is a list of length \<open>sz\<close>; the pointers that \<^verbatim>\<open>read()\<close> and \<^verbatim>\<open>write()\<close>
  return are slot indices, \<open>None\<close> being the null pointer. \<^verbatim>\<open>new T[size]\<close> leaves the slots
  with arbitrary contents, which the constructor takes as an argument.
\<close>

record 'a ring =
  logic :: ring_logic
  store :: "'a list"

definition ring_new :: "int \<Rightarrow> 'a list \<Rightarrow> 'a ring" where
  "ring_new n contents = \<lparr>logic = ring_logic_new n, store = contents\<rparr>"

definition ring_read :: "'a ring \<Rightarrow> nat option" where
  "ring_read r = (let ix = ring_logic_read (logic r) in if ix < 0 then None else Some (nat ix))"

definition ring_write :: "'a ring \<Rightarrow> nat option" where
  "ring_write r = (let ix = ring_logic_write (logic r) in if ix < 0 then None else Some (nat ix))"

definition ring_push :: "'a ring \<Rightarrow> bool \<times> 'a ring" where
  "ring_push r = (let (b, l) = ring_logic_push (logic r) in (b, r\<lparr>logic := l\<rparr>))"

definition ring_pop :: "'a ring \<Rightarrow> bool \<times> 'a ring" where
  "ring_pop r = (let (b, l) = ring_logic_pop (logic r) in (b, r\<lparr>logic := l\<rparr>))"

definition ring_get :: "'a \<Rightarrow> 'a ring \<Rightarrow> 'a \<times> 'a ring" where
  "ring_get v r =
     (case ring_read r of
        None \<Rightarrow> (v, r)
      | Some p \<Rightarrow> (store r ! p, snd (ring_pop r)))"

definition ring_put :: "'a \<Rightarrow> 'a ring \<Rightarrow> bool \<times> 'a ring" where
  "ring_put v r =
     (case ring_write r of
        None \<Rightarrow> (False, r)
      | Some p \<Rightarrow> (True, snd (ring_push (r\<lparr>store := (store r)[p := v]\<rparr>))))"

definition ring_count :: "'a ring \<Rightarrow> int" where
  "ring_count r = ring_logic_count (logic r)"

definition ring_full :: "'a ring \<Rightarrow> bool" where
  "ring_full r = ring_logic_full (logic r)"

definition ring_empty :: "'a ring \<Rightarrow> bool" where
  "ring_empty r = ring_logic_empty (logic r)"

section \<open>Invariant and abstraction\<close>

definition ring_logic_inv :: "ring_logic \<Rightarrow> bool" where
  "ring_logic_inv l \<longleftrightarrow>
     2 \<le> sz l \<and> 0 \<le> rx l \<and> rx l < sz l \<and> 0 \<le> wx l \<and> wx l < sz l \<and> rx l \<noteq> wx l"

definition ring_inv :: "'a ring \<Rightarrow> bool" where
  "ring_inv r \<longleftrightarrow> ring_logic_inv (logic r) \<and> int (length (store r)) = sz (logic r)"

definition ring_slot :: "ring_logic \<Rightarrow> nat \<Rightarrow> nat" where
  "ring_slot l i = nat ((rx l + 1 + int i) mod sz l)"

definition ring_items :: "'a ring \<Rightarrow> 'a list" where
  "ring_items r =
     map (\<lambda>i. store r ! ring_slot (logic r) i) [0..<nat (ring_count r)]"

definition ring_capacity :: "'a ring \<Rightarrow> nat" where
  "ring_capacity r = nat (sz (logic r) - 2)"

lemmas ring_logic_defs =
  ring_logic_next_def ring_logic_read_def ring_logic_write_def ring_logic_push_def
  ring_logic_pop_def ring_logic_count_def ring_logic_inv_def

lemma ring_logic_count_bounds:
  "ring_logic_inv l \<Longrightarrow> 0 \<le> ring_logic_count l \<and> ring_logic_count l \<le> sz l - 2"
  by (auto simp: ring_logic_defs Let_def)

lemma ring_logic_new_inv: "2 \<le> n \<Longrightarrow> ring_logic_inv (ring_logic_new n)"
  by (simp add: ring_logic_inv_def ring_logic_new_def)

lemma ring_logic_push_count:
  assumes "ring_logic_inv l"
  shows "ring_logic_push l =
     (if ring_logic_count l = sz l - 2 then (False, l)
      else (True, l\<lparr>wx := ring_logic_next l (wx l)\<rparr>))"
  using assms by (auto simp: ring_logic_defs Let_def)

lemma ring_logic_pop_count:
  assumes "ring_logic_inv l"
  shows "ring_logic_pop l =
     (if ring_logic_count l = 0 then (False, l)
      else (True, l\<lparr>rx := ring_logic_next l (rx l)\<rparr>))"
  using assms by (auto simp: ring_logic_defs Let_def)

lemma ring_slot_less: "ring_logic_inv l \<Longrightarrow> int (ring_slot l i) < sz l"
  by (auto simp: ring_slot_def ring_logic_inv_def)

lemma ring_slot_eq:
  assumes "ring_logic_inv l" and "int i < sz l"
  shows "ring_slot l i =
     nat (if rx l + 1 + int i < sz l then rx l + 1 + int i else rx l + 1 + int i - sz l)"
  using assms unfolding ring_slot_def
  by (subst mod_wrap_once) (auto simp: ring_logic_inv_def)

lemma ring_slot_count:
  assumes "ring_logic_inv l"
  shows "ring_slot l (nat (ring_logic_count l)) = nat (wx l)"
proof -
  have "int (nat (ring_logic_count l)) < sz l"
    using ring_logic_count_bounds [OF assms] by simp
  from ring_slot_eq [OF assms this] show ?thesis
    using assms ring_logic_count_bounds [OF assms]
    by (auto simp: ring_logic_count_def ring_logic_inv_def Let_def split: if_splits)
qed

lemma ring_slot_inj:
  assumes "ring_logic_inv l" and "int i < sz l" and "int j < sz l" and "ring_slot l i = ring_slot l j"
  shows "i = j"
  using assms ring_slot_eq [OF assms(1,2)] ring_slot_eq [OF assms(1,3)]
  by (auto simp: ring_logic_inv_def split: if_splits)

lemma ring_slot_wx [simp]: "ring_slot (l\<lparr>wx := w\<rparr>) = ring_slot l"
  by (simp add: ring_slot_def fun_eq_iff)

lemma ring_slot_pop:
  assumes "ring_logic_inv l"
  shows "ring_slot (l\<lparr>rx := ring_logic_next l (rx l)\<rparr>) i = ring_slot l (Suc i)"
proof (cases "rx l + 1 < sz l")
  case True
  then show ?thesis by (simp add: ring_slot_def ring_logic_next_def algebra_simps)
next
  case False
  with assms have "rx l + 1 = sz l" by (simp add: ring_logic_inv_def)
  then have "(rx l + 1 + int (Suc i)) mod sz l = (int i + 1 + sz l) mod sz l"
    by (simp add: algebra_simps)
  also have "\<dots> = (int i + 1) mod sz l" by simp
  finally show ?thesis using False
    by (simp add: ring_slot_def ring_logic_next_def algebra_simps)
qed

lemma length_ring_items [simp]: "length (ring_items r) = nat (ring_count r)"
  by (simp add: ring_items_def)

lemma ring_count_bounds: "ring_inv r \<Longrightarrow> 0 \<le> ring_count r \<and> ring_count r \<le> sz (logic r) - 2"
  using ring_logic_count_bounds by (simp add: ring_inv_def ring_count_def)

lemma ring_new_inv:
  "2 \<le> n \<Longrightarrow> int (length contents) = n \<Longrightarrow> ring_inv (ring_new n contents)"
  by (simp add: ring_inv_def ring_new_def ring_logic_new_inv) (simp add: ring_logic_new_def)

lemma ring_new_items: "ring_items (ring_new n contents) = []"
  by (simp add: ring_items_def ring_new_def ring_count_def ring_logic_count_def ring_logic_new_def)

lemma ring_write_eq:
  assumes "ring_inv r"
  shows "ring_write r = (if ring_count r = sz (logic r) - 2 then None else Some (nat (wx (logic r))))"
  using assms
  by (auto simp: ring_write_def ring_inv_def ring_count_def ring_logic_defs Let_def)

lemma ring_read_eq:
  assumes "ring_inv r"
  shows "ring_read r = (if ring_count r = 0 then None else Some (ring_slot (logic r) 0))"
  using assms ring_slot_eq [of "logic r" 0]
  by (auto simp: ring_read_def ring_inv_def ring_count_def ring_logic_defs Let_def)

subsection \<open>The effect of the two advancing steps on the contents\<close>

lemma ring_store_items:
  assumes "ring_inv r"
  shows "ring_items (r\<lparr>store := (store r)[nat (wx (logic r)) := v]\<rparr>) = ring_items r"
proof -
  have inv: "ring_logic_inv (logic r)" using assms by (simp add: ring_inv_def)
  have "store r ! ring_slot (logic r) i = (store r)[nat (wx (logic r)) := v] ! ring_slot (logic r) i"
    if "i < nat (ring_count r)" for i
  proof -
    have "ring_slot (logic r) i \<noteq> ring_slot (logic r) (nat (ring_logic_count (logic r)))"
      using ring_slot_inj [OF inv, of i "nat (ring_logic_count (logic r))"] that
        ring_logic_count_bounds [OF inv]
      by (fastforce simp: ring_count_def zless_nat_eq_int_zless)
    then show ?thesis by (simp add: ring_slot_count [OF inv])
  qed
  then show ?thesis by (simp add: ring_items_def ring_count_def)
qed

lemma ring_push_items:
  assumes "ring_inv r" and "ring_count r \<noteq> sz (logic r) - 2"
  shows "ring_inv (snd (ring_push r)) \<and> fst (ring_push r) \<and>
    ring_items (snd (ring_push r)) = ring_items r @ [store r ! nat (wx (logic r))]"
proof -
  have inv: "ring_logic_inv (logic r)" using assms by (simp add: ring_inv_def)
  let ?l = "(logic r)\<lparr>wx := ring_logic_next (logic r) (wx (logic r))\<rparr>"
  have push: "ring_push r = (True, r\<lparr>logic := ?l\<rparr>)"
    using assms by (simp add: ring_push_def ring_logic_push_count [OF inv] ring_count_def)
  have inv': "ring_logic_inv ?l" and cnt: "ring_logic_count ?l = ring_logic_count (logic r) + 1"
    using inv assms(2) by (auto simp: ring_logic_defs ring_count_def Let_def split: if_splits)
  have "nat (ring_logic_count (logic r) + 1) = Suc (nat (ring_logic_count (logic r)))"
    using ring_logic_count_bounds [OF inv] by (simp add: nat_add_distrib)
  then show ?thesis using assms(1) inv' cnt ring_slot_count [OF inv]
    by (simp add: push ring_inv_def ring_items_def ring_count_def)
qed

lemma ring_pop_items:
  assumes "ring_inv r" and "ring_count r \<noteq> 0"
  shows "ring_inv (snd (ring_pop r)) \<and> fst (ring_pop r) \<and>
    ring_items r = store r ! ring_slot (logic r) 0 # ring_items (snd (ring_pop r))"
proof -
  have inv: "ring_logic_inv (logic r)" using assms by (simp add: ring_inv_def)
  let ?l = "(logic r)\<lparr>rx := ring_logic_next (logic r) (rx (logic r))\<rparr>"
  have pop: "ring_pop r = (True, r\<lparr>logic := ?l\<rparr>)"
    using assms by (simp add: ring_pop_def ring_logic_pop_count [OF inv] ring_count_def)
  have inv': "ring_logic_inv ?l" and cnt: "ring_logic_count (logic r) = ring_logic_count ?l + 1"
    using inv assms(2) by (auto simp: ring_logic_defs ring_count_def Let_def split: if_splits)
  have "nat (ring_logic_count ?l + 1) = Suc (nat (ring_logic_count ?l))"
    using ring_logic_count_bounds [OF inv'] by (simp add: nat_add_distrib)
  then show ?thesis using assms(1) inv' cnt
    by (simp add: pop ring_inv_def ring_items_def ring_count_def ring_slot_pop [OF inv]
        upt_conv_Cons map_Suc_upt [symmetric] del: upt_Suc)
qed

subsection \<open>put and get\<close>

lemma ring_put_full:
  "ring_inv r \<Longrightarrow> ring_count r = sz (logic r) - 2 \<Longrightarrow> ring_put v r = (False, r)"
  by (simp add: ring_put_def ring_write_eq)

lemma ring_put_room:
  assumes inv: "ring_inv r" and room: "ring_count r \<noteq> sz (logic r) - 2"
  shows "\<exists>r'. ring_put v r = (True, r') \<and> ring_inv r' \<and> ring_items r' = ring_items r @ [v] \<and>
    sz (logic r') = sz (logic r)"
proof -
  let ?s = "r\<lparr>store := (store r)[nat (wx (logic r)) := v]\<rparr>"
  have s: "ring_inv ?s" "ring_count ?s \<noteq> sz (logic ?s) - 2"
    using inv room by (simp_all add: ring_inv_def ring_count_def)
  have "nat (wx (logic r)) < length (store r)"
    using inv by (auto simp: ring_inv_def ring_logic_inv_def)
  then have "ring_items (snd (ring_push ?s)) = ring_items r @ [v]"
    using ring_push_items [OF s] ring_store_items [OF inv] by simp
  moreover have "sz (logic (snd (ring_push ?s))) = sz (logic r)"
    by (simp add: ring_push_def ring_logic_push_def Let_def)
  ultimately show ?thesis
    using ring_push_items [OF s] inv room by (simp add: ring_put_def ring_write_eq)
qed

lemma ring_get_nothing: "ring_inv r \<Longrightarrow> ring_count r = 0 \<Longrightarrow> ring_get v r = (v, r)"
  by (simp add: ring_get_def ring_read_eq)

lemma ring_get_something:
  assumes inv: "ring_inv r" and "ring_count r \<noteq> 0"
  shows "\<exists>r'. ring_get v r = (hd (ring_items r), r') \<and> ring_inv r' \<and>
    ring_items r' = tl (ring_items r) \<and> sz (logic r') = sz (logic r)"
  using assms ring_pop_items [OF assms]
  by (auto simp: ring_get_def ring_read_eq ring_pop_def ring_logic_pop_def Let_def split: prod.splits)

section \<open>The bounded queue contract\<close>

text \<open>
  What a client of the ring relies on, as a locale: \<^verbatim>\<open>put\<close> appends or refuses, \<^verbatim>\<open>get\<close>
  removes the oldest element or returns the caller's default, and the capacity never changes.
  The client lemma is about whole sequences of calls.
\<close>

datatype 'a fifo_op = Put 'a | Get 'a
datatype 'a fifo_result = Accepted bool | Got 'a

fun fifo_run ::
  "('a \<Rightarrow> 'q \<Rightarrow> bool \<times> 'q) \<Rightarrow> ('a \<Rightarrow> 'q \<Rightarrow> 'a \<times> 'q) \<Rightarrow> 'q \<Rightarrow> 'a fifo_op list \<Rightarrow> 'a fifo_result list"
where
  "fifo_run put get q [] = []"
| "fifo_run put get q (Put v # ops) =
     (case put v q of (b, q') \<Rightarrow> Accepted b # fifo_run put get q' ops)"
| "fifo_run put get q (Get v # ops) =
     (case get v q of (x, q') \<Rightarrow> Got x # fifo_run put get q' ops)"

fun queue_run :: "nat \<Rightarrow> 'a list \<Rightarrow> 'a fifo_op list \<Rightarrow> 'a fifo_result list" where
  "queue_run cap xs [] = []"
| "queue_run cap xs (Put v # ops) =
     (if length xs < cap then Accepted True # queue_run cap (xs @ [v]) ops
      else Accepted False # queue_run cap xs ops)"
| "queue_run cap xs (Get v # ops) =
     (case xs of
        [] \<Rightarrow> Got v # queue_run cap [] ops
      | x # ys \<Rightarrow> Got x # queue_run cap ys ops)"

locale bounded_fifo =
  fixes put :: "'a \<Rightarrow> 'q \<Rightarrow> bool \<times> 'q"
    and get :: "'a \<Rightarrow> 'q \<Rightarrow> 'a \<times> 'q"
    and items :: "'q \<Rightarrow> 'a list"
    and cap :: "'q \<Rightarrow> nat"
    and inv :: "'q \<Rightarrow> bool"
  assumes put_room: "inv q \<Longrightarrow> length (items q) < cap q \<Longrightarrow>
      \<exists>q'. put v q = (True, q') \<and> inv q' \<and> items q' = items q @ [v] \<and> cap q' = cap q"
    and put_full: "inv q \<Longrightarrow> \<not> length (items q) < cap q \<Longrightarrow> put v q = (False, q)"
    and get_some: "inv q \<Longrightarrow> items q = x # xs \<Longrightarrow>
      \<exists>q'. get v q = (x, q') \<and> inv q' \<and> items q' = xs \<and> cap q' = cap q"
    and get_none: "inv q \<Longrightarrow> items q = [] \<Longrightarrow> get v q = (v, q)"
begin

lemma run_refines:
  "inv q \<Longrightarrow> fifo_run put get q ops = queue_run (cap q) (items q) ops"
proof (induction ops arbitrary: q)
  case Nil
  then show ?case by simp
next
  case (Cons x ops)
  show ?case
  proof (cases x)
    case (Put v)
    then show ?thesis
      using Cons put_room [OF Cons.prems, of v] put_full [OF Cons.prems, of v]
      by (cases "length (items q) < cap q") force+
  next
    case (Get v)
    then show ?thesis
      using Cons get_none [OF Cons.prems, of v] get_some [OF Cons.prems, of _ _ v]
      by (cases "items q") force+
  qed
qed

end

interpretation ringq: bounded_fifo ring_put ring_get ring_items ring_capacity ring_inv
proof
  fix q :: "'a ring" and v x :: 'a and xs
  assume inv: "ring_inv q"
  note bounds = ring_count_bounds [OF inv]
  show "\<exists>q'. ring_put v q = (True, q') \<and> ring_inv q' \<and> ring_items q' = ring_items q @ [v] \<and>
      ring_capacity q' = ring_capacity q" if "length (ring_items q) < ring_capacity q"
    using ring_put_room [OF inv, of v] that bounds by (fastforce simp: ring_capacity_def)
  show "ring_put v q = (False, q)" if "\<not> length (ring_items q) < ring_capacity q"
    using ring_put_full [OF inv, of v] that bounds by (auto simp: ring_capacity_def)
  show "\<exists>q'. ring_get v q = (x, q') \<and> ring_inv q' \<and> ring_items q' = xs \<and>
      ring_capacity q' = ring_capacity q" if "ring_items q = x # xs"
    using ring_get_something [OF inv, of v] that length_ring_items [of q] bounds
    by (fastforce simp: ring_capacity_def)
  show "ring_get v q = (v, q)" if "ring_items q = []"
    using ring_get_nothing [OF inv, of v] that length_ring_items [of q] bounds by simp
qed

text \<open>
  C39. Every sequence of \<^verbatim>\<open>put\<close> and \<^verbatim>\<open>get\<close> calls on a new ring of size \<open>n\<close> returns exactly
  what a first-in first-out queue of capacity \<open>n - 2\<close> returns, whatever the slots held before.
\<close>

theorem ring_refines_bounded_queue:
  assumes "2 \<le> n" and "int (length contents) = n"
  shows "fifo_run ring_put ring_get (ring_new n contents) ops = queue_run (nat (n - 2)) [] ops"
  using ringq.run_refines [OF ring_new_inv [OF assms], of ops]
  by (simp add: ring_new_items) (simp add: ring_capacity_def ring_new_def ring_logic_new_def)

theorem ring_refines_bounded_queue_witness:
  "fifo_run ring_put ring_get (ring_new 4 [0, 0, 0, 0 :: nat]) [Put 7, Put 8, Put 9, Get 0, Put 5, Get 0, Get 0, Get 1]
   = [Accepted True, Accepted True, Accepted False, Got 7, Accepted True, Got 8, Got 5, Got 1]"
  by (subst ring_refines_bounded_queue) simp_all

text \<open>
  \<^verbatim>\<open>full()\<close> compares the element count with the size, which a ring in a valid state never
  reaches: \<^verbatim>\<open>full()\<close> is false even when \<^verbatim>\<open>put()\<close> refuses its argument.
\<close>

theorem ring_full_never_reported:
  assumes "ring_inv r"
  shows "\<not> ring_full r \<and> (ring_put v r = (False, r) \<longleftrightarrow> ring_count r = sz (logic r) - 2)"
proof -
  have "ring_count r \<le> sz (logic r) - 2" using ring_count_bounds [OF assms] by simp
  then have "\<not> ring_full r" by (simp add: ring_full_def ring_logic_full_def ring_count_def)
  moreover have "ring_put v r = (False, r) \<longleftrightarrow> ring_count r = sz (logic r) - 2"
    using ring_put_full [OF assms, of v] ring_put_room [OF assms, of v]
    by (cases "ring_count r = sz (logic r) - 2") auto
  ultimately show ?thesis by simp
qed

theorem ring_full_never_reported_witness:
  "ring_inv (ring_new 2 [0, 0 :: nat]) \<and> \<not> ring_full (ring_new 2 [0, 0 :: nat]) \<and>
   ring_put 1 (ring_new 2 [0, 0 :: nat]) = (False, ring_new 2 [0, 0])"
proof -
  have inv: "ring_inv (ring_new 2 [0, 0 :: nat])" by (simp add: ring_new_inv)
  show ?thesis using inv ring_full_never_reported [OF inv, of 1]
    by (simp add: ring_count_def ring_logic_count_def ring_new_def ring_logic_new_def)
qed

section \<open>One producer and one consumer\<close>

text \<open>
  \<^verbatim>\<open>put\<close> and \<^verbatim>\<open>get\<close> run in different threads. Each is three steps on the shared object: the
  index check, the access to the slot, and the index advance. A state holds the ring, the two
  program counters and, as history, the elements whose \<^verbatim>\<open>put\<close> and \<^verbatim>\<open>get\<close> have completed. Shared
  accesses are taken to be sequentially consistent; \<^verbatim>\<open>volatile int\<close> alone promises less.
\<close>

datatype 'a put_pc = PIdle | PStore 'a nat | PPush 'a
datatype 'a get_pc = CIdle | CLoad nat | CPop 'a

record 'a spsc =
  shared :: "'a ring"
  ppc :: "'a put_pc"
  cpc :: "'a get_pc"
  sent :: "'a list"
  received :: "'a list"

inductive spsc_step :: "'a spsc \<Rightarrow> 'a spsc \<Rightarrow> bool" where
  put_check: "ppc s = PIdle \<Longrightarrow> ring_write (shared s) = Some p \<Longrightarrow>
    spsc_step s (s\<lparr>ppc := PStore v p\<rparr>)"
| put_refuse: "ppc s = PIdle \<Longrightarrow> ring_write (shared s) = None \<Longrightarrow> spsc_step s s"
| put_store: "ppc s = PStore v p \<Longrightarrow>
    spsc_step s (s\<lparr>shared := (shared s)\<lparr>store := (store (shared s))[p := v]\<rparr>, ppc := PPush v\<rparr>)"
| put_push: "ppc s = PPush v \<Longrightarrow> ring_push (shared s) = (b, r) \<Longrightarrow>
    spsc_step s (s\<lparr>shared := r, ppc := PIdle, sent := sent s @ [v]\<rparr>)"
| get_check: "cpc s = CIdle \<Longrightarrow> ring_read (shared s) = Some p \<Longrightarrow>
    spsc_step s (s\<lparr>cpc := CLoad p\<rparr>)"
| get_default: "cpc s = CIdle \<Longrightarrow> ring_read (shared s) = None \<Longrightarrow> spsc_step s s"
| get_load: "cpc s = CLoad p \<Longrightarrow> spsc_step s (s\<lparr>cpc := CPop (store (shared s) ! p)\<rparr>)"
| get_pop: "cpc s = CPop v \<Longrightarrow> ring_pop (shared s) = (b, r) \<Longrightarrow>
    spsc_step s (s\<lparr>shared := r, cpc := CIdle, received := received s @ [v]\<rparr>)"

definition spsc_init :: "int \<Rightarrow> 'a list \<Rightarrow> 'a spsc" where
  "spsc_init n contents =
     \<lparr>shared = ring_new n contents, ppc = PIdle, cpc = CIdle, sent = [], received = []\<rparr>"

definition put_pc_ok :: "'a ring \<Rightarrow> 'a put_pc \<Rightarrow> bool" where
  "put_pc_ok r pc = (case pc of
       PIdle \<Rightarrow> True
     | PStore v p \<Rightarrow> ring_count r \<noteq> sz (logic r) - 2 \<and> p = nat (wx (logic r))
     | PPush v \<Rightarrow> ring_count r \<noteq> sz (logic r) - 2 \<and> store r ! nat (wx (logic r)) = v)"

definition get_pc_ok :: "'a ring \<Rightarrow> 'a get_pc \<Rightarrow> bool" where
  "get_pc_ok r pc = (case pc of
       CIdle \<Rightarrow> True
     | CLoad p \<Rightarrow> ring_items r \<noteq> [] \<and> p = ring_slot (logic r) 0
     | CPop v \<Rightarrow> ring_items r \<noteq> [] \<and> v = hd (ring_items r))"

definition spsc_inv :: "'a spsc \<Rightarrow> bool" where
  "spsc_inv s \<longleftrightarrow>
     ring_inv (shared s) \<and> sent s = received s @ ring_items (shared s) \<and>
     put_pc_ok (shared s) (ppc s) \<and> get_pc_ok (shared s) (cpc s)"

lemma spsc_init_inv:
  "2 \<le> n \<Longrightarrow> int (length contents) = n \<Longrightarrow> spsc_inv (spsc_init n contents)"
  by (simp add: spsc_inv_def spsc_init_def ring_new_inv ring_new_items put_pc_ok_def get_pc_ok_def)

lemma ring_items_empty_iff: "ring_inv r \<Longrightarrow> ring_items r = [] \<longleftrightarrow> ring_count r = 0"
  using ring_count_bounds [of r] by (auto simp: ring_items_def)

lemma ring_items_hd:
  assumes "ring_inv r" and "ring_items r \<noteq> []"
  shows "hd (ring_items r) = store r ! ring_slot (logic r) 0"
proof -
  from assms have "ring_count r \<noteq> 0" by (simp add: ring_items_empty_iff)
  from ring_pop_items [OF assms(1) this] show ?thesis by (metis list.sel(1))
qed

lemma spsc_store_inv:
  assumes inv: "spsc_inv s" and pc: "ppc s = PStore v p"
  shows "spsc_inv (s\<lparr>shared := (shared s)\<lparr>store := (store (shared s))[p := v]\<rparr>, ppc := PPush v\<rparr>)"
proof -
  from inv pc have r: "ring_inv (shared s)" and p: "p = nat (wx (logic (shared s)))"
    and room: "ring_count (shared s) \<noteq> sz (logic (shared s)) - 2"
    by (auto simp: spsc_inv_def put_pc_ok_def)
  have "p < length (store (shared s))"
    using r p by (auto simp: ring_inv_def ring_logic_inv_def)
  then show ?thesis
    using inv r p room ring_store_items [OF r, of v]
    by (auto simp: spsc_inv_def ring_inv_def put_pc_ok_def get_pc_ok_def ring_count_def
        split: get_pc.splits)
qed

lemma spsc_push_inv:
  assumes inv: "spsc_inv s" and pc: "ppc s = PPush v" and push: "ring_push (shared s) = (b, r)"
  shows "b \<and> spsc_inv (s\<lparr>shared := r, ppc := PIdle, sent := sent s @ [v]\<rparr>)"
proof -
  from inv pc have "ring_inv (shared s)" "ring_count (shared s) \<noteq> sz (logic (shared s)) - 2"
    and v: "store (shared s) ! nat (wx (logic (shared s))) = v"
    by (auto simp: spsc_inv_def put_pc_ok_def)
  from ring_push_items [OF this(1,2)] push v
  have "b" "ring_inv r" "ring_items r = ring_items (shared s) @ [v]" by simp_all
  moreover have "ring_slot (logic r) 0 = ring_slot (logic (shared s)) 0"
    using push by (auto simp: ring_push_def ring_logic_push_def Let_def split: if_splits)
  ultimately show ?thesis
    using inv by (auto simp: spsc_inv_def put_pc_ok_def get_pc_ok_def split: get_pc.splits)
qed

lemma spsc_pop_inv:
  assumes inv: "spsc_inv s" and pc: "cpc s = CPop v" and pop: "ring_pop (shared s) = (b, r)"
  shows "b \<and> spsc_inv (s\<lparr>shared := r, cpc := CIdle, received := received s @ [v]\<rparr>)"
proof -
  from inv pc have r: "ring_inv (shared s)" and ne: "ring_items (shared s) \<noteq> []"
    and v: "v = hd (ring_items (shared s))"
    by (auto simp: spsc_inv_def get_pc_ok_def)
  from r ne have "ring_count (shared s) \<noteq> 0" by (simp add: ring_items_empty_iff)
  from ring_pop_items [OF r this] pop v
  have b: "b" "ring_inv r" and items: "ring_items (shared s) = v # ring_items r" by auto
  have frame: "wx (logic r) = wx (logic (shared s))" "store r = store (shared s)"
    "sz (logic r) = sz (logic (shared s))"
    using pop by (auto simp: ring_pop_def ring_logic_pop_def Let_def split: if_splits)
  have "nat (ring_count (shared s)) = Suc (nat (ring_count r))"
    using items by (metis length_Cons length_ring_items)
  then have "ring_count r \<noteq> sz (logic r) - 2"
    using ring_count_bounds [OF r] frame by linarith
  then show ?thesis
    using inv b items frame
    by (auto simp: spsc_inv_def put_pc_ok_def get_pc_ok_def split: put_pc.splits)
qed

lemma spsc_step_inv: "spsc_step s t \<Longrightarrow> spsc_inv s \<Longrightarrow> spsc_inv t"
proof (induction rule: spsc_step.induct)
  case (put_check s p v)
  then show ?case by (auto simp: spsc_inv_def put_pc_ok_def ring_write_eq split: if_splits)
next
  case (get_check s p)
  then have "ring_inv (shared s)" by (simp add: spsc_inv_def)
  with get_check show ?case
    by (auto simp: spsc_inv_def get_pc_ok_def ring_read_eq ring_items_empty_iff split: if_splits)
next
  case (get_load s p)
  then show ?case by (auto simp: spsc_inv_def get_pc_ok_def ring_items_hd)
next
  case (put_store s v p)
  show ?case by (rule spsc_store_inv [OF put_store.prems put_store.hyps])
next
  case (put_push s v b r)
  show ?case by (rule conjunct2 [OF spsc_push_inv [OF put_push.prems put_push.hyps]])
next
  case (get_pop s v b r)
  show ?case by (rule conjunct2 [OF spsc_pop_inv [OF get_pop.prems get_pop.hyps]])
qed simp_all



end
