(* ===== verification/Acsm.thy ===== *)
theory Acsm
  imports Snort_Prelude
begin

text \<open>
  The Aho-Corasick state machine of \<^verbatim>\<open>src/search_engines/acsmx.cc\<close> (search method
  \<^verbatim>\<open>ac_std\<close>): pattern list, keyword trie, failure links, conversion to a deterministic
  automaton, search and release. The table is a list of \<open>acsmMaxStates\<close> entries; state
  numbers are the \<^verbatim>\<open>int\<close>s of the code with \<open>- 1\<close> as \<^verbatim>\<open>ACSM_FAIL_STATE\<close>. The reference counted
  \<^verbatim>\<open>ACSM_USERDATA\<close> objects live in the list \<open>udata\<close> and patterns refer to them by
  position; a null \<^verbatim>\<open>id\<close> is \<open>None\<close>. Trees and negation lists are built by the callbacks of
  the \<^verbatim>\<open>MpseAgent\<close>, which are parameters. Memory statistics are left out.
\<close>

section \<open>Data\<close>

definition alphabet :: "u8 list" where
  "alphabet = map of_nat [0..<256]"

record ('i, 't, 'n) acsm_agent =
  build_tree :: "'i option \<Rightarrow> 't option \<Rightarrow> 't option"
  negate_list :: "'i \<Rightarrow> 'n option \<Rightarrow> 'n option"

record ('t, 'n) acsm_pattern =
  pat_udata :: nat
  patrn :: bytes
  casepatrn :: bytes
  rule_option_tree :: "'t option"
  neg_list :: "'n option"
  nocase :: bool
  negative :: bool

record ('t, 'n) acsm_statetable =
  NextState :: "u8 \<Rightarrow> int"
  FailState :: int
  MatchList :: "('t, 'n) acsm_pattern list"

record 'i acsm_userdata =
  udata_id :: "'i option"
  ref_count :: u32

record ('i, 't, 'n) acsm_struct =
  acsmMaxStates :: nat
  acsmNumStates :: int
  acsmPatterns :: "('t, 'n) acsm_pattern list"
  acsmStateTable :: "('t, 'n) acsm_statetable list"
  numPatterns :: int
  agent :: "('i, 't, 'n) acsm_agent option"
  udata :: "'i acsm_userdata list"

abbreviation state_at :: "('i, 't, 'n) acsm_struct \<Rightarrow> int \<Rightarrow> ('t, 'n) acsm_statetable" where
  "state_at a s \<equiv> acsmStateTable a ! nat s"

definition upd_state ::
  "int \<Rightarrow> (('t, 'n) acsm_statetable \<Rightarrow> ('t, 'n) acsm_statetable) \<Rightarrow>
   ('i, 't, 'n) acsm_struct \<Rightarrow> ('i, 't, 'n) acsm_struct"
where
  "upd_state s f a =
     a\<lparr>acsmStateTable := (acsmStateTable a)[nat s := f (state_at a s)]\<rparr>"

section \<open>Case translation\<close>

text \<open>\<^verbatim>\<open>toupper\<close> in the C locale moves the bytes of \<open>a .. z\<close> only.\<close>

definition xlatcase :: "u8 \<Rightarrow> u8" where
  "xlatcase c = (if 97 \<le> c \<and> c \<le> 122 then c - 32 else c)"

definition ConvertCaseEx :: "bytes \<Rightarrow> bytes" where
  "ConvertCaseEx s = map xlatcase s"

section \<open>Building the trie\<close>

definition CopyMatchListEntry ::
  "('t, 'n) acsm_pattern \<Rightarrow> ('i, 't, 'n) acsm_struct \<Rightarrow>
   ('t, 'n) acsm_pattern \<times> ('i, 't, 'n) acsm_struct"
where
  "CopyMatchListEntry px a =
     (px, a\<lparr>udata := (udata a)[pat_udata px :=
        (udata a ! pat_udata px)\<lparr>ref_count := ref_count (udata a ! pat_udata px) + 1\<rparr>]\<rparr>)"

definition AddMatchListEntry ::
  "int \<Rightarrow> ('t, 'n) acsm_pattern \<Rightarrow> ('i, 't, 'n) acsm_struct \<Rightarrow> ('i, 't, 'n) acsm_struct"
where
  "AddMatchListEntry s px a = upd_state s (\<lambda>e. e\<lparr>MatchList := px # MatchList e\<rparr>) a"

fun match_existing :: "('i, 't, 'n) acsm_struct \<Rightarrow> int \<Rightarrow> bytes \<Rightarrow> int \<times> bytes" where
  "match_existing a s [] = (s, [])"
| "match_existing a s (c # cs) =
     (let nx = NextState (state_at a s) c
      in if nx = -1 then (s, c # cs) else match_existing a nx cs)"

fun add_states :: "('i, 't, 'n) acsm_struct \<Rightarrow> int \<Rightarrow> bytes \<Rightarrow> ('i, 't, 'n) acsm_struct \<times> int" where
  "add_states a s [] = (a, s)"
| "add_states a s (c # cs) =
     (let a1 = a\<lparr>acsmNumStates := acsmNumStates a + 1\<rparr>;
          a2 = upd_state s (\<lambda>e. e\<lparr>NextState := (NextState e)(c := acsmNumStates a1)\<rparr>) a1
      in add_states a2 (acsmNumStates a2) cs)"

definition AddPatternStates ::
  "('t, 'n) acsm_pattern \<Rightarrow> ('i, 't, 'n) acsm_struct \<Rightarrow> ('i, 't, 'n) acsm_struct"
where
  "AddPatternStates p a =
     (let (s, rest) = match_existing a 0 (patrn p);
          (a', s') = add_states a s rest
      in AddMatchListEntry s' p a')"

section \<open>Failure links\<close>

text \<open>The two loops whose end depends on the shape of the table return \<open>None\<close> when they run forever.\<close>

partial_function (option) next_valid :: "('i, 't, 'n) acsm_struct \<Rightarrow> u8 \<Rightarrow> int \<Rightarrow> int option" where
  "next_valid a c fs =
     (let nx = NextState (state_at a fs) c
      in if nx = -1 then next_valid a c (FailState (state_at a fs)) else Some nx)"

fun copy_matches ::
  "int \<Rightarrow> ('t, 'n) acsm_pattern list \<Rightarrow> ('i, 't, 'n) acsm_struct \<Rightarrow> ('i, 't, 'n) acsm_struct"
where
  "copy_matches s [] a = a"
| "copy_matches s (m # ms) a =
     (let (px, a1) = CopyMatchListEntry m a
      in copy_matches s ms (upd_state s (\<lambda>e. e\<lparr>MatchList := px # MatchList e\<rparr>) a1))"

fun nfa_row ::
  "('i, 't, 'n) acsm_struct \<Rightarrow> int \<Rightarrow> u8 list \<Rightarrow> int list \<Rightarrow> (('i, 't, 'n) acsm_struct \<times> int list) option"
where
  "nfa_row a r [] queue = Some (a, queue)"
| "nfa_row a r (c # cs) queue =
     (let s = NextState (state_at a r) c
      in if s \<noteq> -1 then
           (case next_valid a c (FailState (state_at a r)) of
              None \<Rightarrow> None
            | Some nx \<Rightarrow>
                (let a1 = upd_state s (\<lambda>e. e\<lparr>FailState := nx\<rparr>) a;
                     a2 = copy_matches s (MatchList (state_at a1 nx)) a1
                 in nfa_row a2 r cs (queue @ [s])))
         else nfa_row a r cs queue)"

partial_function (option) nfa_loop ::
  "('i, 't, 'n) acsm_struct \<Rightarrow> int list \<Rightarrow> ('i, 't, 'n) acsm_struct option"
where
  "nfa_loop a queue =
     (case queue of
        [] \<Rightarrow> Some a
      | r # rest \<Rightarrow>
          (case nfa_row a r alphabet rest of
             None \<Rightarrow> None
           | Some (a', queue') \<Rightarrow> nfa_loop a' queue'))"

fun nfa_roots ::
  "('i, 't, 'n) acsm_struct \<Rightarrow> u8 list \<Rightarrow> int list \<Rightarrow> ('i, 't, 'n) acsm_struct \<times> int list"
where
  "nfa_roots a [] queue = (a, queue)"
| "nfa_roots a (c # cs) queue =
     (let s = NextState (state_at a 0) c
      in if s \<noteq> 0 then nfa_roots (upd_state s (\<lambda>e. e\<lparr>FailState := 0\<rparr>) a) cs (queue @ [s])
         else nfa_roots a cs queue)"

definition Build_NFA :: "('i, 't, 'n) acsm_struct \<Rightarrow> ('i, 't, 'n) acsm_struct option" where
  "Build_NFA a = (let (a', queue) = nfa_roots a alphabet [] in nfa_loop a' queue)"

section \<open>Conversion to a deterministic automaton\<close>

fun dfa_row ::
  "('i, 't, 'n) acsm_struct \<Rightarrow> int \<Rightarrow> u8 list \<Rightarrow> int list \<Rightarrow> ('i, 't, 'n) acsm_struct \<times> int list"
where
  "dfa_row a r [] queue = (a, queue)"
| "dfa_row a r (c # cs) queue =
     (let s = NextState (state_at a r) c
      in if s \<noteq> -1 then dfa_row a r cs (queue @ [s])
         else dfa_row
           (upd_state r (\<lambda>e. e\<lparr>NextState := (NextState e)
              (c := NextState (state_at a (FailState (state_at a r))) c)\<rparr>) a) r cs queue)"

partial_function (option) dfa_loop ::
  "('i, 't, 'n) acsm_struct \<Rightarrow> int list \<Rightarrow> ('i, 't, 'n) acsm_struct option"
where
  "dfa_loop a queue =
     (case queue of
        [] \<Rightarrow> Some a
      | r # rest \<Rightarrow> (case dfa_row a r alphabet rest of (a', queue') \<Rightarrow> dfa_loop a' queue'))"

definition Convert_NFA_To_DFA :: "('i, 't, 'n) acsm_struct \<Rightarrow> ('i, 't, 'n) acsm_struct option" where
  "Convert_NFA_To_DFA a =
     dfa_loop a (filter (\<lambda>s. s \<noteq> 0) (map (NextState (state_at a 0)) alphabet))"

section \<open>Interface\<close>

definition acsmNew :: "('i, 't, 'n) acsm_agent option \<Rightarrow> ('i, 't, 'n) acsm_struct" where
  "acsmNew ag =
     \<lparr>acsmMaxStates = 0, acsmNumStates = 0, acsmPatterns = [], acsmStateTable = [],
      numPatterns = 0, agent = ag, udata = []\<rparr>"

definition acsmAddPattern ::
  "('i, 't, 'n) acsm_struct \<Rightarrow> bytes \<Rightarrow> bool \<Rightarrow> bool \<Rightarrow> 'i option \<Rightarrow> ('i, 't, 'n) acsm_struct"
where
  "acsmAddPattern p pat nc neg user =
     (let plist = \<lparr>pat_udata = length (udata p), patrn = ConvertCaseEx pat, casepatrn = pat,
            rule_option_tree = None, neg_list = None, nocase = nc, negative = neg\<rparr>
      in p\<lparr>acsmPatterns := plist # acsmPatterns p,
           numPatterns := numPatterns p + 1,
           udata := udata p @ [\<lparr>udata_id = user, ref_count = 1\<rparr>]\<rparr>)"

definition empty_state :: "('t, 'n) acsm_statetable" where
  "empty_state = \<lparr>NextState = (\<lambda>_. -1), FailState = 0, MatchList = []\<rparr>"

definition root_default :: "('t, 'n) acsm_statetable \<Rightarrow> ('t, 'n) acsm_statetable" where
  "root_default e = e\<lparr>NextState := (\<lambda>c. if NextState e c = -1 then 0 else NextState e c)\<rparr>"

definition acsmCompile_automaton ::
  "('i, 't, 'n) acsm_struct \<Rightarrow> ('i, 't, 'n) acsm_struct option"
where
  "acsmCompile_automaton a =
     (let n = Suc (sum_list (map (length \<circ> patrn) (acsmPatterns a)));
          a1 = a\<lparr>acsmMaxStates := n, acsmStateTable := replicate n empty_state, acsmNumStates := 0\<rparr>;
          a2 = fold AddPatternStates (acsmPatterns a1) a1;
          a3 = upd_state 0 root_default a2
      in Option.bind (Build_NFA a3) Convert_NFA_To_DFA)"

text \<open>
  The match list of a state is walked once. Negative entries extend the negation list, the
  others the rule tree, both kept in the first entry; a last call finishes the tree.
\<close>

fun build_entries ::
  "('i, 't, 'n) acsm_agent \<Rightarrow> 'i acsm_userdata list \<Rightarrow> ('t, 'n) acsm_pattern list \<Rightarrow>
   ('t, 'n) acsm_pattern \<Rightarrow> ('t, 'n) acsm_pattern"
where
  "build_entries ag ud [] hd0 = hd0"
| "build_entries ag ud (m # ms) hd0 =
     build_entries ag ud ms
       (case udata_id (ud ! pat_udata m) of
          None \<Rightarrow> hd0
        | Some i \<Rightarrow>
            if negative m then hd0\<lparr>neg_list := negate_list ag i (neg_list hd0)\<rparr>
            else hd0\<lparr>rule_option_tree := build_tree ag (Some i) (rule_option_tree hd0)\<rparr>)"

definition build_state_tree ::
  "('i, 't, 'n) acsm_agent \<Rightarrow> 'i acsm_userdata list \<Rightarrow> ('t, 'n) acsm_statetable \<Rightarrow> ('t, 'n) acsm_statetable"
where
  "build_state_tree ag ud e =
     (case MatchList e of
        [] \<Rightarrow> e
      | m # ms \<Rightarrow>
          (let m' = build_entries ag ud (m # ms) m
           in e\<lparr>MatchList := m'\<lparr>rule_option_tree := build_tree ag None (rule_option_tree m')\<rparr> # ms\<rparr>))"

definition acsmBuildMatchStateTrees ::
  "('i, 't, 'n) acsm_agent \<Rightarrow> ('i, 't, 'n) acsm_struct \<Rightarrow> ('i, 't, 'n) acsm_struct"
where
  "acsmBuildMatchStateTrees ag a =
     a\<lparr>acsmStateTable := map (build_state_tree ag (udata a)) (acsmStateTable a)\<rparr>"

definition acsmCompile :: "('i, 't, 'n) acsm_struct \<Rightarrow> ('i, 't, 'n) acsm_struct option" where
  "acsmCompile a =
     (case acsmCompile_automaton a of
        None \<Rightarrow> None
      | Some a' \<Rightarrow>
          (case agent a' of
             None \<Rightarrow> Some a'
           | Some ag \<Rightarrow> Some (acsmBuildMatchStateTrees ag a')))"

section \<open>Search\<close>

text \<open>
  The callback receives the identifier, tree and negation list of the first entry of the match
  list and the offset after the last matched byte, updates its context, and stops the search
  with a positive result. The folded text goes into a static buffer of 64 KiB: a longer text
  writes past it, which the model reports as \<open>None\<close>.
\<close>

type_synonym ('i, 't, 'n, 'c) mpse_match =
  "'i option \<Rightarrow> 't option \<Rightarrow> nat \<Rightarrow> 'c \<Rightarrow> 'n option \<Rightarrow> int \<times> 'c"

fun acsm_search_loop ::
  "('i, 't, 'n) acsm_struct \<Rightarrow> ('i, 't, 'n, 'c) mpse_match \<Rightarrow> int \<Rightarrow> nat \<Rightarrow> nat \<Rightarrow> 'c \<Rightarrow> bytes \<Rightarrow>
   nat \<times> int \<times> 'c"
where
  "acsm_search_loop a match s k nfound ctx [] = (nfound, s, ctx)"
| "acsm_search_loop a match s k nfound ctx (c # cs) =
     (let s' = NextState (state_at a s) c
      in case MatchList (state_at a s') of
           [] \<Rightarrow> acsm_search_loop a match s' (k + 1) nfound ctx cs
         | m # _ \<Rightarrow>
             (case match (udata_id (udata a ! pat_udata m)) (rule_option_tree m) (k + 1) ctx (neg_list m) of
                (v, ctx') \<Rightarrow>
                  if v > 0 then (nfound + 1, s', ctx')
                  else acsm_search_loop a match s' (k + 1) (nfound + 1) ctx' cs))"

definition acsmSearch ::
  "('i, 't, 'n) acsm_struct \<Rightarrow> bytes \<Rightarrow> ('i, 't, 'n, 'c) mpse_match \<Rightarrow> 'c \<Rightarrow> int option \<Rightarrow>
   (nat \<times> int option \<times> 'c) option"
where
  "acsmSearch a Tx match ctx current_state =
     (if 65536 < length Tx then None
      else case current_state of
        None \<Rightarrow> Some (0, None, ctx)
      | Some s \<Rightarrow>
          (case acsm_search_loop a match s 0 0 ctx (ConvertCaseEx Tx) of
             (nfound, s', ctx') \<Rightarrow> Some (nfound, Some s', ctx')))"

definition acsmPatternCount :: "('i, 't, 'n) acsm_struct \<Rightarrow> int" where
  "acsmPatternCount a = numPatterns a"

section \<open>Release\<close>

text \<open>
  \<^verbatim>\<open>acsmFree\<close> walks every match list once, drops one reference per entry and releases a user
  data object when its count reaches zero. The model returns the releases in order; the
  table, the pattern buffers and the structure itself are plain memory.
\<close>

datatype ('i, 't, 'n) acsm_release = UserFree 'i | UdataFree nat | TreeFree 't | ListFree 'n

fun free_entries ::
  "bool \<Rightarrow> ('t, 'n) acsm_pattern list \<Rightarrow> 'i acsm_userdata list \<Rightarrow> ('i, 't, 'n) acsm_release list"
where
  "free_entries has_agent [] ud = []"
| "free_entries has_agent (m # ms) ud =
     (let h = pat_udata m;
          u = (ud ! h)\<lparr>ref_count := ref_count (ud ! h) - 1\<rparr>;
          user = (case udata_id u of Some i \<Rightarrow> if has_agent then [UserFree i] else [] | None \<Rightarrow> []);
          released = (if ref_count u = 0 then user @ [UdataFree h] else []);
          trees = (case rule_option_tree m of Some t \<Rightarrow> if has_agent then [TreeFree t] else [] | None \<Rightarrow> []);
          negs = (case neg_list m of Some n \<Rightarrow> if has_agent then [ListFree n] else [] | None \<Rightarrow> [])
      in released @ trees @ negs @ free_entries has_agent ms (ud[h := u]))"

definition acsmFree :: "('i, 't, 'n) acsm_struct \<Rightarrow> ('i, 't, 'n) acsm_release list" where
  "acsmFree a =
     free_entries (agent a \<noteq> None) (concat (map MatchList (take (acsmMaxStates a) (acsmStateTable a)))) (udata a)"

end
