(* ===== verification/Keyword_Trie.thy ===== *)
theory Keyword_Trie
  imports Acsm "HOL-Library.Sublist" "HOL-Library.Multiset"
begin

text \<open>
  The mathematics behind the keyword trees of \<^verbatim>\<open>src/search_engines\<close>, independent of their
  storage. A trie is the list of the words of its states in order of creation, so a state
  number is a position in that list. The state a search is in after some text is the longest
  suffix of the text that is a word of the trie (\<open>lsuf\<close>); breadth-first traversal is
  described by the words discovered so far and those still queued.
\<close>

section \<open>Positions\<close>

fun pos :: "'a list \<Rightarrow> 'a \<Rightarrow> nat" where
  "pos [] w = 0"
| "pos (x # xs) w = (if x = w then 0 else Suc (pos xs w))"

lemma pos_less [simp]: "pos xs w < length xs \<longleftrightarrow> w \<in> set xs"
  by (induction xs) auto

lemma nth_pos [simp]: "w \<in> set xs \<Longrightarrow> xs ! pos xs w = w"
  by (induction xs) auto

lemma pos_nth: "distinct xs \<Longrightarrow> i < length xs \<Longrightarrow> pos xs (xs ! i) = i"
  by (induction xs arbitrary: i) (auto simp: nth_Cons split: nat.splits)

lemma pos_append: "pos (xs @ ys) w = (if w \<in> set xs then pos xs w else length xs + pos ys w)"
  by (induction xs) auto

lemma pos_eq_iff:
  "distinct xs \<Longrightarrow> i < length xs \<Longrightarrow> w \<in> set xs \<Longrightarrow> pos xs w = i \<longleftrightarrow> w = xs ! i"
  using pos_nth by fastforce

lemma pos_inj: "v \<in> set xs \<Longrightarrow> w \<in> set xs \<Longrightarrow> pos xs v = pos xs w \<longleftrightarrow> v = w"
  by (metis nth_pos)

section \<open>Longest suffix in a prefix-closed set\<close>

definition prefix_closed :: "'a list set \<Rightarrow> bool" where
  "prefix_closed S \<longleftrightarrow> (\<forall>w c. w @ [c] \<in> S \<longrightarrow> w \<in> S)"

fun lsuf :: "'a list set \<Rightarrow> 'a list \<Rightarrow> 'a list" where
  "lsuf S [] = []"
| "lsuf S (c # cs) = (if c # cs \<in> S then c # cs else lsuf S cs)"

lemma lsuf_in [simp]: "[] \<in> S \<Longrightarrow> lsuf S w \<in> S"
  by (induction w) auto

lemma lsuf_suffix: "suffix (lsuf S w) w"
  by (induction w) (auto intro: suffix_ConsI)

lemma length_lsuf: "length (lsuf S w) \<le> length w"
  by (induction w) auto

lemma lsuf_id [simp]: "w \<in> S \<Longrightarrow> lsuf S w = w"
  by (cases w) auto

lemma lsuf_tl: "w \<notin> S \<Longrightarrow> lsuf S w = lsuf S (tl w)"
  by (cases w) auto

lemma lsuf_longest: "v \<in> S \<Longrightarrow> suffix v w \<Longrightarrow> suffix v (lsuf S w)"
  by (induction w) (auto simp: suffix_Cons)

lemma suffix_lsuf_iff: "v \<in> S \<Longrightarrow> suffix v (lsuf S w) \<longleftrightarrow> suffix v w"
  using lsuf_longest lsuf_suffix suffix_order.trans by metis

lemma prefix_closedD: "prefix_closed S \<Longrightarrow> w @ [c] \<in> S \<Longrightarrow> w \<in> S"
  by (auto simp: prefix_closed_def)

lemma prefix_closed_append: "prefix_closed S \<Longrightarrow> v @ w \<in> S \<Longrightarrow> v \<in> S"
  by (induction w rule: rev_induct) (auto simp: prefix_closed_def simp flip: append_assoc)

text \<open>The state after one more byte depends only on the state before it.\<close>

lemma lsuf_step:
  assumes "prefix_closed S"
  shows "lsuf S (w @ [c]) = lsuf S (lsuf S w @ [c])"
proof (induction w)
  case Nil
  show ?case by simp
next
  case (Cons d w)
  then show ?case using prefix_closedD [OF assms, of "d # w" c] by auto
qed

text \<open>The failure word of a nonempty word is its longest proper suffix in the set.\<close>

definition fail_word :: "'a list set \<Rightarrow> 'a list \<Rightarrow> 'a list" where
  "fail_word S w = lsuf S (tl w)"

lemma fail_word_in [simp]: "[] \<in> S \<Longrightarrow> fail_word S w \<in> S"
  by (simp add: fail_word_def)

lemma length_fail_word: "w \<noteq> [] \<Longrightarrow> length (fail_word S w) < length w"
  using length_lsuf [of S "tl w"] by (cases w) (auto simp: fail_word_def)

lemma fail_step:
  assumes "prefix_closed S" and "w @ [c] \<notin> S" and "w \<noteq> []"
  shows "lsuf S (w @ [c]) = lsuf S (fail_word S w @ [c])"
  using assms lsuf_tl [of "w @ [c]" S] lsuf_step [of S "tl w" c] by (simp add: fail_word_def)

lemma fail_child:
  assumes "prefix_closed S" and "w \<noteq> []"
  shows "fail_word S (w @ [c]) = lsuf S (fail_word S w @ [c])"
  using assms lsuf_step [of S "tl w" c] by (simp add: fail_word_def)

text \<open>The patterns that end in a word are the word itself and those that end in its failure word.\<close>

lemma suffix_fail_iff:
  assumes "v \<in> S" and "w \<noteq> []"
  shows "suffix v w \<longleftrightarrow> v = w \<or> suffix v (fail_word S w)"
  using assms by (cases w) (auto simp: fail_word_def suffix_lsuf_iff suffix_Cons)

lemma fail_not_suffix: "w \<noteq> [] \<Longrightarrow> \<not> suffix w (fail_word S w)"
  using length_fail_word [of w S] suffix_length_le by fastforce

section \<open>Breadth-first traversal\<close>

lemma set_alphabet [simp]: "set alphabet = UNIV"
proof -
  have "c \<in> set alphabet" for c :: u8
  proof -
    have "unat c < 256" using unsigned_less [of c] by simp
    moreover have "c = of_nat (unat c)" by simp
    ultimately show ?thesis unfolding alphabet_def by (metis atLeastLessThan_iff image_eqI le0 set_map set_upt)
  qed
  then show ?thesis by auto
qed

lemma distinct_alphabet [simp]: "distinct alphabet"
proof -
  have "inj_on (of_nat :: nat \<Rightarrow> u8) {0..<256}"
    by (rule inj_on_inverseI [of _ unat]) (simp add: unat_of_nat)
  then show ?thesis by (simp add: alphabet_def distinct_map)
qed

definition kids :: "u8 list set \<Rightarrow> bytes \<Rightarrow> u8 list \<Rightarrow> bytes list" where
  "kids S w cs = map (\<lambda>c. w @ [c]) (filter (\<lambda>c. w @ [c] \<in> S) cs)"

lemma kids_Nil [simp]: "kids S w [] = []"
  by (simp add: kids_def)

lemma kids_Cons [simp]:
  "kids S w (c # cs) = (if w @ [c] \<in> S then (w @ [c]) # kids S w cs else kids S w cs)"
  by (simp add: kids_def)

lemma set_kids: "set (kids S w cs) = {w @ [c] | c. c \<in> set cs \<and> w @ [c] \<in> S}"
  by (auto simp: kids_def)

lemma distinct_kids: "distinct cs \<Longrightarrow> distinct (kids S w cs)"
  by (auto simp: kids_def distinct_map inj_on_def)

lemma length_kids: "v \<in> set (kids S w cs) \<Longrightarrow> length v = Suc (length w)"
  by (auto simp: set_kids)

lemma sorted_kids: "sorted_wrt (\<lambda>v w. length v \<le> length w) (kids S w cs)"
  by (induction cs) (auto simp: set_kids)

text \<open>
  \<open>D\<close> are the words discovered so far, \<open>qs\<close> those among them still queued: the queue
  is ordered by length and spans at most two lengths, and a word not yet discovered has a
  queued proper prefix.
\<close>

definition bfs_inv :: "u8 list set \<Rightarrow> u8 list set \<Rightarrow> bytes list \<Rightarrow> bool" where
  "bfs_inv S D qs \<longleftrightarrow>
     D \<subseteq> S \<and> [] \<in> D \<and> prefix_closed D \<and> set qs \<subseteq> D \<and> [] \<notin> set qs \<and> distinct qs \<and>
     sorted_wrt (\<lambda>v w. length v \<le> length w) qs \<and>
     (\<forall>v\<in>set qs. length v \<le> Suc (length (hd qs))) \<and>
     (\<forall>v\<in>set qs. \<forall>c. v @ [c] \<notin> D) \<and>
     (\<forall>w\<in>S - D. \<exists>v\<in>set qs. strict_prefix v w)"

lemma bfs_inv_start:
  assumes "prefix_closed S" and "[] \<in> S"
  shows "bfs_inv S (insert [] (set (kids S [] alphabet))) (kids S [] alphabet)"
proof -
  have "\<exists>v\<in>set (kids S [] alphabet). strict_prefix v w"
    if w: "w \<in> S" "w \<noteq> []" "w \<notin> set (kids S [] alphabet)" for w
  proof -
    obtain c u where cu: "w = c # u" using w(2) by (cases w) auto
    with w have "[c] \<in> S" using prefix_closed_append [OF assms(1), of "[c]" u] by simp
    moreover from this cu w(3) have "u \<noteq> []" by (auto simp: set_kids)
    ultimately show ?thesis using cu by (auto simp: set_kids strict_prefix_def)
  qed
  then show ?thesis using assms sorted_kids [of S "[]" alphabet]
    by (auto simp: bfs_inv_def set_kids prefix_closed_def distinct_kids)
qed

lemma bfs_inv_short:
  assumes "bfs_inv S D (r # qs)" and "w \<in> S" and "length w \<le> length r"
  shows "w \<in> D"
proof (rule ccontr)
  assume "w \<notin> D"
  with assms have "\<exists>v\<in>set (r # qs). strict_prefix v w" unfolding bfs_inv_def by blast
  then obtain v where v: "v \<in> set (r # qs)" "strict_prefix v w" by blast
  then have "length r \<le> length v" using assms(1) by (auto simp: bfs_inv_def)
  with v(2) assms(3) show False using prefix_length_less by fastforce
qed

lemma bfs_inv_done: "bfs_inv S D [] \<Longrightarrow> D = S"
  by (auto simp: bfs_inv_def)

lemma bfs_inv_step:
  assumes inv: "bfs_inv S D (r # qs)" and S: "prefix_closed S"
  shows "bfs_inv S (D \<union> set (kids S r alphabet)) (qs @ kids S r alphabet)"
proof -
  let ?K = "kids S r alphabet"
  from inv have D: "D \<subseteq> S" "[] \<in> D" "prefix_closed D" and q: "set qs \<subseteq> D" "r \<in> D"
    "[] \<notin> set qs" "r \<noteq> []" "distinct qs" "r \<notin> set qs"
    and sorted: "sorted_wrt (\<lambda>v w. length v \<le> length w) qs" "\<forall>v\<in>set qs. length r \<le> length v"
    and two: "\<forall>v\<in>set qs. length v \<le> Suc (length r)"
    and fresh: "\<forall>c. r @ [c] \<notin> D" "\<forall>v\<in>set qs. \<forall>c. v @ [c] \<notin> D"
    and rest: "\<forall>w\<in>S - D. strict_prefix r w \<or> (\<exists>v\<in>set qs. strict_prefix v w)"
    by (auto simp: bfs_inv_def)
  have "set (qs @ ?K) \<subseteq> D \<union> set ?K" "[] \<notin> set (qs @ ?K)"
    using q by (auto simp: set_kids)
  moreover have "distinct (qs @ ?K)"
    using q fresh(1) by (auto simp: distinct_kids set_kids)
  moreover have "prefix_closed (D \<union> set ?K)"
    using D(3) q(2) by (auto simp: prefix_closed_def set_kids)
  moreover have "sorted_wrt (\<lambda>v w. length v \<le> length w) (qs @ ?K)"
    using sorted(1) two by (auto simp: sorted_wrt_append sorted_kids dest: length_kids)
  moreover have "\<forall>v\<in>set (qs @ ?K). length v \<le> Suc (length (hd (qs @ ?K)))"
  proof -
    have "length r \<le> length (hd (qs @ ?K))" if "qs @ ?K \<noteq> []"
    proof -
      from that have "hd (qs @ ?K) \<in> set (qs @ ?K)" by (rule hd_in_set)
      with sorted(2) show ?thesis by (auto dest: length_kids)
    qed
    moreover have "\<forall>v\<in>set (qs @ ?K). length v \<le> Suc (length r)"
      using two by (auto dest: length_kids)
    ultimately show ?thesis by fastforce
  qed
  moreover have "v @ [c] \<notin> D \<union> set ?K" if "v \<in> set (qs @ ?K)" for v c
    using that fresh q(6) D(3) by (auto simp: set_kids prefix_closed_def)
  moreover have "\<exists>v\<in>set (qs @ ?K). strict_prefix v w" if "w \<in> S - (D \<union> set ?K)" for w
  proof (cases "strict_prefix r w")
    case True
    then obtain c u where w: "w = r @ c # u" by (elim strict_prefixE')
    with that S have "r @ [c] \<in> S" using prefix_closed_append [of S "r @ [c]" u] by simp
    moreover have "u \<noteq> []" using that w calculation by (auto simp: set_kids)
    ultimately show ?thesis using w by (auto simp: set_kids strict_prefix_def intro!: bexI [of _ "r @ [c]"])
  next
    case False
    with rest that show ?thesis by auto
  qed
  ultimately show ?thesis using D unfolding bfs_inv_def by (auto simp: set_kids)
qed

lemma bfs_measure:
  assumes inv: "bfs_inv S D (r # qs)" and "finite S"
  shows "card (S - (D \<union> set (kids S r alphabet))) + length (qs @ kids S r alphabet)
    < card (S - D) + length (r # qs)"
proof -
  let ?K = "kids S r alphabet"
  have K: "set ?K \<subseteq> S - D" using inv by (auto simp: bfs_inv_def set_kids)
  have "S - (D \<union> set ?K) = (S - D) - set ?K" by auto
  then have "card (S - (D \<union> set ?K)) = card (S - D) - card (set ?K)"
    using K by (simp add: card_Diff_subset)
  moreover have "card (set ?K) = length ?K" by (simp add: distinct_card distinct_kids)
  moreover have "card (set ?K) \<le> card (S - D)"
    using K assms(2) by (simp add: card_mono)
  ultimately show ?thesis by simp
qed

end
