(* ===== verification/Acsm_Trie.thy ===== *)
theory Acsm_Trie
  imports Keyword_Trie
begin

text \<open>
  The first phase of \<^verbatim>\<open>_acsmCompile\<close>: after \<^verbatim>\<open>AddPatternStates\<close> has run for every pattern
  the table is the keyword trie of the folded patterns. \<open>trie_inv\<close> relates the table
  to the list of state words; no operation changes the size of the table or indexes outside
  of it.
\<close>

lemma upd_state_simps [simp]:
  "length (acsmStateTable (upd_state s f a)) = length (acsmStateTable a)"
  "acsmMaxStates (upd_state s f a) = acsmMaxStates a"
  "acsmNumStates (upd_state s f a) = acsmNumStates a"
  "acsmPatterns (upd_state s f a) = acsmPatterns a"
  "numPatterns (upd_state s f a) = numPatterns a"
  "agent (upd_state s f a) = agent a"
  "udata (upd_state s f a) = udata a"
  by (simp_all add: upd_state_def)

lemma upd_state_at [simp]:
  "acsmStateTable (upd_state s f a) ! i =
     (if i = nat s \<and> i < length (acsmStateTable a) then f (acsmStateTable a ! i)
      else acsmStateTable a ! i)"
  by (auto simp: upd_state_def nth_list_update list_update_beyond)

definition tr :: "bytes list \<Rightarrow> bytes \<Rightarrow> u8 \<Rightarrow> int" where
  "tr L w c = (if w @ [c] \<in> set L then int (pos L (w @ [c])) else -1)"

definition trie_words :: "bytes list \<Rightarrow> bool" where
  "trie_words L \<longleftrightarrow> L \<noteq> [] \<and> L ! 0 = [] \<and> distinct L \<and> prefix_closed (set L)"

lemma trie_wordsD:
  assumes "trie_words L"
  shows "[] \<in> set L" "pos L [] = 0" "distinct L" "prefix_closed (set L)" "0 < length L"
  using assms pos_nth [of L 0] nth_mem [of 0 L] by (simp_all add: trie_words_def)

definition trie_inv ::
  "('i, 't, 'n) acsm_struct \<Rightarrow> bytes list \<Rightarrow> ('t, 'n) acsm_pattern list \<Rightarrow> bool"
where
  "trie_inv a L P \<longleftrightarrow>
     trie_words L \<and> acsmNumStates a = int (length L) - 1 \<and> length L \<le> length (acsmStateTable a) \<and>
     patrn ` set P \<subseteq> set L \<and>
     (\<forall>s<length L. NextState (acsmStateTable a ! s) = tr L (L ! s) \<and>
        FailState (acsmStateTable a ! s) = 0 \<and>
        MatchList (acsmStateTable a ! s) = filter (\<lambda>p. patrn p = L ! s) P) \<and>
     (\<forall>s. length L \<le> s \<and> s < length (acsmStateTable a) \<longrightarrow> acsmStateTable a ! s = empty_state)"

definition same_frame :: "('i, 't, 'n) acsm_struct \<Rightarrow> ('i, 't, 'n) acsm_struct \<Rightarrow> bool" where
  "same_frame a b \<longleftrightarrow>
     length (acsmStateTable b) = length (acsmStateTable a) \<and> acsmMaxStates b = acsmMaxStates a \<and>
     acsmPatterns b = acsmPatterns a \<and> numPatterns b = numPatterns a \<and> agent b = agent a \<and>
     map udata_id (udata b) = map udata_id (udata a)"

lemma same_frame_refl [simp]: "same_frame a a"
  by (simp add: same_frame_def)

lemma same_frame_trans [trans]: "same_frame a b \<Longrightarrow> same_frame b c \<Longrightarrow> same_frame a c"
  by (simp add: same_frame_def)

lemma same_frame_upd [simp]: "same_frame a (upd_state s f b) = same_frame a b"
  by (simp add: same_frame_def)

lemma trie_inv_next:
  assumes "trie_inv a L P" and "w \<in> set L"
  shows "NextState (acsmStateTable a ! pos L w) = tr L w"
  using assms by (simp add: trie_inv_def)

section \<open>AddPatternStates\<close>

lemma match_existing_word:
  assumes "trie_inv a L P" and "w \<in> set L" and "match_existing a (int (pos L w)) cs = (s, rest)"
  shows "\<exists>u. cs = u @ rest \<and> w @ u \<in> set L \<and> s = int (pos L (w @ u)) \<and>
    (rest = [] \<or> w @ u @ [hd rest] \<notin> set L)"
  using assms(2,3)
proof (induction cs arbitrary: w)
  case Nil
  then show ?case by simp
next
  case (Cons c cs)
  show ?case
  proof (cases "w @ [c] \<in> set L")
    case True
    with Cons.prems trie_inv_next [OF assms(1)]
    have "match_existing a (int (pos L (w @ [c]))) cs = (s, rest)" by (simp add: tr_def)
    from Cons.IH [OF True this] obtain u where
      u: "cs = u @ rest" "(w @ [c]) @ u \<in> set L" "s = int (pos L ((w @ [c]) @ u))"
        "rest = [] \<or> (w @ [c]) @ u @ [hd rest] \<notin> set L" by blast
    from u show ?thesis by (intro exI [of _ "c # u"]) simp
  next
    case False
    with Cons.prems trie_inv_next [OF assms(1)] show ?thesis
      by (intro exI [of _ "[]"]) (auto simp: tr_def)
  qed
qed

lemma trie_words_snoc:
  assumes "trie_words L" and "w \<in> set L" and "w @ [c] \<notin> set L"
  shows "trie_words (L @ [w @ [c]])"
  using assms by (auto simp: trie_words_def nth_append prefix_closed_def)

lemma tr_snoc:
  assumes "trie_words L" and "v \<in> set L" and "w \<in> set L" and "w @ [c] \<notin> set L"
  shows "tr (L @ [w @ [c]]) v = (if v = w then (tr L v)(c := int (length L)) else tr L v)"
  using assms by (auto simp: tr_def pos_append fun_eq_iff)

lemma tr_snoc_new:
  assumes "trie_words L" and "w @ [c] \<notin> set L"
  shows "tr (L @ [w @ [c]]) (w @ [c]) = (\<lambda>_. -1)"
  using assms prefix_closedD [OF trie_wordsD(4) [OF assms(1)], of "w @ [c]"]
  by (auto simp: tr_def fun_eq_iff)

lemma add_state_inv:
  assumes inv: "trie_inv a L P" and w: "w \<in> set L" "w @ [c] \<notin> set L"
    and room: "length L < length (acsmStateTable a)"
  shows "trie_inv (upd_state (int (pos L w))
      (\<lambda>e. e\<lparr>NextState := (NextState e)(c := int (length L))\<rparr>)
      (a\<lparr>acsmNumStates := int (length L)\<rparr>)) (L @ [w @ [c]]) P" (is "trie_inv ?b ?L P")
proof -
  from inv have L: "trie_words L" and P: "patrn ` set P \<subseteq> set L" by (simp_all add: trie_inv_def)
  have old: "NextState (acsmStateTable ?b ! s) = tr ?L (?L ! s) \<and> FailState (acsmStateTable ?b ! s) = 0 \<and>
      MatchList (acsmStateTable ?b ! s) = filter (\<lambda>p. patrn p = ?L ! s) P" if "s < length L" for s
  proof -
    have "s = pos L w \<longleftrightarrow> L ! s = w"
      using that w(1) trie_wordsD(3) [OF L] by (auto simp: pos_nth)
    moreover have "tr ?L (L ! s) =
        (if L ! s = w then (tr L (L ! s))(c := int (length L)) else tr L (L ! s))"
      using tr_snoc [OF L _ w] that by simp
    ultimately show ?thesis using inv that room by (simp add: trie_inv_def nth_append)
  qed
  have new: "NextState (acsmStateTable ?b ! length L) = tr ?L (?L ! length L) \<and>
      FailState (acsmStateTable ?b ! length L) = 0 \<and>
      MatchList (acsmStateTable ?b ! length L) = filter (\<lambda>p. patrn p = ?L ! length L) P"
  proof -
    have "pos L w \<noteq> length L" using w(1) pos_less [of L w] by linarith
    moreover have "filter (\<lambda>p. patrn p = w @ [c]) P = []"
      using P w(2) by (auto simp: filter_empty_conv)
    ultimately show ?thesis using inv room tr_snoc_new [OF L w(2)]
      by (simp add: trie_inv_def empty_state_def)
  qed
  have "acsmStateTable ?b ! s = empty_state" if "length ?L \<le> s" "s < length (acsmStateTable ?b)" for s
  proof -
    have "s \<noteq> pos L w" using that(1) w(1) pos_less [of L w] by (auto simp del: pos_less)
    then show ?thesis using inv that by (simp add: trie_inv_def)
  qed
  then show ?thesis
    using inv room trie_words_snoc [OF L w] old new
    by (auto simp: trie_inv_def less_Suc_eq)
qed

lemma add_states_inv:
  assumes "trie_inv a L P" and "w \<in> set L" and "cs = [] \<or> w @ [hd cs] \<notin> set L"
    and "length L + length cs \<le> length (acsmStateTable a)"
    and "add_states a (int (pos L w)) cs = (b, s)"
  shows "\<exists>M. trie_inv b (L @ M) P \<and> length M = length cs \<and> w @ cs \<in> set (L @ M) \<and>
    s = int (pos (L @ M) (w @ cs)) \<and> same_frame a b \<and> udata b = udata a \<and>
    set (L @ M) = set L \<union> {w @ u | u. prefix u cs}"
  using assms
proof (induction cs arbitrary: a L w)
  case Nil
  then show ?case by (intro exI [of _ "[]"]) auto
next
  case (Cons c cs)
  let ?L = "L @ [w @ [c]]"
  let ?a = "upd_state (int (pos L w)) (\<lambda>e. e\<lparr>NextState := (NextState e)(c := int (length L))\<rparr>)
      (a\<lparr>acsmNumStates := int (length L)\<rparr>)"
  from Cons.prems(3) have new: "w @ [c] \<notin> set L" by simp
  have num: "acsmNumStates a + 1 = int (length L)"
    using Cons.prems(1) by (simp add: trie_inv_def)
  have inv: "trie_inv ?a ?L P"
    using add_state_inv [OF Cons.prems(1,2) new] Cons.prems(4) by simp
  have fresh: "cs = [] \<or> (w @ [c]) @ [hd cs] \<notin> set ?L"
    using new trie_wordsD(4) [of L] Cons.prems(1) prefix_closedD [of "set L" "w @ [c]"]
    by (auto simp: trie_inv_def)
  have "add_states ?a (int (pos ?L (w @ [c]))) cs = (b, s)"
    using Cons.prems(5) num new by (simp add: Let_def pos_append)
  from Cons.IH [OF inv _ fresh _ this] Cons.prems(4)
  obtain M where M: "trie_inv b (?L @ M) P" "length M = length cs" "(w @ [c]) @ cs \<in> set (?L @ M)"
    "s = int (pos (?L @ M) ((w @ [c]) @ cs))" "same_frame ?a b" "udata b = udata ?a"
    "set (?L @ M) = set ?L \<union> {(w @ [c]) @ u | u. prefix u cs}" by auto
  have "set L \<union> {w @ u | u. prefix u (c # cs)} = set ?L \<union> {(w @ [c]) @ u | u. prefix u cs}"
    using Cons.prems(2) by (auto simp: prefix_Cons)
  moreover have "same_frame a b" using M(5) by (simp add: same_frame_def)
  ultimately show ?case using M by (intro exI [of _ "(w @ [c]) # M"]) simp
qed

lemma add_match_inv:
  assumes inv: "trie_inv a L P" and p: "patrn p \<in> set L"
  shows "trie_inv (AddMatchListEntry (int (pos L (patrn p))) p a) L (p # P)"
proof -
  have "s = pos L (patrn p) \<longleftrightarrow> patrn p = L ! s" if "s < length L" for s
    using that p inv trie_wordsD(3) [of L] by (auto simp: trie_inv_def pos_nth)
  moreover have "s \<noteq> pos L (patrn p)" if "length L \<le> s" for s
    using that p pos_less [of L "patrn p"] by (auto simp del: pos_less)
  ultimately show ?thesis using inv p
    by (auto simp: trie_inv_def AddMatchListEntry_def)
qed

definition trie_prefixes :: "bytes list \<Rightarrow> bytes set" where
  "trie_prefixes ps = insert [] {u. \<exists>p\<in>set ps. prefix u p}"

lemma AddPatternStates_inv:
  assumes inv: "trie_inv a L P" and room: "length L + length (patrn p) \<le> length (acsmStateTable a)"
  shows "\<exists>M. trie_inv (AddPatternStates p a) (L @ M) (p # P) \<and> length M \<le> length (patrn p) \<and>
    same_frame a (AddPatternStates p a) \<and> udata (AddPatternStates p a) = udata a \<and>
    set (L @ M) = set L \<union> {u. prefix u (patrn p)}"
proof -
  from inv have L: "trie_words L" by (simp add: trie_inv_def)
  note root = trie_wordsD(1,2) [OF L]
  obtain s rest where me: "match_existing a 0 (patrn p) = (s, rest)" by fastforce
  with match_existing_word [OF inv root(1)] root(2)
  obtain u where u: "patrn p = u @ rest" "u \<in> set L" "s = int (pos L u)"
    "rest = [] \<or> u @ [hd rest] \<notin> set L" by fastforce
  obtain b s' where ad: "add_states a s rest = (b, s')" by fastforce
  have "length L + length rest \<le> length (acsmStateTable a)" using room u(1) by simp
  from add_states_inv [OF inv u(2,4) this] ad u(1,3)
  obtain M where M: "trie_inv b (L @ M) P" "length M = length rest" "patrn p \<in> set (L @ M)"
    "s' = int (pos (L @ M) (patrn p))" "same_frame a b" "udata b = udata a"
    "set (L @ M) = set L \<union> {u @ v | v. prefix v rest}" by auto
  have "v \<in> set L" if "prefix v u" for v
    using that u(2) prefix_closed_append [OF trie_wordsD(4) [OF L]] by (auto simp: prefix_def)
  then have "set (L @ M) = set L \<union> {v. prefix v (patrn p)}"
    using M(7) u(1) by (auto simp: prefix_append)
  moreover have "trie_inv (AddPatternStates p a) (L @ M) (p # P)"
    using add_match_inv [OF M(1,3)] me ad M(4) by (simp add: AddPatternStates_def)
  ultimately show ?thesis using M u(1) me ad
    by (intro exI [of _ M]) (simp add: AddPatternStates_def AddMatchListEntry_def)
qed

lemma AddPatternStates_fold:
  assumes "trie_inv a L P"
    and "length L + sum_list (map (length \<circ> patrn) ps) \<le> length (acsmStateTable a)"
  shows "\<exists>M. trie_inv (fold AddPatternStates ps a) (L @ M) (rev ps @ P) \<and>
    same_frame a (fold AddPatternStates ps a) \<and> udata (fold AddPatternStates ps a) = udata a \<and>
    set (L @ M) = set L \<union> {u. \<exists>p\<in>set ps. prefix u (patrn p)}"
  using assms
proof (induction ps arbitrary: a L P)
  case Nil
  then show ?case by (intro exI [of _ "[]"]) simp
next
  case (Cons p ps)
  from AddPatternStates_inv [OF Cons.prems(1), of p] Cons.prems(2)
  obtain M where M: "trie_inv (AddPatternStates p a) (L @ M) (p # P)" "length M \<le> length (patrn p)"
    "same_frame a (AddPatternStates p a)" "udata (AddPatternStates p a) = udata a"
    "set (L @ M) = set L \<union> {u. prefix u (patrn p)}" by auto
  have "length (L @ M) + sum_list (map (length \<circ> patrn) ps) \<le>
      length (acsmStateTable (AddPatternStates p a))"
    using Cons.prems(2) M(2) by (simp add: conjunct1 [OF M(3) [unfolded same_frame_def]] o_def)
  from Cons.IH [OF M(1) this] obtain N where
    N: "trie_inv (fold AddPatternStates ps (AddPatternStates p a)) ((L @ M) @ N) (rev ps @ p # P)"
      "same_frame (AddPatternStates p a) (fold AddPatternStates ps (AddPatternStates p a))"
      "udata (fold AddPatternStates ps (AddPatternStates p a)) = udata (AddPatternStates p a)"
      "set ((L @ M) @ N) = set (L @ M) \<union> {u. \<exists>p\<in>set ps. prefix u (patrn p)}" by blast
  show ?case using N M same_frame_trans [OF M(3) N(2)]
    by (intro exI [of _ "M @ N"]) auto
qed

lemma trie_inv_init:
  "trie_inv (a\<lparr>acsmMaxStates := Suc n, acsmStateTable := replicate (Suc n) empty_state,
      acsmNumStates := 0\<rparr>) [[]] []"
  by (auto simp: trie_inv_def trie_words_def prefix_closed_def tr_def fun_eq_iff empty_state_def
      nth_Cons' simp del: replicate_Suc)

end
