(* ===== verification/Acsm_Automaton.thy ===== *)
theory Acsm_Automaton
  imports Acsm_Trie
begin

text \<open>
  The second and third phase of \<^verbatim>\<open>_acsmCompile\<close>. \<^verbatim>\<open>Build_NFA\<close> terminates and leaves in each
  state the failure link to the longest proper suffix and exactly the patterns that end there;
  \<^verbatim>\<open>Convert_NFA_To_DFA\<close> terminates and leaves the transition function of the deterministic
  automaton. Both rest on the traversal invariant of \<open>Keyword_Trie\<close>.
\<close>

definition tr0 :: "bytes list \<Rightarrow> bytes \<Rightarrow> u8 \<Rightarrow> int" where
  "tr0 L w c =
     (if w @ [c] \<in> set L then int (pos L (w @ [c])) else if w = [] then 0 else -1)"

definition ends_in :: "('t, 'n) acsm_pattern list \<Rightarrow> bytes \<Rightarrow> ('t, 'n) acsm_pattern multiset" where
  "ends_in P w = filter_mset (\<lambda>p. suffix (patrn p) w) (mset P)"

definition pattern_words :: "('t, 'n) acsm_pattern list \<Rightarrow> bytes list \<Rightarrow> bool" where
  "pattern_words P L \<longleftrightarrow> patrn ` set P \<subseteq> set L \<and> [] \<notin> patrn ` set P"

definition linked ::
  "('t, 'n) acsm_statetable \<Rightarrow> bytes list \<Rightarrow> ('t, 'n) acsm_pattern list \<Rightarrow> bytes \<Rightarrow> bool"
where
  "linked e L P w \<longleftrightarrow>
     FailState e = int (pos L (fail_word (set L) w)) \<and> mset (MatchList e) = ends_in P w"

text \<open>
  The reference count of a user data object is the number of match list entries that refer to it.
\<close>

definition entries :: "('t, 'n) acsm_statetable list \<Rightarrow> ('t, 'n) acsm_pattern list" where
  "entries t = concat (map MatchList t)"

definition refs :: "('t, 'n) acsm_statetable list \<Rightarrow> nat \<Rightarrow> nat" where
  "refs t h = length (filter (\<lambda>m. pat_udata m = h) (entries t))"

definition ref_ok :: "('i, 't, 'n) acsm_struct \<Rightarrow> bool" where
  "ref_ok a \<longleftrightarrow>
     (\<forall>m\<in>set (entries (acsmStateTable a)). pat_udata m < length (udata a)) \<and>
     (\<forall>h<length (udata a). ref_count (udata a ! h) = of_nat (refs (acsmStateTable a) h))"

definition table_frame ::
  "('i, 't, 'n) acsm_struct \<Rightarrow> bytes list \<Rightarrow> ('t, 'n) acsm_pattern list \<Rightarrow> bool"
where
  "table_frame a L P \<longleftrightarrow>
     trie_words L \<and> pattern_words P L \<and> length L \<le> length (acsmStateTable a) \<and>
     acsmNumStates a = int (length L) - 1 \<and>
     (\<forall>s. length L \<le> s \<and> s < length (acsmStateTable a) \<longrightarrow> acsmStateTable a ! s = empty_state)"

definition nfa_inv ::
  "('i, 't, 'n) acsm_struct \<Rightarrow> bytes list \<Rightarrow> ('t, 'n) acsm_pattern list \<Rightarrow> bytes set \<Rightarrow> bool"
where
  "nfa_inv a L P D \<longleftrightarrow>
     table_frame a L P \<and> ref_ok a \<and>
     (\<forall>w\<in>set L. NextState (acsmStateTable a ! pos L w) = tr0 L w) \<and>
     (\<forall>w\<in>D. linked (acsmStateTable a ! pos L w) L P w) \<and>
     (\<forall>w\<in>set L - D. MatchList (acsmStateTable a ! pos L w) = filter (\<lambda>p. patrn p = w) P)"

lemma table_frameD:
  assumes "table_frame a L P"
  shows "[] \<in> set L" "pos L [] = 0" "distinct L" "prefix_closed (set L)"
    "w \<in> set L \<Longrightarrow> pos L w < length (acsmStateTable a)"
  using assms trie_wordsD [of L] pos_less [of L w] by (auto simp: table_frame_def simp del: pos_less)

lemma table_frame_upd:
  assumes "table_frame a L P" and "w \<in> set L"
  shows "table_frame (upd_state (int (pos L w)) f a) L P"
proof -
  have "s \<noteq> pos L w" if "length L \<le> s" for s
    using that assms(2) pos_less [of L w] by (auto simp del: pos_less)
  then show ?thesis using assms by (auto simp: table_frame_def)
qed

section \<open>Failure links and match lists\<close>

lemma next_valid_word:
  assumes inv: "nfa_inv a L P D" and "v \<in> D" and "D \<subseteq> set L"
    and "\<forall>u\<in>set L. length u \<le> length v \<longrightarrow> u \<in> D"
  shows "next_valid a c (int (pos L v)) = Some (int (pos L (lsuf (set L) (v @ [c]))))"
  using assms(2,4)
proof (induction "length v" arbitrary: v rule: less_induct)
  case less
  have fr: "table_frame a L P" using inv by (simp add: nfa_inv_def)
  have v: "v \<in> set L" using less.prems assms(3) by auto
  have nx: "NextState (acsmStateTable a ! pos L v) = tr0 L v" using inv v by (simp add: nfa_inv_def)
  show ?case
  proof (cases "v @ [c] \<in> set L \<or> v = []")
    case True
    then show ?thesis using nx table_frameD(2) [OF fr]
      by (subst next_valid.simps) (auto simp: tr0_def)
  next
    case False
    let ?f = "fail_word (set L) v"
    have f: "?f \<in> set L" "length ?f < length v"
      using table_frameD(1) [OF fr] False by (simp_all add: length_fail_word)
    then have "?f \<in> D" using less.prems(2) by simp
    moreover have "FailState (acsmStateTable a ! pos L v) = int (pos L ?f)"
      using inv less.prems(1) by (simp add: nfa_inv_def linked_def)
    moreover have "next_valid a c (int (pos L ?f)) = Some (int (pos L (lsuf (set L) (?f @ [c]))))"
      using less.hyps [OF f(2) \<open>?f \<in> D\<close>] less.prems(2) f(2) by auto
    ultimately show ?thesis
      using nx False fail_step [OF table_frameD(4) [OF fr], of v c]
      by (subst next_valid.simps) (simp add: tr0_def)
  qed
qed

lemma copy_matches_table:
  "nat s < length (acsmStateTable a) \<Longrightarrow>
   acsmStateTable (copy_matches s ms a) =
     (acsmStateTable a)[nat s := (state_at a s)\<lparr>MatchList := rev ms @ MatchList (state_at a s)\<rparr>]"
  by (induction ms arbitrary: a) (auto simp: CopyMatchListEntry_def upd_state_def)

lemma copy_matches_ids:
  "map udata_id (udata (copy_matches s ms a)) = map udata_id (udata a)"
proof (induction ms arbitrary: a)
  case (Cons m ms)
  have "map udata_id (udata (snd (CopyMatchListEntry m a))) = map udata_id (udata a)"
    by (cases "pat_udata m < length (udata a)")
      (auto simp: CopyMatchListEntry_def map_update list_update_beyond list_update_same_conv)
  then show ?case by (simp add: Cons CopyMatchListEntry_def)
qed simp

lemma copy_matches_frame: "same_frame a (copy_matches s ms a)"
proof -
  have "length (acsmStateTable (copy_matches s ms a)) = length (acsmStateTable a) \<and>
    acsmMaxStates (copy_matches s ms a) = acsmMaxStates a \<and>
    acsmPatterns (copy_matches s ms a) = acsmPatterns a \<and>
    numPatterns (copy_matches s ms a) = numPatterns a \<and> agent (copy_matches s ms a) = agent a"
    by (induction ms arbitrary: a) (simp_all add: CopyMatchListEntry_def)
  then show ?thesis by (simp add: same_frame_def copy_matches_ids)
qed

lemma copy_matches_num [simp]: "acsmNumStates (copy_matches s ms a) = acsmNumStates a"
  by (induction ms arbitrary: a) (simp_all add: CopyMatchListEntry_def)

lemma length_copy_matches_udata [simp]:
  "length (udata (copy_matches s ms a)) = length (udata a)"
  by (induction ms arbitrary: a) (simp_all add: CopyMatchListEntry_def)

lemma length_filter_concat_update:
  "i < length xss \<Longrightarrow>
   length (filter P (concat (xss[i := ys @ xss ! i]))) =
   length (filter P (concat xss)) + length (filter P ys)"
  by (induction xss arbitrary: i) (auto simp: nth_Cons split: nat.splits)

lemma set_concat_update:
  "i < length xss \<Longrightarrow> set (concat (xss[i := ys @ xss ! i])) = set (concat xss) \<union> set ys"
  by (induction xss arbitrary: i) (auto simp: nth_Cons split: nat.splits)

lemma entries_prepend:
  assumes "i < length t" and "MatchList e = ys @ MatchList (t ! i)"
  shows "refs (t[i := e]) h = refs t h + length (filter (\<lambda>m. pat_udata m = h) ys)"
    and "set (entries (t[i := e])) = set (entries t) \<union> set ys"
  using length_filter_concat_update [of i "map MatchList t" "\<lambda>m. pat_udata m = h" ys]
    set_concat_update [of i "map MatchList t" ys] assms
  by (simp_all add: refs_def entries_def map_update)

lemma refs_upd_same:
  assumes "\<And>e. MatchList (f e) = MatchList e"
  shows "refs (acsmStateTable (upd_state s f a)) = refs (acsmStateTable a)"
    and "entries (acsmStateTable (upd_state s f a)) = entries (acsmStateTable a)"
proof -
  have "map MatchList (acsmStateTable (upd_state s f a)) = map MatchList (acsmStateTable a)"
    by (intro nth_equalityI) (simp_all add: assms)
  then show "refs (acsmStateTable (upd_state s f a)) = refs (acsmStateTable a)"
    and "entries (acsmStateTable (upd_state s f a)) = entries (acsmStateTable a)"
    by (simp_all add: refs_def entries_def fun_eq_iff)
qed

lemma ref_ok_upd_same:
  assumes "\<And>e. MatchList (f e) = MatchList e"
  shows "ref_ok (upd_state s f a) = ref_ok a"
  by (simp add: ref_ok_def refs_upd_same [OF assms])

lemma ref_ok_copy_one:
  assumes "ref_ok a" and "nat s < length (acsmStateTable a)" and "pat_udata m < length (udata a)"
  shows "ref_ok (upd_state s (\<lambda>e. e\<lparr>MatchList := m # MatchList e\<rparr>) (snd (CopyMatchListEntry m a)))"
proof -
  let ?b = "upd_state s (\<lambda>e. e\<lparr>MatchList := m # MatchList e\<rparr>) (snd (CopyMatchListEntry m a))"
  have tab: "acsmStateTable ?b = (acsmStateTable a)[nat s := (state_at a s)\<lparr>MatchList := [m] @ MatchList (state_at a s)\<rparr>]"
    by (simp add: upd_state_def CopyMatchListEntry_def)
  have "refs (acsmStateTable ?b) h = refs (acsmStateTable a) h + (if pat_udata m = h then 1 else 0)" for h
    unfolding tab by (subst entries_prepend(1) [OF assms(2), where ys = "[m]"]) simp_all
  moreover have "set (entries (acsmStateTable ?b)) = insert m (set (entries (acsmStateTable a)))"
    unfolding tab by (subst entries_prepend(2) [OF assms(2), where ys = "[m]"]) simp_all
  ultimately show ?thesis using assms(1,3)
    by (auto simp: ref_ok_def CopyMatchListEntry_def nth_list_update)
qed

lemma ref_ok_copy_matches:
  "ref_ok a \<Longrightarrow> nat s < length (acsmStateTable a) \<Longrightarrow> \<forall>m\<in>set ms. pat_udata m < length (udata a) \<Longrightarrow>
   ref_ok (copy_matches s ms a)"
proof (induction ms arbitrary: a)
  case Nil
  then show ?case by simp
next
  case (Cons m ms)
  let ?b = "upd_state s (\<lambda>e. e\<lparr>MatchList := m # MatchList e\<rparr>) (snd (CopyMatchListEntry m a))"
  have "ref_ok (copy_matches s ms ?b)"
    by (rule Cons.IH) (use Cons.prems ref_ok_copy_one [of a s m] in \<open>simp_all add: CopyMatchListEntry_def\<close>)
  then show ?case by (simp add: CopyMatchListEntry_def)
qed

lemma ends_in_child:
  assumes "pattern_words P L" and "w \<noteq> []"
  shows "ends_in P w = ends_in P (fail_word (set L) w) + mset (filter (\<lambda>p. patrn p = w) P)"
proof -
  have iff: "suffix (patrn p) w \<longleftrightarrow> patrn p = w \<or> suffix (patrn p) (fail_word (set L) w)"
    if "p \<in> set P" for p
    using suffix_fail_iff [of "patrn p" "set L" w] that assms by (auto simp: pattern_words_def)
  have "ends_in P w = filter_mset (\<lambda>p. patrn p = w \<or> suffix (patrn p) (fail_word (set L) w)) (mset P)"
    unfolding ends_in_def using iff by (auto intro: filter_mset_cong)
  also have "\<dots> = ends_in P (fail_word (set L) w) + filter_mset (\<lambda>p. patrn p = w) (mset P)"
    unfolding ends_in_def using fail_not_suffix [OF assms(2)]
    by (induction P) auto
  finally show ?thesis by simp
qed

definition nfa_child ::
  "('i, 't, 'n) acsm_struct \<Rightarrow> bytes list \<Rightarrow> bytes \<Rightarrow> ('i, 't, 'n) acsm_struct"
where
  "nfa_child a L x =
     (let s = int (pos L x); nx = int (pos L (fail_word (set L) x));
          a1 = upd_state s (\<lambda>e. e\<lparr>FailState := nx\<rparr>) a
      in copy_matches s (MatchList (state_at a1 nx)) a1)"

lemma nfa_child_inv:
  assumes inv: "nfa_inv a L P D" and D: "D \<subseteq> set L" and x: "x \<in> set L - D" "x \<noteq> []"
    and f: "fail_word (set L) x \<in> D"
  shows "nfa_inv (nfa_child a L x) L P (insert x D) \<and> same_frame a (nfa_child a L x)"
proof -
  let ?f = "fail_word (set L) x"
  let ?t = "acsmStateTable a"
  have fr: "table_frame a L P" using inv by (simp add: nfa_inv_def)
  have fx: "pos L ?f \<noteq> pos L x" using pos_inj [of ?f L x] f x D by auto
  have tab: "acsmStateTable (nfa_child a L x) = ?t[pos L x := (?t ! pos L x)\<lparr>
      FailState := int (pos L ?f),
      MatchList := rev (MatchList (?t ! pos L ?f)) @ MatchList (?t ! pos L x)\<rparr>]"
    using table_frameD(5) [OF fr, of x] x fx
    by (simp add: nfa_child_def Let_def copy_matches_table) (simp add: upd_state_def)
  have other: "acsmStateTable (nfa_child a L x) ! pos L w = ?t ! pos L w" if "w \<in> set L" "w \<noteq> x" for w
    using that pos_inj [of w L x] x by (simp add: tab)
  have self: "acsmStateTable (nfa_child a L x) ! pos L x = (?t ! pos L x)\<lparr>
      FailState := int (pos L ?f),
      MatchList := rev (MatchList (?t ! pos L ?f)) @ MatchList (?t ! pos L x)\<rparr>"
    using table_frameD(5) [OF fr, of x] x by (simp add: tab)
  have "mset (MatchList (?t ! pos L ?f)) = ends_in P ?f"
    using inv f by (simp add: nfa_inv_def linked_def)
  moreover have "MatchList (?t ! pos L x) = filter (\<lambda>p. patrn p = x) P"
    using inv x by (simp add: nfa_inv_def)
  ultimately have "linked (acsmStateTable (nfa_child a L x) ! pos L x) L P x"
    using ends_in_child [of P L x] fr x(2) by (simp add: linked_def self table_frame_def)
  moreover have "ref_ok (nfa_child a L x)"
  proof -
    have "pos L ?f < length ?t" using table_frameD(5) [OF fr] f D by auto
    then have "set (MatchList (?t ! pos L ?f)) \<subseteq> set (entries ?t)"
      by (auto simp: entries_def intro!: bexI [OF _ nth_mem])
    then have "\<forall>m\<in>set (MatchList (?t ! pos L ?f)). pat_udata m < length (udata a)"
      using inv by (auto simp: nfa_inv_def ref_ok_def)
    moreover have "ref_ok (upd_state (int (pos L x)) (\<lambda>e. e\<lparr>FailState := int (pos L ?f)\<rparr>) a)"
      using inv by (subst ref_ok_upd_same) (simp_all add: nfa_inv_def)
    ultimately show ?thesis
      unfolding nfa_child_def Let_def
      by (intro ref_ok_copy_matches) (use table_frameD(5) [OF fr, of x] x fx in simp_all)
  qed
  moreover have "table_frame (nfa_child a L x) L P"
  proof -
    have "pos L x \<noteq> s" if "length L \<le> s" for s
      using that x pos_less [of L x] by (auto simp del: pos_less)
    moreover have "acsmNumStates (nfa_child a L x) = acsmNumStates a"
      by (simp add: nfa_child_def Let_def)
    ultimately show ?thesis using fr by (simp add: table_frame_def tab)
  qed
  moreover have "NextState (acsmStateTable (nfa_child a L x) ! pos L w) = tr0 L w" if "w \<in> set L" for w
    using inv that other self by (cases "w = x") (auto simp: nfa_inv_def)
  moreover have "linked (acsmStateTable (nfa_child a L x) ! pos L w) L P w" if "w \<in> D" for w
  proof -
    from that D x have "w \<in> set L" "w \<noteq> x" by auto
    with inv that show ?thesis by (simp add: other nfa_inv_def)
  qed
  moreover have "MatchList (acsmStateTable (nfa_child a L x) ! pos L w) = filter (\<lambda>p. patrn p = w) P"
    if "w \<in> set L - insert x D" for w
    using inv other [of w] that by (simp add: nfa_inv_def)
  ultimately have "nfa_inv (nfa_child a L x) L P (insert x D)"
    by (simp add: nfa_inv_def)
  moreover have "same_frame a (nfa_child a L x)"
    unfolding nfa_child_def Let_def
    by (rule same_frame_trans [OF _ copy_matches_frame]) simp
  ultimately show ?thesis by simp
qed

lemma nfa_row_inv:
  assumes "nfa_inv a L P D" and "D \<subseteq> set L" and "w \<in> D" and "w \<noteq> []"
    and "\<forall>u\<in>set L. length u \<le> length w \<longrightarrow> u \<in> D"
    and "distinct cs" and "\<forall>c\<in>set cs. w @ [c] \<notin> D"
  shows "\<exists>b. nfa_row a (int (pos L w)) cs queue =
      Some (b, queue @ map (int \<circ> pos L) (kids (set L) w cs)) \<and>
    nfa_inv b L P (D \<union> set (kids (set L) w cs)) \<and> same_frame a b"
  using assms
proof (induction cs arbitrary: a D queue)
  case Nil
  then show ?case by simp
next
  case (Cons c cs)
  have fr: "table_frame a L P" and w: "w \<in> set L"
    and nx: "NextState (acsmStateTable a ! pos L w) = tr0 L w"
    and fs: "FailState (acsmStateTable a ! pos L w) = int (pos L (fail_word (set L) w))"
    using Cons.prems(1-3) by (auto simp: nfa_inv_def linked_def)
  show ?case
  proof (cases "w @ [c] \<in> set L")
    case False
    then show ?thesis using Cons.IH [OF Cons.prems(1-5)] Cons.prems(4,6,7) nx
      by (simp add: tr0_def)
  next
    case True
    let ?x = "w @ [c]" and ?f = "fail_word (set L) w"
    have fw: "?f \<in> set L" "length ?f < length w"
      using table_frameD(1) [OF fr] Cons.prems(4) by (simp_all add: length_fail_word)
    then have "next_valid a c (int (pos L ?f)) = Some (int (pos L (fail_word (set L) ?x)))"
      using next_valid_word [OF Cons.prems(1) _ Cons.prems(2), of ?f c] Cons.prems(5)
        fail_child [OF table_frameD(4) [OF fr] Cons.prems(4), of c] by auto
    moreover have fx: "fail_word (set L) ?x \<in> D"
      using Cons.prems(5) table_frameD(1) [OF fr] length_fail_word [of ?x "set L"] by simp
    ultimately have row: "nfa_row a (int (pos L w)) (c # cs) queue =
        nfa_row (nfa_child a L ?x) (int (pos L w)) cs (queue @ [int (pos L ?x)])"
      using nx fs True by (simp add: tr0_def nfa_child_def Let_def)
    from nfa_child_inv [OF Cons.prems(1,2) _ _ fx] True Cons.prems(7)
    have ch: "nfa_inv (nfa_child a L ?x) L P (insert ?x D)" "same_frame a (nfa_child a L ?x)" by auto
    have "\<exists>b. nfa_row (nfa_child a L ?x) (int (pos L w)) cs (queue @ [int (pos L ?x)]) =
        Some (b, (queue @ [int (pos L ?x)]) @ map (int \<circ> pos L) (kids (set L) w cs)) \<and>
      nfa_inv b L P (insert ?x D \<union> set (kids (set L) w cs)) \<and> same_frame (nfa_child a L ?x) b"
      by (rule Cons.IH [OF ch(1)]) (use Cons.prems True in auto)
    then show ?thesis using row True same_frame_trans [OF ch(2)] by auto
  qed
qed

lemma nfa_loop_inv:
  assumes "nfa_inv a L P D" and "bfs_inv (set L) D qs"
  shows "\<exists>b. nfa_loop a (map (int \<circ> pos L) qs) = Some b \<and> nfa_inv b L P (set L) \<and> same_frame a b"
  using assms
proof (induction "card (set L - D) + length qs" arbitrary: a D qs rule: less_induct)
  case less
  have fr: "table_frame a L P" using less.prems(1) by (simp add: nfa_inv_def)
  show ?case
  proof (cases qs)
    case Nil
    then show ?thesis using less.prems bfs_inv_done by (subst nfa_loop.simps) auto
  next
    case (Cons w rest)
    let ?K = "kids (set L) w alphabet"
    have bfs: "bfs_inv (set L) D (w # rest)" using less.prems Cons by simp
    then have D: "D \<subseteq> set L" "w \<in> D" "w \<noteq> []" "\<forall>c. w @ [c] \<notin> D" by (auto simp: bfs_inv_def)
    have short: "\<forall>u\<in>set L. length u \<le> length w \<longrightarrow> u \<in> D"
      using bfs_inv_short [OF bfs] by blast
    from nfa_row_inv [OF less.prems(1) D(1-3) short distinct_alphabet, of "map (int \<circ> pos L) rest"] D(4)
    obtain b where b: "nfa_row a (int (pos L w)) alphabet (map (int \<circ> pos L) rest) =
        Some (b, map (int \<circ> pos L) (rest @ ?K))"
      "nfa_inv b L P (D \<union> set ?K)" "same_frame a b" by auto
    have "card (set L - (D \<union> set ?K)) + length (rest @ ?K) < card (set L - D) + length qs"
      using bfs_measure [OF bfs] Cons by simp
    from less.hyps [OF this b(2)] bfs_inv_step [OF bfs table_frameD(4) [OF fr]]
    obtain d where "nfa_loop b (map (int \<circ> pos L) (rest @ ?K)) = Some d"
      "nfa_inv d L P (set L)" "same_frame b d" by auto
    then show ?thesis using b same_frame_trans [OF b(3)] Cons
      by (subst nfa_loop.simps) auto
  qed
qed


lemma nfa_roots_table:
  assumes "\<forall>s<length (acsmStateTable a). FailState (acsmStateTable a ! s) = 0"
  shows "nfa_roots a cs queue = (a, queue @ filter (\<lambda>s. s \<noteq> 0) (map (NextState (state_at a 0)) cs))"
proof -
  have "upd_state s (\<lambda>e. e\<lparr>FailState := 0\<rparr>) a = a" for s
  proof (cases "nat s < length (acsmStateTable a)")
    case True
    with assms have "(state_at a s)\<lparr>FailState := 0\<rparr> = state_at a s" by simp
    then show ?thesis by (simp add: upd_state_def)
  qed (simp add: upd_state_def list_update_beyond)
  then show ?thesis by (induction cs arbitrary: queue) auto
qed

lemma root_children:
  assumes "trie_words L"
  shows "filter (\<lambda>s. s \<noteq> 0) (map (tr0 L []) cs) = map (int \<circ> pos L) (kids (set L) [] cs)"
proof -
  have "pos L [c] \<noteq> 0" if "[c] \<in> set L" for c
    using that pos_inj [of "[c]" L "[]"] trie_wordsD(1,2) [OF assms] by simp
  then show ?thesis by (induction cs) (auto simp: tr0_def)
qed

lemma root_default_inv:
  assumes "trie_inv a L P" and "[] \<notin> patrn ` set P" and "ref_ok a"
  shows "nfa_inv (upd_state 0 root_default a) L P (insert [] (set (kids (set L) [] alphabet)))"
proof -
  let ?b = "upd_state 0 root_default a"
  from assms have L: "trie_words L" and len: "length L \<le> length (acsmStateTable a)"
    and P: "pattern_words P L" by (simp_all add: trie_inv_def pattern_words_def)
  note root = trie_wordsD [OF L]
  have ne: "0 < length (acsmStateTable a)" using root(5) len by linarith
  have old: "NextState (acsmStateTable a ! pos L w) = tr L w \<and> FailState (acsmStateTable a ! pos L w) = 0 \<and>
      MatchList (acsmStateTable a ! pos L w) = filter (\<lambda>p. patrn p = w) P" if "w \<in> set L" for w
    using assms(1) that by (simp add: trie_inv_def)
  have new: "NextState (acsmStateTable ?b ! pos L w) = tr0 L w \<and> FailState (acsmStateTable ?b ! pos L w) = 0 \<and>
      MatchList (acsmStateTable ?b ! pos L w) = filter (\<lambda>p. patrn p = w) P" if "w \<in> set L" for w
  proof (cases "w = []")
    case True
    with old [OF that] root(2) ne show ?thesis
      by (auto simp: root_default_def tr_def tr0_def fun_eq_iff)
  next
    case False
    then have "pos L w \<noteq> 0" using that pos_inj [of w L "[]"] root(1,2) by simp
    with old [OF that] False show ?thesis by (auto simp: tr_def tr0_def fun_eq_iff)
  qed
  have one: "filter_mset (\<lambda>p. suffix (patrn p) w) (mset P) = mset (filter (\<lambda>p. patrn p = w) P)"
    if "w = [] \<or> w \<in> set (kids (set L) [] alphabet)" for w
  proof -
    have "\<forall>p\<in>set P. patrn p \<noteq> []" using assms(2) by force
    then show ?thesis
      using that by (auto simp: set_kids suffix_Cons intro!: filter_mset_cong)
  qed
  have fw: "fail_word (set L) w = []" if "w = [] \<or> w \<in> set (kids (set L) [] alphabet)" for w
    using that by (auto simp: set_kids fail_word_def)
  have tf: "table_frame ?b L P"
    using table_frame_upd [of a L P "[]"] root P assms(1)
    by (simp add: table_frame_def trie_inv_def)
  have "linked (acsmStateTable ?b ! pos L w) L P w"
    if "w \<in> insert [] (set (kids (set L) [] alphabet))" for w
  proof -
    from that root(1) have "w \<in> set L" by (auto simp: set_kids)
    then show ?thesis using new [of w] one [of w] fw [of w] that root(2)
      by (simp add: linked_def ends_in_def del: upd_state_at)
  qed
  moreover have "ref_ok ?b" using assms(3) by (subst ref_ok_upd_same) (simp_all add: root_default_def)
  ultimately show ?thesis using new tf by (simp add: nfa_inv_def del: upd_state_at)
qed

lemma Build_NFA_correct:
  assumes "trie_inv a L P" and "[] \<notin> patrn ` set P" and "ref_ok a"
  shows "\<exists>b. Build_NFA (upd_state 0 root_default a) = Some b \<and> nfa_inv b L P (set L) \<and> same_frame a b"
proof -
  let ?a = "upd_state 0 root_default a"
  note inv = root_default_inv [OF assms]
  from assms have L: "trie_words L" by (simp add: trie_inv_def)
  have "FailState (acsmStateTable ?a ! s) = 0" if "s < length (acsmStateTable ?a)" for s
    using assms(1) that
    by (cases "s < length L") (auto simp: trie_inv_def root_default_def empty_state_def)
  then have "nfa_roots ?a alphabet [] = (?a, map (int \<circ> pos L) (kids (set L) [] alphabet))"
    using nfa_roots_table [of ?a alphabet "[]"] inv root_children [OF L] trie_wordsD(1,2) [OF L]
    by (auto simp: nfa_inv_def simp del: upd_state_at upd_state_simps)
  moreover have "bfs_inv (set L) (insert [] (set (kids (set L) [] alphabet))) (kids (set L) [] alphabet)"
    by (rule bfs_inv_start [OF trie_wordsD(4,1) [OF L]])
  moreover have "same_frame a b" if "same_frame ?a b" for b
    using that by (simp add: same_frame_def)
  ultimately show ?thesis using nfa_loop_inv [OF inv] by (fastforce simp: Build_NFA_def)
qed

section \<open>The deterministic automaton\<close>

definition delta :: "bytes list \<Rightarrow> bytes \<Rightarrow> u8 \<Rightarrow> int" where
  "delta L w c = int (pos L (lsuf (set L) (w @ [c])))"

definition dfa_inv ::
  "('i, 't, 'n) acsm_struct \<Rightarrow> bytes list \<Rightarrow> ('t, 'n) acsm_pattern list \<Rightarrow> bytes set \<Rightarrow> bool"
where
  "dfa_inv a L P Q \<longleftrightarrow>
     table_frame a L P \<and> ref_ok a \<and>
     (\<forall>w\<in>set L. linked (acsmStateTable a ! pos L w) L P w) \<and>
     (\<forall>w\<in>set L. NextState (acsmStateTable a ! pos L w) = (if w \<in> Q then delta L w else tr0 L w))"

definition dfa_fill ::
  "('i, 't, 'n) acsm_struct \<Rightarrow> u8 list \<Rightarrow> int \<Rightarrow> ('t, 'n) acsm_statetable \<Rightarrow> ('t, 'n) acsm_statetable"
where
  "dfa_fill a cs f e =
     e\<lparr>NextState := (\<lambda>c. if c \<in> set cs \<and> NextState e c = -1 then NextState (state_at a f) c
        else NextState e c)\<rparr>"

lemma dfa_fill_cong:
  assumes "\<And>x. NextState e x = -1 \<Longrightarrow> x \<in> set cs \<longleftrightarrow> x \<in> set ds"
  shows "dfa_fill a cs f e = dfa_fill a ds f e"
proof -
  have "(\<lambda>c. if c \<in> set cs \<and> NextState e c = -1 then NextState (state_at a f) c else NextState e c) =
      (\<lambda>c. if c \<in> set ds \<and> NextState e c = -1 then NextState (state_at a f) c else NextState e c)"
    using assms by (metis (no_types))
  then show ?thesis by (simp only: dfa_fill_def)
qed

lemma dfa_fill_step:
  assumes "state_at b f = state_at a f" and "c \<notin> set cs" and "NextState e c = -1"
  shows "dfa_fill b cs f (e\<lparr>NextState := (NextState e)(c := NextState (state_at a f) c)\<rparr>) =
    dfa_fill a (c # cs) f e"
proof -
  let ?e = "e\<lparr>NextState := (NextState e)(c := NextState (state_at a f) c)\<rparr>"
  have "(\<lambda>x. if x \<in> set cs \<and> NextState ?e x = -1 then NextState (state_at b f) x else NextState ?e x) =
      (\<lambda>x. if x \<in> set (c # cs) \<and> NextState e x = -1 then NextState (state_at a f) x else NextState e x)"
    using assms by (auto simp: fun_eq_iff)
  then show ?thesis by (simp add: dfa_fill_def)
qed

lemma dfa_row_eq:
  assumes "nat r < length (acsmStateTable a)" and "nat (FailState (state_at a r)) \<noteq> nat r"
    and "distinct cs"
  shows "dfa_row a r cs queue =
    (upd_state r (dfa_fill a cs (FailState (state_at a r))) a,
     queue @ filter (\<lambda>s. s \<noteq> -1) (map (NextState (state_at a r)) cs))"
  using assms
proof (induction cs arbitrary: a queue)
  case Nil
  have "dfa_fill a [] f e = e" for f e by (simp add: dfa_fill_def)
  then show ?case by (simp add: upd_state_def)
next
  case (Cons c cs)
  let ?f = "FailState (state_at a r)"
  show ?case
  proof (cases "NextState (state_at a r) c = -1")
    case False
    then have "dfa_fill a (c # cs) ?f (state_at a r) = dfa_fill a cs ?f (state_at a r)"
      by (intro dfa_fill_cong) auto
    then show ?thesis using Cons False by (simp add: upd_state_def)
  next
    case True
    let ?b = "upd_state r (\<lambda>e. e\<lparr>NextState := (NextState e)(c := NextState (state_at a ?f) c)\<rparr>) a"
    have b: "state_at ?b r = (state_at a r)\<lparr>NextState := (NextState (state_at a r))
        (c := NextState (state_at a ?f) c)\<rparr>" "state_at ?b ?f = state_at a ?f"
      using Cons.prems by simp_all
    have "dfa_row ?b r cs queue = (upd_state r (dfa_fill ?b cs (FailState (state_at ?b r))) ?b,
        queue @ filter (\<lambda>s. s \<noteq> -1) (map (NextState (state_at ?b r)) cs))"
      by (rule Cons.IH) (use Cons.prems in simp_all)
    moreover have "FailState (state_at ?b r) = ?f" by (simp add: b)
    moreover have "upd_state r (dfa_fill ?b cs ?f) ?b = upd_state r (dfa_fill a (c # cs) ?f) a"
      using dfa_fill_step [of ?b ?f a c cs "state_at a r"] Cons.prems True b
      by (simp add: upd_state_def)
    moreover have "map (NextState (state_at ?b r)) cs = map (NextState (state_at a r)) cs"
      using b Cons.prems(3) by auto
    ultimately have "dfa_row ?b r cs queue = (upd_state r (dfa_fill a (c # cs) ?f) a,
        queue @ filter (\<lambda>s. s \<noteq> -1) (map (NextState (state_at a r)) cs))"
      by (simp only:)
    then show ?thesis using True by simp
  qed
qed

lemma dfa_row_inv:
  assumes inv: "dfa_inv a L P Q" and w: "w \<in> set L" "w \<noteq> []" "w \<notin> Q"
    and f: "fail_word (set L) w \<in> Q"
  shows "\<exists>b. dfa_row a (int (pos L w)) alphabet queue =
      (b, queue @ map (int \<circ> pos L) (kids (set L) w alphabet)) \<and>
    dfa_inv b L P (insert w Q) \<and> same_frame a b \<and> udata b = udata a"
proof -
  let ?f = "fail_word (set L) w" and ?t = "acsmStateTable a"
  have fr: "table_frame a L P" using inv by (simp add: dfa_inv_def)
  note root = table_frameD [OF fr]
  have fl: "?f \<in> set L" using root(1) by simp
  have fs: "FailState (?t ! pos L w) = int (pos L ?f)"
    using inv w by (simp add: dfa_inv_def linked_def)
  have ne: "pos L ?f \<noteq> pos L w" using pos_inj [OF fl w(1)] f w(3) by auto
  let ?b = "upd_state (int (pos L w)) (dfa_fill a alphabet (int (pos L ?f))) a"
  have nx: "NextState (?t ! pos L w) = tr0 L w" "NextState (?t ! pos L ?f) = delta L ?f"
    using inv w f fl by (simp_all add: dfa_inv_def)
  have "filter (\<lambda>s. s \<noteq> -1) (map (tr0 L w) cs) = map (int \<circ> pos L) (kids (set L) w cs)" for cs
    using w(2) by (induction cs) (auto simp: tr0_def)
  then have row: "dfa_row a (int (pos L w)) alphabet queue =
      (?b, queue @ map (int \<circ> pos L) (kids (set L) w alphabet))"
    using dfa_row_eq [of "int (pos L w)" a alphabet queue] root(5) [OF w(1)] fs ne nx by simp
  have "delta L w c = (if tr0 L w c = -1 then delta L ?f c else tr0 L w c)" for c
    using fail_step [OF root(4), of w c] w(2) by (auto simp: delta_def tr0_def)
  then have self: "NextState (acsmStateTable ?b ! pos L w) = delta L w"
    using nx root(5) [OF w(1)] by (auto simp: dfa_fill_def fun_eq_iff)
  have "ref_ok ?b" using inv by (subst ref_ok_upd_same) (simp_all add: dfa_inv_def dfa_fill_def)
  then have "dfa_inv ?b L P (insert w Q)"
    using inv self table_frame_upd [OF fr w(1)] pos_inj [OF _ w(1)] root(5)
    by (auto simp: dfa_inv_def linked_def dfa_fill_def)
  then show ?thesis using row by (auto simp: same_frame_def)
qed

lemma dfa_loop_inv:
  assumes "dfa_inv a L P (D - set qs)" and "bfs_inv (set L) D qs"
  shows "\<exists>b. dfa_loop a (map (int \<circ> pos L) qs) = Some b \<and> dfa_inv b L P (set L) \<and>
    same_frame a b \<and> udata b = udata a"
  using assms
proof (induction "card (set L - D) + length qs" arbitrary: a D qs rule: less_induct)
  case less
  have fr: "table_frame a L P" using less.prems(1) by (simp add: dfa_inv_def)
  show ?case
  proof (cases qs)
    case Nil
    then show ?thesis using less.prems bfs_inv_done by (subst dfa_loop.simps) auto
  next
    case (Cons w rest)
    let ?K = "kids (set L) w alphabet" and ?f = "fail_word (set L) w"
    have bfs: "bfs_inv (set L) D (w # rest)" using less.prems Cons by simp
    then have w: "w \<in> set L" "w \<noteq> []" "w \<in> D" "w \<notin> set rest" "\<forall>c. w @ [c] \<notin> D" "set rest \<subseteq> D"
      and long: "\<forall>v\<in>set rest. length w \<le> length v"
      by (auto simp: bfs_inv_def)
    have short: "length ?f < length w" using w(2) by (simp add: length_fail_word)
    then have "?f \<in> D" using bfs_inv_short [OF bfs, of ?f] table_frameD(1) [OF fr] by simp
    with short long have "?f \<in> D - set qs" using Cons by auto
    with dfa_row_inv [OF less.prems(1) w(1,2)] Cons
    obtain b where b: "dfa_row a (int (pos L w)) alphabet (map (int \<circ> pos L) rest) =
        (b, map (int \<circ> pos L) (rest @ ?K))"
      "dfa_inv b L P (insert w (D - set qs))" "same_frame a b" "udata b = udata a" by auto
    have "insert w (D - set qs) = (D \<union> set ?K) - set (rest @ ?K)"
      using Cons w by (auto simp: set_kids)
    with b(2) have inv: "dfa_inv b L P ((D \<union> set ?K) - set (rest @ ?K))" by simp
    have "card (set L - (D \<union> set ?K)) + length (rest @ ?K) < card (set L - D) + length qs"
      using bfs_measure [OF bfs] Cons by simp
    from less.hyps [OF this inv] bfs_inv_step [OF bfs table_frameD(4) [OF fr]]
    obtain d where "dfa_loop b (map (int \<circ> pos L) (rest @ ?K)) = Some d"
      "dfa_inv d L P (set L)" "same_frame b d" "udata d = udata b" by auto
    then show ?thesis using b same_frame_trans [OF b(3)] Cons
      by (subst dfa_loop.simps) auto
  qed
qed

lemma Convert_NFA_To_DFA_correct:
  assumes inv: "nfa_inv a L P (set L)"
  shows "\<exists>b. Convert_NFA_To_DFA a = Some b \<and> dfa_inv b L P (set L) \<and> same_frame a b \<and>
    udata b = udata a"
proof -
  let ?K = "kids (set L) [] alphabet"
  have fr: "table_frame a L P" using inv by (simp add: nfa_inv_def)
  note root = table_frameD [OF fr]
  have L: "trie_words L" using fr by (simp add: table_frame_def)
  have K: "insert [] (set ?K) - set ?K = {[]}" by (auto simp: set_kids)
  have "tr0 L [] = delta L []" using root(2) by (auto simp: tr0_def delta_def fun_eq_iff)
  then have "dfa_inv a L P (insert [] (set ?K) - set ?K)"
    using inv unfolding K by (auto simp: nfa_inv_def dfa_inv_def)
  from dfa_loop_inv [OF this bfs_inv_start [OF root(4,1)]]
  moreover have "NextState (acsmStateTable a ! 0) = tr0 L []"
    using inv root(1,2) by (force simp: nfa_inv_def)
  ultimately show ?thesis using root_children [OF L] by (simp add: Convert_NFA_To_DFA_def)
qed

end
