(* ===== verification/Acsm_Search.thy ===== *)
theory Acsm_Search
  imports Acsm_Automaton
begin

text \<open>
  Correctness of the compiled machine as its users see it: patterns are added with
  \<^verbatim>\<open>acsmAddPattern\<close>, compiled, searched for and released. The reference is naive: a position of the
  text matches when some folded pattern is a suffix of the folded text up to there.
\<close>

section \<open>A machine built from a list of patterns\<close>

text \<open>A user pattern: bytes, \<^verbatim>\<open>nocase\<close>, \<^verbatim>\<open>negative\<close> and the \<^verbatim>\<open>void*\<close> identifier.\<close>

type_synonym 'i user_pattern = "bytes \<times> bool \<times> bool \<times> 'i option"

definition acsm_of ::
  "('i, 't, 'n) acsm_agent option \<Rightarrow> 'i user_pattern list \<Rightarrow> ('i, 't, 'n) acsm_struct"
where
  "acsm_of ag ups = fold (\<lambda>(p, nc, ng, i) a. acsmAddPattern a p nc ng i) ups (acsmNew ag)"

definition pattern_of :: "nat \<Rightarrow> 'i user_pattern \<Rightarrow> ('t, 'n) acsm_pattern" where
  "pattern_of k u =
     \<lparr>pat_udata = k, patrn = ConvertCaseEx (fst u), casepatrn = fst u, rule_option_tree = None,
      neg_list = None, nocase = fst (snd u), negative = fst (snd (snd u))\<rparr>"

definition patterns_of :: "'i user_pattern list \<Rightarrow> ('t, 'n) acsm_pattern list" where
  "patterns_of ups = map (\<lambda>k. pattern_of k (ups ! k)) [0..<length ups]"

lemma patterns_of_snoc: "patterns_of (ups @ [u]) = patterns_of ups @ [pattern_of (length ups) u]"
  by (simp add: patterns_of_def nth_append)

lemma acsm_of_fields:
  "acsmPatterns (acsm_of ag ups) = rev (patterns_of ups)"
  "udata (acsm_of ag ups) = map (\<lambda>u. \<lparr>udata_id = snd (snd (snd u)), ref_count = 1\<rparr>) ups"
  "agent (acsm_of ag ups) = ag"
  "numPatterns (acsm_of ag ups) = int (length ups)"
proof -
  have "acsmPatterns (acsm_of ag ups) = rev (patterns_of ups) \<and>
    udata (acsm_of ag ups) = map (\<lambda>u. \<lparr>udata_id = snd (snd (snd u)), ref_count = 1\<rparr>) ups \<and>
    agent (acsm_of ag ups) = ag \<and> numPatterns (acsm_of ag ups) = int (length ups)"
  proof (induction ups rule: rev_induct)
    case Nil
    then show ?case by (simp add: acsm_of_def acsmNew_def patterns_of_def)
  next
    case (snoc u ups)
    have "acsm_of ag (ups @ [u]) =
        acsmAddPattern (acsm_of ag ups) (fst u) (fst (snd u)) (fst (snd (snd u))) (snd (snd (snd u)))"
      by (simp add: acsm_of_def split_beta)
    with snoc show ?case
      by (simp add: acsmAddPattern_def patterns_of_snoc pattern_of_def Let_def)
  qed
  then show "acsmPatterns (acsm_of ag ups) = rev (patterns_of ups)"
    "udata (acsm_of ag ups) = map (\<lambda>u. \<lparr>udata_id = snd (snd (snd u)), ref_count = 1\<rparr>) ups"
    "agent (acsm_of ag ups) = ag" "numPatterns (acsm_of ag ups) = int (length ups)" by simp_all
qed

section \<open>Reference counts during the trie phase\<close>

lemma add_states_refs:
  "entries (acsmStateTable (fst (add_states a s cs))) = entries (acsmStateTable a)"
  by (induction cs arbitrary: a s) (simp_all add: Let_def refs_upd_same)

lemma AddPatternStates_refs:
  assumes "trie_inv a L P" and "length L + length (patrn p) \<le> length (acsmStateTable a)"
  shows "refs (acsmStateTable (AddPatternStates p a)) h =
      refs (acsmStateTable a) h + (if pat_udata p = h then 1 else 0)"
    and "set (entries (acsmStateTable (AddPatternStates p a))) = insert p (set (entries (acsmStateTable a)))"
proof -
  from assms(1) have L: "trie_words L" by (simp add: trie_inv_def)
  obtain s rest where me: "match_existing a 0 (patrn p) = (s, rest)" by fastforce
  with match_existing_word [OF assms(1) trie_wordsD(1) [OF L]] trie_wordsD(2) [OF L]
  obtain u where u: "patrn p = u @ rest" "u \<in> set L" "s = int (pos L u)"
    "rest = [] \<or> u @ [hd rest] \<notin> set L" by fastforce
  obtain b s' where ad: "add_states a s rest = (b, s')" by fastforce
  have "length L + length rest \<le> length (acsmStateTable a)" using assms(2) u(1) by simp
  from add_states_inv [OF assms(1) u(2,4) this] ad u(1,3)
  obtain M where M: "trie_inv b (L @ M) P" "patrn p \<in> set (L @ M)"
    "s' = int (pos (L @ M) (patrn p))" by auto
  have lt: "nat s' < length (acsmStateTable b)"
    using M pos_less [of "L @ M" "patrn p"] by (auto simp: trie_inv_def simp del: pos_less)
  have b: "entries (acsmStateTable b) = entries (acsmStateTable a)"
    using add_states_refs [of a s rest] ad by simp
  have tab: "acsmStateTable (AddPatternStates p a) =
      (acsmStateTable b)[nat s' := (state_at b s')\<lparr>MatchList := [p] @ MatchList (state_at b s')\<rparr>]"
    using me ad by (simp add: AddPatternStates_def AddMatchListEntry_def upd_state_def)
  show "refs (acsmStateTable (AddPatternStates p a)) h =
      refs (acsmStateTable a) h + (if pat_udata p = h then 1 else 0)"
    unfolding tab by (subst entries_prepend(1) [OF lt, where ys = "[p]"]) (simp_all add: refs_def b)
  show "set (entries (acsmStateTable (AddPatternStates p a))) = insert p (set (entries (acsmStateTable a)))"
    unfolding tab by (subst entries_prepend(2) [OF lt, where ys = "[p]"]) (simp_all add: b)
qed

lemma AddPatternStates_fold_refs:
  assumes "trie_inv a L P"
    and "length L + sum_list (map (length \<circ> patrn) ps) \<le> length (acsmStateTable a)"
  shows "(\<forall>h. refs (acsmStateTable (fold AddPatternStates ps a)) h =
      refs (acsmStateTable a) h + length (filter (\<lambda>p. pat_udata p = h) ps)) \<and>
    set (entries (acsmStateTable (fold AddPatternStates ps a))) = set ps \<union> set (entries (acsmStateTable a))"
  using assms
proof (induction ps arbitrary: a L P)
  case Nil
  then show ?case by simp
next
  case (Cons p ps)
  have room: "length L + length (patrn p) \<le> length (acsmStateTable a)" using Cons.prems(2) by simp
  from AddPatternStates_inv [OF Cons.prems(1) room]
  obtain M where M: "trie_inv (AddPatternStates p a) (L @ M) (p # P)" "length M \<le> length (patrn p)"
    "same_frame a (AddPatternStates p a)" by auto
  have "length (L @ M) + sum_list (map (length \<circ> patrn) ps) \<le>
      length (acsmStateTable (AddPatternStates p a))"
    using Cons.prems(2) M(2) by (simp add: conjunct1 [OF M(3) [unfolded same_frame_def]] o_def)
  from Cons.IH [OF M(1) this] AddPatternStates_refs [OF Cons.prems(1) room]
  show ?case by auto
qed

section \<open>The compiled automaton\<close>

lemma ConvertCaseEx_Nil_iff [simp]: "ConvertCaseEx s = [] \<longleftrightarrow> s = []"
  by (simp add: ConvertCaseEx_def)

lemma patterns_of_nonempty:
  "\<forall>u\<in>set ups. fst u \<noteq> [] \<Longrightarrow> [] \<notin> patrn ` set (patterns_of ups)"
  by (auto simp: patterns_of_def pattern_of_def dest!: sym [of "[]"])

lemma compile_automaton:
  assumes "\<forall>u\<in>set ups. fst u \<noteq> []"
  shows "\<exists>b L. acsmCompile_automaton (acsm_of ag ups :: ('i, 't, 'n) acsm_struct) = Some b \<and>
    dfa_inv b L (patterns_of ups) (set L) \<and> agent b = ag \<and> acsmMaxStates b = length (acsmStateTable b) \<and>
    acsmMaxStates b = Suc (sum_list (map (length \<circ> fst) ups)) \<and>
    map udata_id (udata b) = map (\<lambda>u. snd (snd (snd u))) ups"
proof -
  let ?a = "acsm_of ag ups :: ('i, 't, 'n) acsm_struct"
  let ?ps = "acsmPatterns ?a"
  let ?n = "Suc (sum_list (map (length \<circ> patrn) ?ps))"
  let ?a1 = "?a\<lparr>acsmMaxStates := ?n, acsmStateTable := replicate ?n empty_state, acsmNumStates := 0\<rparr>"
  let ?a2 = "fold AddPatternStates ?ps ?a1"
  have init: "trie_inv ?a1 [[]] []" by (rule trie_inv_init)
  have room: "length [[] :: bytes] + sum_list (map (length \<circ> patrn) ?ps) \<le> length (acsmStateTable ?a1)"
    by simp
  from AddPatternStates_fold [OF init room] obtain M where
    M: "trie_inv ?a2 ([[]] @ M) (rev ?ps @ [])" "same_frame ?a1 ?a2" "udata ?a2 = udata ?a1" by blast
  have P: "rev ?ps @ [] = patterns_of ups" by (simp add: acsm_of_fields)
  have "refs (acsmStateTable ?a2) h = (if h < length ups then 1 else 0) \<and>
      set (entries (acsmStateTable ?a2)) = set ?ps" for h
  proof -
    have "entries (acsmStateTable ?a1) = []" by (simp add: entries_def empty_state_def)
    moreover have "length (filter (\<lambda>p. pat_udata p = h) ?ps) = (if h < length ups then 1 else 0)"
    proof -
      have "length (filter (\<lambda>p. pat_udata p = h) ?ps) = length (filter (\<lambda>k. k = h) [0..<length ups])"
        by (simp add: acsm_of_fields rev_filter [symmetric] patterns_of_def filter_map o_def pattern_of_def)
      also have "\<dots> = (if h < length ups then 1 else 0)"
        by (induction ups rule: rev_induct) auto
      finally show ?thesis .
    qed
    ultimately show ?thesis using AddPatternStates_fold_refs [OF init room] by (simp add: refs_def)
  qed
  moreover have "\<forall>p\<in>set ?ps. pat_udata p < length ups"
    by (simp add: acsm_of_fields patterns_of_def pattern_of_def)
  ultimately have ok: "ref_ok ?a2" using M(3) by (simp add: ref_ok_def acsm_of_fields)
  from Build_NFA_correct [OF M(1) [unfolded P] patterns_of_nonempty [OF assms] ok]
  obtain b1 where b1: "Build_NFA (upd_state 0 root_default ?a2) = Some b1"
    "nfa_inv b1 ([[]] @ M) (patterns_of ups) (set ([[]] @ M))" "same_frame ?a2 b1" by blast
  from Convert_NFA_To_DFA_correct [OF b1(2)]
  obtain b where b: "Convert_NFA_To_DFA b1 = Some b"
    "dfa_inv b ([[]] @ M) (patterns_of ups) (set ([[]] @ M))" "same_frame b1 b" by auto
  have "same_frame ?a1 b" using same_frame_trans [OF M(2) same_frame_trans [OF b1(3) b(3)]] .
  moreover have "map (length \<circ> patrn) (patterns_of ups :: ('t, 'n) acsm_pattern list) = map (length \<circ> fst) ups"
    by (rule nth_equalityI) (simp_all add: patterns_of_def pattern_of_def ConvertCaseEx_def)
  then have "sum_list (map (length \<circ> patrn) ?ps) = sum_list (map (length \<circ> fst) ups)"
    by (simp only: acsm_of_fields rev_map [symmetric] sum_list_rev)
  moreover have "acsmCompile_automaton ?a = Some b"
    using b1(1) b(1) by (simp add: acsmCompile_automaton_def Let_def)
  ultimately show ?thesis using b(2)
    by (intro exI [of _ b] exI [of _ "[[]] @ M"])
      (auto simp: same_frame_def acsm_of_fields o_def)
qed

text \<open>
  What a search needs of a machine: transitions of the automaton and, per state word, a match list
  whose entries stand for the patterns that end there. \<^verbatim>\<open>acsmBuildMatchStateTrees\<close> keeps it, since
  it changes only the tree and the negation list of first entries.
\<close>

definition searchable ::
  "('i, 't, 'n) acsm_struct \<Rightarrow> bytes list \<Rightarrow> 'i user_pattern list \<Rightarrow> bool"
where
  "searchable m L ups \<longleftrightarrow>
     trie_words L \<and> length L \<le> length (acsmStateTable m) \<and>
     map udata_id (udata m) = map (\<lambda>u. snd (snd (snd u))) ups \<and>
     (\<forall>k<length ups. ConvertCaseEx (fst (ups ! k)) \<in> set L) \<and>
     (\<forall>w\<in>set L. NextState (acsmStateTable m ! pos L w) = delta L w \<and>
        image_mset pat_udata (mset (MatchList (acsmStateTable m ! pos L w))) =
          mset (filter (\<lambda>k. suffix (ConvertCaseEx (fst (ups ! k))) w) [0..<length ups]))"

lemma searchable_row:
  assumes "searchable m L ups" and "w \<in> set L"
  shows "image_mset pat_udata (mset (MatchList (acsmStateTable m ! pos L w))) =
      mset (filter (\<lambda>k. suffix (ConvertCaseEx (fst (ups ! k))) w) [0..<length ups])"
  using assms by (simp add: searchable_def)

lemma ends_in_patterns:
  fixes P :: "('t, 'n) acsm_pattern list"
  assumes "P = patterns_of ups"
  shows "image_mset pat_udata (ends_in P w) =
    mset (filter (\<lambda>k. suffix (ConvertCaseEx (fst (ups ! k))) w) [0..<length ups])"
proof -
  have "image_mset pat_udata (ends_in P w) = mset (map pat_udata (filter (\<lambda>p. suffix (patrn p) w) P))"
    by (simp add: ends_in_def)
  also have "map pat_udata (filter (\<lambda>p. suffix (patrn p) w) P) =
      filter (\<lambda>k. suffix (ConvertCaseEx (fst (ups ! k))) w) [0..<length ups]"
    by (simp add: assms patterns_of_def filter_map o_def pattern_of_def)
  finally show ?thesis .
qed

lemma dfa_searchable:
  fixes m :: "('i, 't, 'n) acsm_struct"
  assumes "dfa_inv m L (patterns_of ups) (set L)"
    and "map udata_id (udata m) = map (\<lambda>u. snd (snd (snd u))) ups"
  shows "searchable m L ups"
proof -
  have "ConvertCaseEx (fst (ups ! k)) \<in> set L" if "k < length ups" for k
  proof -
    have "(pattern_of k (ups ! k) :: ('t, 'n) acsm_pattern) \<in> set (patterns_of ups)"
      using that by (simp add: patterns_of_def)
    moreover have "patrn ` set (patterns_of ups :: ('t, 'n) acsm_pattern list) \<subseteq> set L"
      using assms(1) unfolding dfa_inv_def table_frame_def pattern_words_def by blast
    ultimately show ?thesis by (force simp: pattern_of_def)
  qed
  then show ?thesis using assms ends_in_patterns [of "patterns_of ups :: ('t, 'n) acsm_pattern list" ups]
    by (simp add: searchable_def dfa_inv_def table_frame_def linked_def)
qed

lemma build_entries_keys:
  "pat_udata (build_entries ag ud ms h) = pat_udata h"
  by (induction ms arbitrary: h) (auto split: option.splits)

lemma build_state_tree_keys:
  "map pat_udata (MatchList (build_state_tree ag ud e)) = map pat_udata (MatchList e)"
  "NextState (build_state_tree ag ud e) = NextState e"
  by (simp_all add: build_state_tree_def build_entries_keys Let_def split: list.splits option.splits)

lemma searchable_trees:
  assumes "searchable m L ups"
  shows "searchable (acsmBuildMatchStateTrees ag m) L ups"
proof -
  have "acsmStateTable (acsmBuildMatchStateTrees ag m) ! pos L w =
      build_state_tree ag (udata m) (acsmStateTable m ! pos L w)" if "w \<in> set L" for w
    using assms that pos_less [of L w]
    by (simp add: acsmBuildMatchStateTrees_def searchable_def del: pos_less)
  moreover have "image_mset pat_udata (mset (MatchList (build_state_tree ag ud e))) =
      image_mset pat_udata (mset (MatchList e))" for ud and e
    by (metis build_state_tree_keys(1) mset_map)
  ultimately show ?thesis using assms
    by (auto simp: searchable_def build_state_tree_keys acsmBuildMatchStateTrees_def)
qed

lemma acsmCompile_searchable:
  assumes "\<forall>u\<in>set ups. fst u \<noteq> []"
  shows "\<exists>m L. acsmCompile (acsm_of ag ups :: ('i, 't, 'n) acsm_struct) = Some m \<and> searchable m L ups"
proof -
  from compile_automaton [OF assms, of ag] obtain b and L where
    b: "acsmCompile_automaton (acsm_of ag ups :: ('i, 't, 'n) acsm_struct) = Some b"
      "dfa_inv b L (patterns_of ups) (set L)" "agent b = ag"
      "map udata_id (udata b) = map (\<lambda>u. snd (snd (snd u))) ups" by blast
  note s = dfa_searchable [OF b(2,4)]
  show ?thesis
  proof (cases ag)
    case None
    with b s show ?thesis by (auto simp: acsmCompile_def)
  next
    case (Some x)
    with b searchable_trees [OF s, of x] show ?thesis by (auto simp: acsmCompile_def)
  qed
qed

section \<open>Search\<close>

definition matches_at :: "'i user_pattern list \<Rightarrow> bytes \<Rightarrow> bool" where
  "matches_at ups w \<longleftrightarrow> (\<exists>u\<in>set ups. suffix (ConvertCaseEx (fst u)) w)"

lemma ex_in_set_nth: "(\<exists>x\<in>set xs. P x) \<longleftrightarrow> (\<exists>k<length xs. P (xs ! k))"
  by (metis in_set_conv_nth)

lemma searchable_step:
  assumes "searchable m L ups" and "s = int (pos L (lsuf (set L) w))"
  shows "NextState (state_at m s) c = int (pos L (lsuf (set L) (w @ [c])))"
  using assms trie_wordsD [of L] lsuf_step [of "set L" w c]
  by (simp add: searchable_def delta_def)

lemma searchable_matches:
  assumes m: "searchable m L ups" and s: "s = int (pos L (lsuf (set L) w))"
  shows "MatchList (state_at m s) = [] \<longleftrightarrow> \<not> matches_at ups w"
    and "x \<in> set (MatchList (state_at m s)) \<Longrightarrow>
      \<exists>u\<in>set ups. udata_id (udata m ! pat_udata x) = snd (snd (snd u)) \<and> suffix (ConvertCaseEx (fst u)) w"
proof -
  let ?v = "lsuf (set L) w"
  have v: "?v \<in> set L" using m trie_wordsD(1) [of L] by (simp add: searchable_def)
  then have ms: "image_mset pat_udata (mset (MatchList (state_at m s))) =
      mset (filter (\<lambda>k. suffix (ConvertCaseEx (fst (ups ! k))) ?v) [0..<length ups])"
    using m s by (simp add: searchable_def)
  have sfx: "suffix (ConvertCaseEx (fst (ups ! k))) ?v \<longleftrightarrow> suffix (ConvertCaseEx (fst (ups ! k))) w"
    if "k < length ups" for k
    using m that by (intro suffix_lsuf_iff) (simp add: searchable_def)
  have "set_mset (image_mset pat_udata (mset (MatchList (state_at m s)))) =
      {k. k < length ups \<and> suffix (ConvertCaseEx (fst (ups ! k))) w}"
    unfolding ms using sfx by auto
  then have keys: "pat_udata ` set (MatchList (state_at m s)) =
      {k. k < length ups \<and> suffix (ConvertCaseEx (fst (ups ! k))) w}" by simp
  moreover have "matches_at ups w \<longleftrightarrow> {k. k < length ups \<and> suffix (ConvertCaseEx (fst (ups ! k))) w} \<noteq> {}"
    using ex_in_set_nth [of ups "\<lambda>u. suffix (ConvertCaseEx (fst u)) w"] unfolding matches_at_def by blast
  ultimately have "matches_at ups w \<longleftrightarrow> pat_udata ` set (MatchList (state_at m s)) \<noteq> {}" by (simp only:)
  then show "MatchList (state_at m s) = [] \<longleftrightarrow> \<not> matches_at ups w"
    by (simp only: image_is_empty set_empty not_not)
  show "\<exists>u\<in>set ups. udata_id (udata m ! pat_udata x) = snd (snd (snd u)) \<and> suffix (ConvertCaseEx (fst u)) w"
    if "x \<in> set (MatchList (state_at m s))"
  proof -
    from that keys have k: "pat_udata x < length ups" "suffix (ConvertCaseEx (fst (ups ! pat_udata x))) w"
      by auto
    have ids: "map udata_id (udata m) = map (\<lambda>u. snd (snd (snd u))) ups"
      using m by (simp add: searchable_def)
    then have "map udata_id (udata m) ! pat_udata x = snd (snd (snd (ups ! pat_udata x)))"
      and "length (udata m) = length ups"
      using k(1) map_eq_imp_length_eq [OF ids] by simp_all
    with k show ?thesis by (intro bexI [of _ "ups ! pat_udata x"]) simp_all
  qed
qed

text \<open>A callback that records its calls and never stops the search.\<close>

definition record_all :: "'i option \<Rightarrow> 't option \<Rightarrow> nat \<Rightarrow> ('i option \<times> nat) list \<Rightarrow> 'n option \<Rightarrow>
  int \<times> ('i option \<times> nat) list" where
  "record_all i tree k ctx neg = (0, ctx @ [(i, k)])"

text \<open>The log of a search over \<open>cs\<close> that starts after the bytes \<open>w\<close> and at position \<open>k\<close>: one entry
  for every position at which a pattern ends, in order, each with the id of such a pattern.\<close>

definition match_log :: "'i user_pattern list \<Rightarrow> bytes \<Rightarrow> nat \<Rightarrow> bytes \<Rightarrow> ('i option \<times> nat) list \<Rightarrow> bool" where
  "match_log ups w k cs lg \<longleftrightarrow>
    map snd lg = filter (\<lambda>j. matches_at ups (w @ take (j - k) cs)) [Suc k..<Suc (k + length cs)] \<and>
    (\<forall>e\<in>set lg. \<exists>u\<in>set ups. snd (snd (snd u)) = fst e \<and>
      suffix (ConvertCaseEx (fst u)) (w @ take (snd e - k) cs))"

lemma match_log_Nil [simp]: "match_log ups w k [] lg \<longleftrightarrow> lg = []"
  by (auto simp: match_log_def)

lemma match_log_Cons:
  assumes lg: "match_log ups (w @ [c]) (Suc k) cs lg"
    and hd: "matches_at ups (w @ [c]) \<Longrightarrow>
      \<exists>u\<in>set ups. snd (snd (snd u)) = i \<and> suffix (ConvertCaseEx (fst u)) (w @ [c])"
  shows "match_log ups w k (c # cs) ((if matches_at ups (w @ [c]) then [(i, Suc k)] else []) @ lg)"
proof -
  have shift: "w @ take (j - k) (c # cs) = (w @ [c]) @ take (j - Suc k) cs" if "Suc k \<le> j" for j
  proof -
    from that have "j - k = Suc (j - Suc k)" by simp
    then show ?thesis by simp
  qed
  have upt: "[Suc k..<Suc (k + length (c # cs))] = Suc k # [Suc (Suc k)..<Suc (Suc k + length cs)]"
    by (simp add: upt_conv_Cons del: upt_Suc)
  have rng: "filter (\<lambda>j. matches_at ups (w @ take (j - k) (c # cs))) [Suc (Suc k)..<Suc (Suc k + length cs)] =
      map snd lg"
    using lg unfolding match_log_def by (simp only:) (rule filter_cong, auto simp: shift simp del: upt_Suc take_Cons)
  have "set (map snd lg) \<subseteq> {Suc (Suc k)..<Suc (Suc k + length cs)}"
    unfolding rng [symmetric] by (auto simp del: upt_Suc)
  then have ge: "Suc k \<le> snd e" if "e \<in> set lg" for e using that by fastforce
  have "\<forall>e\<in>set lg. \<exists>u\<in>set ups. snd (snd (snd u)) = fst e \<and>
      suffix (ConvertCaseEx (fst u)) (w @ take (snd e - k) (c # cs))"
  proof
    fix e
    assume e: "e \<in> set lg"
    with lg have "\<exists>u\<in>set ups. snd (snd (snd u)) = fst e \<and>
        suffix (ConvertCaseEx (fst u)) ((w @ [c]) @ take (snd e - Suc k) cs)"
      unfolding match_log_def by blast
    then show "\<exists>u\<in>set ups. snd (snd (snd u)) = fst e \<and>
        suffix (ConvertCaseEx (fst u)) (w @ take (snd e - k) (c # cs))"
      by (simp only: shift [OF ge [OF e]])
  qed
  moreover have "w @ take (Suc k - k) (c # cs) = w @ [c]" by simp
  ultimately show ?thesis using hd
    unfolding match_log_def upt filter.simps rng
    by (cases "matches_at ups (w @ [c])") (simp_all only: if_True if_False append_Cons append_Nil list.map
      list.set snd_conv fst_conv ball_simps simp_thms)
qed

lemma search_loop_record:
  "acsm_search_loop m record_all s k n ctx (c # cs) =
    (case MatchList (state_at m (NextState (state_at m s) c)) of
       [] \<Rightarrow> acsm_search_loop m record_all (NextState (state_at m s) c) (k + 1) n ctx cs
     | x # xs \<Rightarrow> acsm_search_loop m record_all (NextState (state_at m s) c) (k + 1) (n + 1)
         (ctx @ [(udata_id (udata m ! pat_udata x), k + 1)]) cs)"
  by (simp add: record_all_def Let_def split: list.split)

lemma search_loop_log:
  assumes m: "searchable m L ups"
  shows "\<exists>lg. acsm_search_loop m record_all (int (pos L (lsuf (set L) w))) k n ctx cs =
      (n + length lg, int (pos L (lsuf (set L) (w @ cs))), ctx @ lg) \<and> match_log ups w k cs lg"
proof (induction cs arbitrary: w k n ctx)
  case Nil
  show ?case by simp
next
  case (Cons c cs)
  let ?s = "int (pos L (lsuf (set L) w))" and ?s' = "int (pos L (lsuf (set L) (w @ [c])))"
  have step: "NextState (state_at m ?s) c = ?s'" by (rule searchable_step [OF m refl])
  show ?case
  proof (cases "MatchList (state_at m ?s')")
    case Nil
    then have no: "\<not> matches_at ups (w @ [c])" using searchable_matches(1) [OF m refl] by blast
    from Cons.IH [of "w @ [c]" "Suc k" n ctx] obtain lg where
      "acsm_search_loop m record_all ?s' (Suc k) n ctx cs =
        (n + length lg, int (pos L (lsuf (set L) ((w @ [c]) @ cs))), ctx @ lg)"
      and "match_log ups (w @ [c]) (Suc k) cs lg" by blast
    with step Nil no match_log_Cons [of ups w c k cs lg] show ?thesis by auto
  next
    case (Cons x xs)
    then have yes: "matches_at ups (w @ [c])" using searchable_matches(1) [OF m refl] by force
    let ?i = "udata_id (udata m ! pat_udata x)"
    have u: "\<exists>u\<in>set ups. snd (snd (snd u)) = ?i \<and> suffix (ConvertCaseEx (fst u)) (w @ [c])"
      using searchable_matches(2) [OF m refl, where x = x and w = "w @ [c]"] Cons
      by (metis list.set_intros(1))
    from Cons.IH [of "w @ [c]" "Suc k" "Suc n" "ctx @ [(?i, Suc k)]"] obtain lg where
      lg: "acsm_search_loop m record_all ?s' (Suc k) (Suc n) (ctx @ [(?i, Suc k)]) cs =
        (Suc n + length lg, int (pos L (lsuf (set L) ((w @ [c]) @ cs))), (ctx @ [(?i, Suc k)]) @ lg)"
      "match_log ups (w @ [c]) (Suc k) cs lg" by blast
    from match_log_Cons [OF lg(2), of ?i] u yes have "match_log ups w k (c # cs) ((?i, Suc k) # lg)" by simp
    with lg(1) step Cons show ?thesis
      by (intro exI [of _ "(?i, Suc k) # lg"]) (simp add: search_loop_record del: acsm_search_loop.simps)
  qed
qed

text \<open>A search can be cut anywhere: counts add up, offsets shift, the state carries over.\<close>

lemma search_loop_shift:
  "acsm_search_loop m record_all s (k + d) n ctx cs =
    (case acsm_search_loop m record_all s k 0 [] cs of
       (n', s', lg) \<Rightarrow> (n + n', s', ctx @ map (\<lambda>(i, j). (i, j + d)) lg))"
proof (induction cs arbitrary: s k d n ctx)
  case Nil
  show ?case by simp
next
  case (Cons c cs)
  let ?s = "NextState (state_at m s) c"
  show ?case
  proof (cases "MatchList (state_at m ?s)")
    case Nil
    with Cons.IH [of ?s "Suc k" d n ctx] show ?thesis
      by (simp add: search_loop_record del: acsm_search_loop.simps)
  next
    case (Cons x xs)
    let ?i = "udata_id (udata m ! pat_udata x)"
    obtain n' s' lg where r: "acsm_search_loop m record_all ?s (Suc k) 0 [] cs = (n', s', lg)"
      by (metis prod_cases3)
    from Cons Cons.IH [of ?s "Suc k" d "Suc n" "ctx @ [(?i, Suc (k + d))]"]
      Cons.IH [of ?s "Suc k" 0 1 "[(?i, Suc k)]"] show ?thesis
      by (simp add: search_loop_record r del: acsm_search_loop.simps)
  qed
qed

lemma search_loop_append:
  "acsm_search_loop m record_all s k n ctx (cs @ ds) =
    (case acsm_search_loop m record_all s k n ctx cs of
       (n', s', lg) \<Rightarrow> acsm_search_loop m record_all s' (k + length cs) n' lg ds)"
  by (induction cs arbitrary: s k n ctx)
    (simp_all add: search_loop_record split: list.split del: acsm_search_loop.simps(2))

lemma ConvertCaseEx_append: "ConvertCaseEx (xs @ ys) = ConvertCaseEx xs @ ConvertCaseEx ys"
  by (simp add: ConvertCaseEx_def)

lemma length_ConvertCaseEx [simp]: "length (ConvertCaseEx xs) = length xs"
  by (simp add: ConvertCaseEx_def)

lemma root_word:
  assumes "searchable m L ups"
  shows "pos L [] = 0"
  using assms trie_wordsD [of L] by (simp add: searchable_def)

lemma refs_map_keys: "refs t h = count_list (map pat_udata (entries t)) h"
  by (simp add: refs_def count_list_eq_length_filter filter_map o_def eq_commute)

section \<open>Bounds and release\<close>

lemma ref_ok_keys:
  "ref_ok a \<longleftrightarrow> pat_udata ` set (entries (acsmStateTable a)) \<subseteq> {..<length (udata a)} \<and>
    (\<forall>h<length (udata a). ref_count (udata a ! h) = of_nat (refs (acsmStateTable a) h))"
  by (auto simp: ref_ok_def)

lemma acsmCompile_shape:
  fixes ag :: "('i, 't, 'n) acsm_agent option"
  assumes "\<forall>u\<in>set ups. fst u \<noteq> []"
  shows "\<exists>m L. acsmCompile (acsm_of ag ups) = Some m \<and> searchable m L ups \<and> ref_ok m \<and>
    acsmMaxStates m = length (acsmStateTable m) \<and>
    acsmMaxStates m = Suc (sum_list (map (length \<circ> fst) ups)) \<and> acsmNumStates m = int (length L) - 1 \<and>
    (\<forall>k. length L \<le> k \<and> k < length (acsmStateTable m) \<longrightarrow> MatchList (acsmStateTable m ! k) = [])"
proof -
  from compile_automaton [OF assms, of ag] obtain b and L where
    b: "acsmCompile_automaton (acsm_of ag ups) = Some b"
      "dfa_inv b L (patterns_of ups) (set L)" "agent b = ag"
      "acsmMaxStates b = length (acsmStateTable b)"
      "acsmMaxStates b = Suc (sum_list (map (length \<circ> fst) ups))"
      "map udata_id (udata b) = map (\<lambda>u. snd (snd (snd u))) ups" by blast
  note s = dfa_searchable [OF b(2,6)]
  have d: "ref_ok b" "acsmNumStates b = int (length L) - 1"
    "\<forall>k. length L \<le> k \<and> k < length (acsmStateTable b) \<longrightarrow> MatchList (acsmStateTable b ! k) = []"
    using b(2) by (auto simp: dfa_inv_def table_frame_def empty_state_def)
  show ?thesis
  proof (cases ag)
    case None
    with b s d show ?thesis by (auto simp: acsmCompile_def)
  next
    case (Some x)
    let ?m = "acsmBuildMatchStateTrees x b"
    have keys: "map pat_udata (entries (acsmStateTable ?m)) = map pat_udata (entries (acsmStateTable b))"
      by (simp add: entries_def acsmBuildMatchStateTrees_def map_concat o_def build_state_tree_keys)
    then have "refs (acsmStateTable ?m) h = refs (acsmStateTable b) h" for h
      by (simp add: refs_map_keys)
    moreover have "pat_udata ` set (entries (acsmStateTable ?m)) = pat_udata ` set (entries (acsmStateTable b))"
      using arg_cong [OF keys, of set] by simp
    moreover have "udata ?m = udata b" by (simp add: acsmBuildMatchStateTrees_def)
    ultimately have "ref_ok ?m" using d(1) by (simp add: ref_ok_keys)
    moreover have "\<forall>k. length L \<le> k \<and> k < length (acsmStateTable ?m) \<longrightarrow> MatchList (acsmStateTable ?m ! k) = []"
      using d(3) by (simp add: acsmBuildMatchStateTrees_def build_state_tree_def)
    ultimately show ?thesis using b s d Some searchable_trees [OF s, of x]
      by (intro exI [of _ ?m] exI [of _ L]) (simp add: acsmCompile_def acsmBuildMatchStateTrees_def)
  qed
qed

text \<open>Releases of user data, by handle.\<close>

definition freed :: "('i, 't, 'n) acsm_release list \<Rightarrow> nat list" where
  "freed rs = concat (map (\<lambda>r. case r of UdataFree h \<Rightarrow> [h] | _ \<Rightarrow> []) rs)"

lemma freed_simps [simp]:
  "freed [] = []" "freed (UdataFree h # rs) = h # freed rs" "freed (UserFree i # rs) = freed rs"
  "freed (TreeFree t # rs) = freed rs" "freed (ListFree n # rs) = freed rs"
  "freed (rs @ qs) = freed rs @ freed qs"
  by (simp_all add: freed_def)

lemma freed_entries_step:
  "freed (free_entries ag (m # ms) ud) =
    (if ref_count (ud ! pat_udata m) - 1 = 0 then [pat_udata m] else []) @
    freed (free_entries ag ms (ud[pat_udata m := (ud ! pat_udata m)\<lparr>ref_count := ref_count (ud ! pat_udata m) - 1\<rparr>]))"
  by (simp add: Let_def split: option.split)

lemma of_nat_zero_u32: "n < 2 ^ 32 \<Longrightarrow> (of_nat n :: u32) = 0 \<longleftrightarrow> n = 0"
  by (cases "n = 0") (auto simp: word_of_nat_eq_0_iff dest: nat_dvd_not_less)

lemma freed_entries:
  assumes "pat_udata ` set ms \<subseteq> {..<length ud}" and "length ms < 2 ^ 32"
    and "\<forall>h<length ud. ref_count (ud ! h) = of_nat (count_list (map pat_udata ms) h)"
  shows "mset (freed (free_entries ag ms ud)) = mset_set (pat_udata ` set ms)"
  using assms
proof (induction ms arbitrary: ud)
  case Nil
  then show ?case by simp
next
  case (Cons m ms)
  let ?h = "pat_udata m" and ?c = "count_list (map pat_udata ms) (pat_udata m)"
  let ?ud = "ud[?h := (ud ! ?h)\<lparr>ref_count := ref_count (ud ! ?h) - 1\<rparr>]"
  have h: "?h < length ud" using Cons.prems(1) by simp
  with Cons.prems(3) have r: "ref_count (ud ! ?h) - 1 = of_nat ?c" by simp
  have "\<forall>k<length ?ud. ref_count (?ud ! k) = of_nat (count_list (map pat_udata ms) k)"
    using Cons.prems(3) r h by (auto simp: nth_list_update)
  with Cons.IH [of ?ud] Cons.prems(1,2)
  have IH: "mset (freed (free_entries ag ms ?ud)) = mset_set (pat_udata ` set ms)" by simp
  have "?c \<le> length ms" using count_le_length [of "map pat_udata ms" ?h] by simp
  then have "(of_nat ?c :: u32) = 0 \<longleftrightarrow> ?h \<notin> pat_udata ` set ms"
    using Cons.prems(2) by (simp add: of_nat_zero_u32 count_list_0_iff)
  with IH [unfolded r] show ?case unfolding freed_entries_step r by (auto simp: insert_absorb)
qed

lemma length_entries_le:
  assumes "\<forall>e\<in>set t. length (MatchList e) \<le> n"
  shows "length (entries t) \<le> length t * n"
  using assms by (induction t) (auto simp: entries_def)

lemma searchable_row_length:
  assumes m: "searchable m L ups"
    and rest: "\<forall>k. length L \<le> k \<and> k < length (acsmStateTable m) \<longrightarrow> MatchList (acsmStateTable m ! k) = []"
    and e: "e \<in> set (acsmStateTable m)"
  shows "length (MatchList e) \<le> length ups"
proof -
  from e obtain k where k: "k < length (acsmStateTable m)" "e = acsmStateTable m ! k"
    by (auto simp: in_set_conv_nth)
  show ?thesis
  proof (cases "k < length L")
    case True
    have "pos L (L ! k) = k" using m True trie_wordsD [of L] by (simp add: searchable_def pos_nth)
    then have "image_mset pat_udata (mset (MatchList e)) =
        mset (filter (\<lambda>j. suffix (ConvertCaseEx (fst (ups ! j))) (L ! k)) [0..<length ups])"
      using searchable_row [OF m nth_mem [OF True]] k(2) by simp
    from arg_cong [OF this, of size]
    have "length (MatchList e) =
        length (filter (\<lambda>j. suffix (ConvertCaseEx (fst (ups ! j))) (L ! k)) [0..<length ups])"
      by (simp only: size_image_mset size_mset)
    also have "\<dots> \<le> length ups" by (rule order_trans [OF length_filter_le]) simp
    finally show ?thesis .
  qed (use rest k in auto)
qed

lemma searchable_owned:
  assumes m: "searchable m L ups"
  shows "{..<length ups} \<subseteq> pat_udata ` set (entries (acsmStateTable m))"
proof
  fix k
  assume "k \<in> {..<length ups}"
  then have k: "k < length ups" by simp
  let ?w = "ConvertCaseEx (fst (ups ! k))"
  let ?e = "acsmStateTable m ! pos L ?w"
  have w: "?w \<in> set L" using m k by (simp add: searchable_def)
  then have "image_mset pat_udata (mset (MatchList ?e)) =
      mset (filter (\<lambda>j. suffix (ConvertCaseEx (fst (ups ! j))) ?w) [0..<length ups])"
    by (rule searchable_row [OF m])
  from arg_cong [OF this, of set_mset] have "k \<in> pat_udata ` set (MatchList ?e)" using k by simp
  moreover have "?e \<in> set (acsmStateTable m)"
    using m w pos_less [of L ?w] by (auto simp: searchable_def intro!: nth_mem simp del: pos_less)
  ultimately show "k \<in> pat_udata ` set (entries (acsmStateTable m))"
    by (auto simp: entries_def)
qed

section \<open>Properties\<close>

text \<open>
  C1. Correctness of the search. For every list of non-empty patterns, \<^verbatim>\<open>acsmCompile\<close> returns a
  machine, and \<^verbatim>\<open>acsmSearch\<close> of any text of at most 64 KiB from state 0 calls its callback exactly
  once for every offset at which some pattern ends (both folded to upper case), in increasing order
  and with the identifier of a pattern that ends there; the returned count is the number of calls.
\<close>

theorem acsm_search_correct:
  assumes "\<forall>u\<in>set ups. fst u \<noteq> []" and "length Tx \<le> 65536"
  shows "\<exists>m lg s. acsmCompile (acsm_of ag ups) = Some m \<and>
    acsmSearch m Tx record_all [] (Some 0) = Some (length lg, Some s, lg) \<and>
    map snd lg = filter (\<lambda>j. matches_at ups (ConvertCaseEx (take j Tx))) [1..<Suc (length Tx)] \<and>
    (\<forall>e\<in>set lg. \<exists>u\<in>set ups. snd (snd (snd u)) = fst e \<and>
      suffix (ConvertCaseEx (fst u)) (ConvertCaseEx (take (snd e) Tx)))"
proof -
  from acsmCompile_searchable [OF assms(1), of ag] obtain m L
    where m: "acsmCompile (acsm_of ag ups) = Some m" "searchable m L ups" by blast
  from search_loop_log [OF m(2), where w = "[]" and k = 0 and n = 0 and ctx = "[]" and cs = "ConvertCaseEx Tx"]
  obtain lg where "acsm_search_loop m record_all 0 0 0 [] (ConvertCaseEx Tx) =
      (length lg, int (pos L (lsuf (set L) (ConvertCaseEx Tx))), lg)"
    and "match_log ups [] 0 (ConvertCaseEx Tx) lg" by (auto simp: root_word [OF m(2)])
  with m(1) assms(2) show ?thesis
    by (auto simp: acsmSearch_def match_log_def ConvertCaseEx_def take_map simp del: upt_Suc)
qed

theorem acsm_search_correct_witness:
  "\<exists>m lg s. acsmCompile (acsm_of None [([0x61, 0x62], True, False, Some (7::nat))]) = Some m \<and>
    acsmSearch m [0x61, 0x42, 0x61] record_all [] (Some 0) = Some (length lg, Some s, lg) \<and> map snd lg = [2]"
proof -
  have "filter (\<lambda>j. matches_at [([0x61, 0x62], True, False, Some (7::nat))]
      (ConvertCaseEx (take j [0x61, 0x42, 0x61]))) [1..<Suc (length [0x61::u8, 0x42, 0x61])] = [2]"
    by (simp add: matches_at_def ConvertCaseEx_def xlatcase_def suffix_def upt_conv_Cons)
  with acsm_search_correct [where ups = "[([0x61, 0x62], True, False, Some (7::nat))]"
      and Tx = "[0x61, 0x42, 0x61]" and ag = None] show ?thesis by auto
qed

text \<open>
  C2. Streaming. Searching a second segment from the state the first search left finds what one
  search of the joined text finds, matches across the boundary included: the logs concatenate
  with offsets shifted by the length of the first segment, and the final state is the same.
\<close>

theorem acsm_search_stream:
  assumes "\<forall>u\<in>set ups. fst u \<noteq> []" and "length T1 + length T2 \<le> 65536"
  shows "\<exists>m lg1 s1 lg2 s2. acsmCompile (acsm_of ag ups) = Some m \<and>
    acsmSearch m T1 record_all [] (Some 0) = Some (length lg1, Some s1, lg1) \<and>
    acsmSearch m T2 record_all [] (Some s1) = Some (length lg2, Some s2, lg2) \<and>
    acsmSearch m (T1 @ T2) record_all [] (Some 0) =
      Some (length lg1 + length lg2, Some s2, lg1 @ map (\<lambda>(i, j). (i, j + length T1)) lg2)"
proof -
  from acsmCompile_searchable [OF assms(1), of ag] obtain m L
    where m: "acsmCompile (acsm_of ag ups) = Some m" "searchable m L ups" by blast
  from search_loop_log [OF m(2), where w = "[]" and k = 0 and n = 0 and ctx = "[]" and cs = "ConvertCaseEx T1"]
  obtain lg1 s1 where l1: "acsm_search_loop m record_all 0 0 0 [] (ConvertCaseEx T1) = (length lg1, s1, lg1)"
    and s1: "s1 = int (pos L (lsuf (set L) (ConvertCaseEx T1)))" by (auto simp: root_word [OF m(2)])
  from search_loop_log [OF m(2), where w = "ConvertCaseEx T1" and k = 0 and n = 0 and ctx = "[]" and cs = "ConvertCaseEx T2"]
  obtain lg2 s2 where l2: "acsm_search_loop m record_all s1 0 0 [] (ConvertCaseEx T2) = (length lg2, s2, lg2)"
    unfolding s1 by auto
  have "acsm_search_loop m record_all 0 0 0 [] (ConvertCaseEx (T1 @ T2)) =
      (length lg1 + length lg2, s2, lg1 @ map (\<lambda>(i, j). (i, j + length T1)) lg2)"
    using search_loop_shift [of m s1 0 "length T1" "length lg1" lg1 "ConvertCaseEx T2"]
    by (simp add: ConvertCaseEx_append search_loop_append l1 l2)
  with m(1) l1 l2 assms(2) show ?thesis by (auto simp: acsmSearch_def)
qed

theorem acsm_search_stream_witness:
  "\<exists>m lg1 s1 lg2 s2. acsmCompile (acsm_of None [([0x61, 0x62], True, False, Some (7::nat))]) = Some m \<and>
    acsmSearch m [0x61] record_all [] (Some 0) = Some (length lg1, Some s1, lg1) \<and>
    acsmSearch m [0x42] record_all [] (Some s1) = Some (length lg2, Some s2, lg2) \<and>
    acsmSearch m [0x61, 0x42] record_all [] (Some 0) =
      Some (length lg1 + length lg2, Some s2, lg1 @ map (\<lambda>(i, j). (i, j + 1)) lg2)"
  using acsm_search_stream [where ups = "[([0x61, 0x62], True, False, Some (7::nat))]"
      and ?T1.0 = "[0x61]" and ?T2.0 = "[0x42]" and ag = None] by simp



text \<open>
  C4. Release. The user data of every added pattern is shared by the match list entries of all
  states whose word ends in it. \<^verbatim>\<open>acsmFree\<close> releases each of them exactly once, as long as the
  32-bit reference counts cannot wrap.
\<close>

theorem acsmFree_releases_once:
  assumes "\<forall>u\<in>set ups. fst u \<noteq> []"
    and "Suc (sum_list (map (length \<circ> fst) ups)) * length ups < 2 ^ 32"
  shows "\<exists>m. acsmCompile (acsm_of ag ups) = Some m \<and> mset (freed (acsmFree m)) = mset [0..<length ups]"
proof -
  from acsmCompile_shape [OF assms(1), of ag] obtain m L where
    m: "acsmCompile (acsm_of ag ups) = Some m" "searchable m L ups" "ref_ok m"
      "acsmMaxStates m = length (acsmStateTable m)"
      "acsmMaxStates m = Suc (sum_list (map (length \<circ> fst) ups))"
      "\<forall>k. length L \<le> k \<and> k < length (acsmStateTable m) \<longrightarrow> MatchList (acsmStateTable m ! k) = []"
    by blast
  let ?t = "acsmStateTable m"
  have ud: "length (udata m) = length ups"
    using m(2) map_eq_imp_length_eq [of udata_id "udata m"] by (auto simp: searchable_def)
  have "length (MatchList e) \<le> length ups" if "e \<in> set ?t" for e
    using searchable_row_length [OF m(2,6) that] .
  then have "length (entries ?t) \<le> length ?t * length ups" by (intro length_entries_le) blast
  also have "\<dots> < 2 ^ 32" using assms(2) unfolding m(4) [symmetric] m(5) .
  finally have len: "length (entries ?t) < 2 ^ 32" .
  have own: "pat_udata ` set (entries ?t) = {..<length ups}"
    using m(3) ud searchable_owned [OF m(2)] by (auto simp: ref_ok_keys)
  have "mset (freed (free_entries (agent m \<noteq> None) (entries ?t) (udata m))) = mset_set {..<length ups}"
    using freed_entries [of "entries ?t" "udata m"] len own m(3) ud by (simp add: ref_ok_keys refs_map_keys)
  with m(1,4) show ?thesis by (simp add: acsmFree_def entries_def mset_upt lessThan_atLeast0)
qed

theorem acsmFree_releases_once_witness:
  "\<exists>m. acsmCompile (acsm_of None [([0x61, 0x62], True, False, Some (7::nat)), ([0x62], True, False, None)]) = Some m \<and>
    mset (freed (acsmFree m)) = {#0, 1#}"
  using acsmFree_releases_once [where ag = None and
      ups = "[([0x61, 0x62], True, False, Some (7::nat)), ([0x62], True, False, None)]"] by simp

end
