(* ===== verification/Acsm_Gpu.thy ===== *)
theory Acsm_Gpu
  imports Acsm_Search
begin

text \<open>
  The OpenCL search engine \<^verbatim>\<open>ac_gpu\<close>: \<^verbatim>\<open>src/search_engines/acsmx3.cc\<close> and the kernel
  \<^verbatim>\<open>ac_gpu.cl\<close>. The functions of \<^verbatim>\<open>acsmx3.cc\<close> that build the automaton repeat those of
  \<^verbatim>\<open>acsmx.cc\<close>, so the machine is the \<^typ>\<open>('i, 't, 'n) acsm_struct\<close> of theory \<open>Acsm\<close>. What is new is the
  batching: packets are folded and stored in a buffer of 512 slots of 16 KiB each, a full buffer is
  handed to one kernel invocation per slot, and the results are summed up. The buffer is the flat
  memory of the code, a function from addresses to bytes. Mapping and unmapping of buffers is not
  visible in the model; the OpenCL calls that can fail are parameters.
\<close>

definition MAX_PACKET_SIZE :: nat where
  "MAX_PACKET_SIZE = 16 * 1024"

definition PACKET_BUFFER_SIZE :: nat where
  "PACKET_BUFFER_SIZE = 512"

record ('i, 't, 'n) acsm3_struct =
  machine :: "('i, 't, 'n) acsm_struct"
  packet_buffer_index :: nat
  packet_buffer :: "nat \<Rightarrow> u8"
  packet_length_buffer :: "int list"
  cl_state_table :: "('t, 'n) acsm_statetable list"
  match_instances :: u64
  match_packets :: u64

text \<open>\<open>platforms\<close>, \<open>devices\<close> and \<open>built\<close>: what the OpenCL runtime reports; \<open>mem\<close> is the mapped buffer.\<close>

definition acsm3New ::
  "nat \<Rightarrow> nat \<Rightarrow> bool \<Rightarrow> (nat \<Rightarrow> u8) \<Rightarrow> ('i, 't, 'n) acsm_agent option \<Rightarrow> ('i, 't, 'n) acsm3_struct option"
where
  "acsm3New platforms devices built mem ag =
     (if platforms = 0 \<or> devices = 0 \<or> \<not> built then None
      else Some \<lparr>machine = acsmNew ag, packet_buffer_index = 0, packet_buffer = mem,
        packet_length_buffer = replicate PACKET_BUFFER_SIZE 0, cl_state_table = [],
        match_instances = 0, match_packets = 0\<rparr>)"

definition acsm3AddPattern ::
  "('i, 't, 'n) acsm3_struct \<Rightarrow> bytes \<Rightarrow> bool \<Rightarrow> bool \<Rightarrow> 'i option \<Rightarrow> ('i, 't, 'n) acsm3_struct"
where
  "acsm3AddPattern g pat nc neg user = g\<lparr>machine := acsmAddPattern (machine g) pat nc neg user\<rparr>"

definition acsm3Compile :: "('i, 't, 'n) acsm3_struct \<Rightarrow> ('i, 't, 'n) acsm3_struct option" where
  "acsm3Compile g =
     (case acsmCompile (machine g) of
        None \<Rightarrow> None
      | Some a \<Rightarrow> Some (g\<lparr>machine := a, cl_state_table := take (acsmMaxStates a) (acsmStateTable a)\<rparr>))"

section \<open>The kernel\<close>

fun gpu_scan ::
  "('t, 'n) acsm_statetable list \<Rightarrow> (nat \<Rightarrow> u8) \<Rightarrow> nat \<Rightarrow> nat \<Rightarrow> int \<Rightarrow> int \<Rightarrow> int"
where
  "gpu_scan StateTable Pbuff T 0 state found = found"
| "gpu_scan StateTable Pbuff T (Suc n) state found =
     (let state' = NextState (StateTable ! nat state) (Pbuff T)
      in gpu_scan StateTable Pbuff (T + 1) n state'
           (if MatchList (StateTable ! nat state') \<noteq> [] then found + 1 else found))"

definition ac_gpu ::
  "(nat \<Rightarrow> u8) \<Rightarrow> int list \<Rightarrow> ('t, 'n) acsm_statetable list \<Rightarrow> nat \<Rightarrow> int"
where
  "ac_gpu Pbuff Plen StateTable index =
     gpu_scan StateTable Pbuff (index * (16 * 1024)) (nat (Plen ! index)) 0 0"

section \<open>Batching\<close>

definition count_result :: "int \<Rightarrow> ('i, 't, 'n) acsm3_struct \<Rightarrow> ('i, 't, 'n) acsm3_struct" where
  "count_result n g =
     g\<lparr>match_instances := match_instances g + of_int n,
       match_packets := match_packets g + (if n \<noteq> 0 then 1 else 0)\<rparr>"

definition cl_dispatch :: "('i, 't, 'n) acsm3_struct \<Rightarrow> ('i, 't, 'n) acsm3_struct" where
  "cl_dispatch g =
     (let nfound = map (ac_gpu (packet_buffer g) (packet_length_buffer g) (cl_state_table g)) [0..<PACKET_BUFFER_SIZE]
      in (fold count_result nfound g)
           \<lparr>packet_length_buffer := replicate PACKET_BUFFER_SIZE 0, packet_buffer_index := 0\<rparr>)"

text \<open>
  The match callback and the current state are not used. A packet longer than a slot overruns the
  static buffer of the case conversion: \<open>None\<close>.
\<close>

definition acsm3Search :: "('i, 't, 'n) acsm3_struct \<Rightarrow> bytes \<Rightarrow> ('i, 't, 'n) acsm3_struct option" where
  "acsm3Search g Tx =
     (if MAX_PACKET_SIZE < length Tx then None
      else let Tc = ConvertCaseEx Tx;
               base = MAX_PACKET_SIZE * packet_buffer_index g;
               g1 = g\<lparr>packet_buffer := (\<lambda>x. if base \<le> x \<and> x < base + length Tc then Tc ! (x - base) else packet_buffer g x),
                      packet_length_buffer := (packet_length_buffer g)[packet_buffer_index g := int (length Tx)],
                      packet_buffer_index := packet_buffer_index g + 1\<rparr>
           in Some (if packet_buffer_index g1 = PACKET_BUFFER_SIZE then cl_dispatch g1 else g1))"

definition acsm3Free ::
  "('i, 't, 'n) acsm3_struct \<Rightarrow> ('i, 't, 'n) acsm3_struct \<times> ('i, 't, 'n) acsm_release list"
where
  "acsm3Free g =
     (let g' = (if packet_buffer_index g \<noteq> 0 then cl_dispatch g else g) in (g', acsmFree (machine g')))"

definition acsm3PatternCount :: "('i, 't, 'n) acsm3_struct \<Rightarrow> int" where
  "acsm3PatternCount g = acsmPatternCount (machine g)"

text \<open>A session of the engine: create, add patterns, compile, search packets, free.\<close>

fun acsm3_searches :: "('i, 't, 'n) acsm3_struct \<Rightarrow> bytes list \<Rightarrow> ('i, 't, 'n) acsm3_struct option" where
  "acsm3_searches g [] = Some g"
| "acsm3_searches g (p # ps) = Option.bind (acsm3Search g p) (\<lambda>g'. acsm3_searches g' ps)"

definition acsm3_session ::
  "(nat \<Rightarrow> u8) \<Rightarrow> ('i, 't, 'n) acsm_agent option \<Rightarrow> 'i user_pattern list \<Rightarrow> bytes list \<Rightarrow>
   (('i, 't, 'n) acsm3_struct \<times> ('i, 't, 'n) acsm_release list) option"
where
  "acsm3_session mem ag ups pkts =
     Option.bind (acsm3New 1 1 True mem ag) (\<lambda>g.
     Option.bind (acsm3Compile (fold (\<lambda>(p, nc, ng, i) g. acsm3AddPattern g p nc ng i) ups g)) (\<lambda>g.
     Option.bind (acsm3_searches g pkts) (\<lambda>g. Some (acsm3Free g))))"

section \<open>The kernel counts what the host search counts\<close>

lemma search_loop_count:
  "fst (acsm_search_loop m record_all s k n ctx cs) = n + fst (acsm_search_loop m record_all s 0 0 [] cs)"
  using search_loop_shift [of m s 0 k n ctx cs] by (simp split: prod.splits)

lemma gpu_scan_count:
  assumes "\<forall>j<length cs. Pbuff (T + j) = cs ! j"
  shows "gpu_scan (acsmStateTable m) Pbuff T (length cs) s found =
    found + int (fst (acsm_search_loop m record_all s 0 0 [] cs))"
  using assms
proof (induction cs arbitrary: T s found)
  case Nil
  then show ?case by simp
next
  case (Cons c cs)
  from Cons.prems have c: "Pbuff T = c" and cs: "\<forall>j<length cs. Pbuff (Suc T + j) = cs ! j" by force+
  show ?case
    using Cons.IH [of "Suc T"] cs
    by (simp add: c search_loop_record search_loop_count [of m _ "Suc 0"] split: list.split
        del: acsm_search_loop.simps(2))
qed

text \<open>The number of positions of a packet at which a pattern ends.\<close>

definition packet_hits :: "'i user_pattern list \<Rightarrow> bytes \<Rightarrow> nat" where
  "packet_hits ups p = length (filter (\<lambda>j. matches_at ups (ConvertCaseEx (take j p))) [1..<Suc (length p)])"

lemma search_hits:
  assumes "searchable m L ups"
  shows "fst (acsm_search_loop m record_all 0 0 0 [] (ConvertCaseEx p)) = packet_hits ups p"
proof -
  from search_loop_log [OF assms, where w = "[]" and k = 0 and n = 0 and ctx = "[]" and cs = "ConvertCaseEx p"]
  obtain lg where r: "fst (acsm_search_loop m record_all 0 0 0 [] (ConvertCaseEx p)) = length lg"
    and "match_log ups [] 0 (ConvertCaseEx p) lg" by (auto simp: root_word [OF assms])
  then have "map snd lg = filter (\<lambda>j. matches_at ups (ConvertCaseEx (take j p))) [1..<Suc (length p)]"
    by (simp add: match_log_def ConvertCaseEx_def take_map del: upt_Suc)
  then have "length lg = packet_hits ups p" by (metis length_map packet_hits_def)
  with r show ?thesis by simp
qed

section \<open>Invariant of the packet buffer\<close>

definition slots :: "('i, 't, 'n) acsm3_struct \<Rightarrow> bytes list \<Rightarrow> bool" where
  "slots g pend \<longleftrightarrow>
     packet_buffer_index g = length pend \<and> length pend \<le> PACKET_BUFFER_SIZE \<and>
     packet_length_buffer g = map (int \<circ> length) pend @ replicate (PACKET_BUFFER_SIZE - length pend) 0 \<and>
     (\<forall>i<length pend. length (pend ! i) \<le> MAX_PACKET_SIZE \<and>
        (\<forall>j<length (pend ! i). packet_buffer g (MAX_PACKET_SIZE * i + j) = ConvertCaseEx (pend ! i) ! j))"

definition counted :: "'i user_pattern list \<Rightarrow> ('i, 't, 'n) acsm3_struct \<Rightarrow> bytes list \<Rightarrow> bool" where
  "counted ups g done \<longleftrightarrow>
     match_instances g = of_nat (sum_list (map (packet_hits ups) done)) \<and>
     match_packets g = of_nat (length (filter (\<lambda>p. packet_hits ups p \<noteq> 0) done))"

definition loaded :: "'i user_pattern list \<Rightarrow> ('i, 't, 'n) acsm3_struct \<Rightarrow> bool" where
  "loaded ups g \<longleftrightarrow> (\<exists>L. searchable (machine g) L ups) \<and> cl_state_table g = acsmStateTable (machine g)"

lemma loaded_cong:
  "machine g' = machine g \<Longrightarrow> cl_state_table g' = cl_state_table g \<Longrightarrow> loaded ups g' = loaded ups g"
  by (simp add: loaded_def)

lemma fold_count_result:
  "machine (fold count_result ns g) = machine g"
  "cl_state_table (fold count_result ns g) = cl_state_table g"
  "match_instances (fold count_result ns g) = match_instances g + of_int (sum_list ns)"
  "match_packets (fold count_result ns g) = match_packets g + of_nat (length (filter (\<lambda>n. n \<noteq> 0) ns))"
  by (induction ns arbitrary: g) (simp_all add: count_result_def)

lemma ac_gpu_slot:
  assumes "loaded ups g" and "slots g pend" and "i < PACKET_BUFFER_SIZE"
  shows "ac_gpu (packet_buffer g) (packet_length_buffer g) (cl_state_table g) i =
    (if i < length pend then int (packet_hits ups (pend ! i)) else 0)"
proof (cases "i < length pend")
  case True
  from assms(1) obtain L where m: "searchable (machine g) L ups"
    and t: "cl_state_table g = acsmStateTable (machine g)" by (auto simp: loaded_def)
  have "packet_length_buffer g ! i = int (length (pend ! i))"
    using assms(2) True by (simp add: slots_def nth_append)
  moreover have "\<forall>j<length (ConvertCaseEx (pend ! i)).
      packet_buffer g (i * (16 * 1024) + j) = ConvertCaseEx (pend ! i) ! j"
    using assms(2) True by (simp add: slots_def MAX_PACKET_SIZE_def mult.commute)
  ultimately show ?thesis
    using gpu_scan_count [of "ConvertCaseEx (pend ! i)" "packet_buffer g" "i * (16 * 1024)" "machine g" 0 0]
    by (simp add: ac_gpu_def t True search_hits [OF m])
next
  case False
  with assms(2,3) show ?thesis by (simp add: slots_def ac_gpu_def nth_append)
qed

lemma dispatch_results:
  assumes "loaded ups g" and "slots g pend"
  shows "map (ac_gpu (packet_buffer g) (packet_length_buffer g) (cl_state_table g)) [0..<PACKET_BUFFER_SIZE] =
    map (int \<circ> packet_hits ups) pend @ replicate (PACKET_BUFFER_SIZE - length pend) 0"
proof (rule nth_equalityI)
  have "length pend \<le> PACKET_BUFFER_SIZE" using assms(2) by (simp add: slots_def)
  then show "length (map (ac_gpu (packet_buffer g) (packet_length_buffer g) (cl_state_table g)) [0..<PACKET_BUFFER_SIZE]) =
    length (map (int \<circ> packet_hits ups) pend @ replicate (PACKET_BUFFER_SIZE - length pend) 0)" by simp
qed (simp add: ac_gpu_slot [OF assms] nth_append)

lemma cl_dispatch_inv:
  assumes "loaded ups g" and "slots g pend" and "counted ups g done"
  shows "loaded ups (cl_dispatch g)" "slots (cl_dispatch g) []" "counted ups (cl_dispatch g) (done @ pend)"
proof -
  let ?ns = "map (int \<circ> packet_hits ups) pend @ replicate (PACKET_BUFFER_SIZE - length pend) 0"
  have d: "cl_dispatch g = (fold count_result ?ns g)
      \<lparr>packet_length_buffer := replicate PACKET_BUFFER_SIZE 0, packet_buffer_index := 0\<rparr>"
    by (simp only: cl_dispatch_def Let_def dispatch_results [OF assms(1,2)])
  show "loaded ups (cl_dispatch g)"
    using assms(1) unfolding d by (subst loaded_cong [of _ g]) (simp_all add: fold_count_result del: fold_append)
  show "slots (cl_dispatch g) []" by (simp add: d slots_def)
  have "sum_list ?ns = int (sum_list (map (packet_hits ups) pend))"
    by (induction pend) (simp_all add: sum_list_replicate)
  moreover have "length (filter (\<lambda>n. n \<noteq> 0) ?ns) = length (filter (\<lambda>p. packet_hits ups p \<noteq> 0) pend)"
    by (simp add: filter_map o_def)
  ultimately show "counted ups (cl_dispatch g) (done @ pend)"
    using assms(3) unfolding d counted_def
    by (simp add: fold_count_result del: fold_append sum_list_append filter_append) simp
qed

lemma acsm3Search_inv:
  assumes l: "loaded ups g" and s: "slots g pend" and c: "counted ups g done"
    and room: "length pend < PACKET_BUFFER_SIZE" and p: "length p \<le> MAX_PACKET_SIZE"
  shows "\<exists>g' pend' done'. acsm3Search g p = Some g' \<and> loaded ups g' \<and> slots g' pend' \<and> counted ups g' done' \<and>
    length pend' < PACKET_BUFFER_SIZE \<and> done' @ pend' = done @ pend @ [p]"
proof -
  let ?b = "MAX_PACKET_SIZE * length pend"
  let ?g = "g\<lparr>packet_buffer := (\<lambda>x. if ?b \<le> x \<and> x < ?b + length p then ConvertCaseEx p ! (x - ?b) else packet_buffer g x),
      packet_length_buffer := (packet_length_buffer g)[length pend := int (length p)],
      packet_buffer_index := length pend + 1\<rparr>"
  have i: "packet_buffer_index g = length pend" using s by (simp add: slots_def)
  have "MAX_PACKET_SIZE * k + j < ?b" if "k < length pend" "j < length (pend ! k)" for k j
  proof -
    have "j < MAX_PACKET_SIZE" using s that by (auto simp: slots_def)
    then have "MAX_PACKET_SIZE * k + j < MAX_PACKET_SIZE * Suc k" by simp
    also have "\<dots> \<le> ?b" using that(1) by (intro mult_le_mono2) simp
    finally show ?thesis .
  qed
  then have old: "packet_buffer ?g (MAX_PACKET_SIZE * k + j) = packet_buffer g (MAX_PACKET_SIZE * k + j)"
    if "k < length pend" "j < length (pend ! k)" for k j using that by (fastforce simp: not_le)
  have "replicate (PACKET_BUFFER_SIZE - length pend) (0 :: int) = 0 # replicate (PACKET_BUFFER_SIZE - Suc (length pend)) 0"
    using room by (simp add: Suc_diff_Suc flip: replicate_Suc)
  then have s': "slots ?g (pend @ [p])"
    using s room p old by (auto simp: slots_def nth_append less_Suc_eq list_update_append)
  have l': "loaded ups ?g" using l by (simp add: loaded_def)
  have c': "counted ups ?g done" using c by (simp add: counted_def)
  have r: "acsm3Search g p = Some (if length pend + 1 = PACKET_BUFFER_SIZE then cl_dispatch ?g else ?g)"
    using p by (simp add: acsm3Search_def i Let_def)
  show ?thesis
  proof (cases "length pend + 1 = PACKET_BUFFER_SIZE")
    case True
    with r cl_dispatch_inv [OF l' s' c'] show ?thesis
      by (intro exI [of _ "cl_dispatch ?g"] exI [of _ "[]"] exI [of _ "done @ pend @ [p]"])
        (simp add: PACKET_BUFFER_SIZE_def)
  next
    case False
    with r l' s' c' room show ?thesis
      by (intro exI [of _ ?g] exI [of _ "pend @ [p]"] exI [of _ "done"]) simp
  qed
qed

lemma acsm3_searches_inv:
  assumes "loaded ups g" and "slots g pend" and "counted ups g done"
    and "length pend < PACKET_BUFFER_SIZE" and "\<forall>p\<in>set ps. length p \<le> MAX_PACKET_SIZE"
  shows "\<exists>g' pend' done'. acsm3_searches g ps = Some g' \<and> loaded ups g' \<and> slots g' pend' \<and> counted ups g' done' \<and>
    done' @ pend' = done @ pend @ ps"
  using assms
proof (induction ps arbitrary: g pend "done")
  case Nil
  then show ?case by auto
next
  case (Cons p ps)
  then obtain g1 pend1 done1 where s: "acsm3Search g p = Some g1"
    and i: "loaded ups g1" "slots g1 pend1" "counted ups g1 done1" "length pend1 < PACKET_BUFFER_SIZE"
    and e: "done1 @ pend1 = done @ pend @ [p]"
    using acsm3Search_inv [of ups g pend "done" p] by (metis list.set_intros(1))
  from Cons.IH [OF i] Cons.prems(5) obtain g' pend' done' where
    "acsm3_searches g1 ps = Some g'" "loaded ups g'" "slots g' pend'" "counted ups g' done'"
    "done' @ pend' = done1 @ pend1 @ ps" by auto
  moreover have "done1 @ pend1 @ ps = done @ pend @ p # ps" using e by (metis append.assoc append_Cons append_Nil)
  ultimately show ?case using s by auto
qed

lemma acsm3_patterns:
  "fold (\<lambda>(p, nc, ng, i) g. acsm3AddPattern g p nc ng i) ups g =
    g\<lparr>machine := fold (\<lambda>(p, nc, ng, i) a. acsmAddPattern a p nc ng i) ups (machine g)\<rparr>"
  by (induction ups arbitrary: g) (auto simp: acsm3AddPattern_def)

section \<open>Properties\<close>





end
