(* ===== verification/Base64.thy ===== *)
theory Base64
  imports Snort_Prelude
begin

text \<open>
  The resumable encoder of \<^verbatim>\<open>src/helpers/base64_encoder.cc\<close> and the decoder \<^verbatim>\<open>sf_base64decode\<close> of
  \<^verbatim>\<open>src/mime/decode_b64.cc\<close>. Characters are bytes; output buffers are the lists of bytes written.
\<close>

unbundle bit_operations_syntax

section \<open>Encoder\<close>

datatype b64_step = step_A | step_B | step_C

record base64_encoder =
  step :: b64_step
  state :: u8

definition b64_encoding :: bytes where
  "b64_encoding =
     map of_nat ([65..<91] @ [97..<123] @ [48..<58] @ [43, 47])"

definition b64 :: "u8 \<Rightarrow> u8" where
  "b64 idx = b64_encoding ! unat idx"

definition base64_reset :: base64_encoder where
  "base64_reset = \<lparr>step = step_A, state = 0\<rparr>"

text \<open>The switch into the loop: one call per step, falling through to the next one.\<close>

fun base64_encode :: "base64_encoder \<Rightarrow> bytes \<Rightarrow> bytes \<times> base64_encoder" where
  "base64_encode e [] = ([], e)"
| "base64_encode e (fragment # data) =
     (case step e of
        step_A \<Rightarrow>
          (let s = drop_bit 2 (fragment AND 0xfc);
               (out, e') = base64_encode \<lparr>step = step_B, state = push_bit 4 (fragment AND 0x03)\<rparr> data
           in (b64 s # out, e'))
      | step_B \<Rightarrow>
          (let s = state e OR drop_bit 4 (fragment AND 0xf0);
               (out, e') = base64_encode \<lparr>step = step_C, state = push_bit 2 (fragment AND 0x0f)\<rparr> data
           in (b64 s # out, e'))
      | step_C \<Rightarrow>
          (let s = state e OR drop_bit 6 (fragment AND 0xc0);
               s' = fragment AND 0x3f;
               (out, e') = base64_encode \<lparr>step = step_A, state = s'\<rparr> data
           in (b64 s # b64 s' # out, e')))"

definition base64_finish :: "base64_encoder \<Rightarrow> bytes" where
  "base64_finish e =
     (case step e of
        step_B \<Rightarrow> [b64 (state e), 0x3d, 0x3d]
      | step_C \<Rightarrow> [b64 (state e), 0x3d]
      | step_A \<Rightarrow> [])"

section \<open>Decoder\<close>

definition sf_decode64tab :: "u8 list" where
  "sf_decode64tab =
     replicate 43 100 @ [62, 100, 100, 100, 63] @ map of_nat [52..<62] @ [100, 100, 100, 99, 100, 100, 100] @
     map of_nat [0..<26] @ replicate 6 100 @ map of_nat [26..<52] @ replicate 133 100"

abbreviation tab64 :: "u8 \<Rightarrow> u8" where
  "tab64 c \<equiv> sf_decode64tab ! unat c"

text \<open>
  \<open>quad\<close> is the part of \<^verbatim>\<open>base64data\<close> filled so far and \<open>n\<close> counts the characters kept. The result is
  \<open>(error, written)\<close>.
\<close>

definition b64_group :: "nat \<Rightarrow> bytes \<Rightarrow> bytes \<Rightarrow> (bool \<times> bytes) + bytes" where
  "b64_group outbuf_size quad out =
     (let a = quad ! 0; b = quad ! 1; c = quad ! 2; d = quad ! 3
      in if a = 0x3d \<or> b = 0x3d then Inl (True, out)
         else
           let out1 = (if length out < outbuf_size
                       then out @ [push_bit 2 (tab64 a) OR drop_bit 4 (tab64 b)] else out)
           in if c \<noteq> 0x3d \<and> length out1 < outbuf_size then
                let out2 = out1 @ [push_bit 4 (tab64 b) OR drop_bit 2 (tab64 c)]
                in if d \<noteq> 0x3d \<and> length out2 < outbuf_size then
                     Inr (out2 @ [push_bit 6 (tab64 c) OR tab64 d])
                   else Inl (False, out2)
              else Inl (False, out1))"

fun b64_loop :: "nat \<Rightarrow> nat \<Rightarrow> bytes \<Rightarrow> nat \<Rightarrow> bytes \<Rightarrow> bytes \<Rightarrow> bool \<times> bytes" where
  "b64_loop outbuf_size max_chars quad n out [] = (False, out)"
| "b64_loop outbuf_size max_chars quad n out (c # cs) =
     (if n < max_chars then
        if tab64 c \<noteq> 100 then
          let quad' = quad @ [c]; n' = n + 1
          in if n' mod 4 = 0 then
               (case b64_group outbuf_size quad' out of
                  Inl r \<Rightarrow> r
                | Inr out' \<Rightarrow> b64_loop outbuf_size max_chars [] n' out' cs)
             else b64_loop outbuf_size max_chars quad' n' out cs
        else b64_loop outbuf_size max_chars quad n out cs
      else (False, out))"

text \<open>\<open>Inl\<close> is the return value \<^verbatim>\<open>-1\<close> with the bytes written up to the error.\<close>

definition sf_base64decode :: "bytes \<Rightarrow> nat \<Rightarrow> bytes + bytes" where
  "sf_base64decode inbuf outbuf_size =
     (case b64_loop outbuf_size ((outbuf_size div 3) * 4 + 4) [] 0 [] inbuf of
        (True, out) \<Rightarrow> Inl out
      | (False, out) \<Rightarrow> Inr out)"

section \<open>Tables\<close>

lemma b64_tables:
  assumes "i < 64"
  shows "tab64 (b64 i) = i" "b64 i \<noteq> 0x3d"
proof -
  have "\<forall>k\<in>set [0..<64]. tab64 (b64 (of_nat k)) = of_nat k \<and> b64 (of_nat k) \<noteq> 0x3d"
    by code_simp
  moreover have "i = of_nat (unat i)" "unat i \<in> set [0..<64]"
    using assms by (simp_all add: word_less_nat_alt)
  ultimately show "tab64 (b64 i) = i" "b64 i \<noteq> 0x3d" by metis+
qed

lemma tab64_pad: "tab64 0x3d = 99"
  by code_simp

lemma u8_eqI:
  fixes x y :: u8
  assumes "bit x 0 = bit y 0" "bit x 1 = bit y 1" "bit x 2 = bit y 2" "bit x 3 = bit y 3"
    "bit x 4 = bit y 4" "bit x 5 = bit y 5" "bit x 6 = bit y 6" "bit x 7 = bit y 7"
  shows "x = y"
proof (rule bit_word_eqI)
  fix n
  assume "n < LENGTH(8)"
  then consider "n = 0" | "n = 1" | "n = 2" | "n = 3" | "n = 4" | "n = 5" | "n = 6" | "n = 7" by fastforce
  then show "bit x n = bit y n" by cases (use assms in simp_all)
qed

lemma b64_bits:
  fixes x y z :: u8
  shows "push_bit 2 (drop_bit 2 (x AND 0xfc)) OR drop_bit 4 (push_bit 4 (x AND 0x03) OR drop_bit 4 (y AND 0xf0)) = x"
    "push_bit 4 (push_bit 4 (x AND 0x03) OR drop_bit 4 (y AND 0xf0)) OR
      drop_bit 2 (push_bit 2 (y AND 0x0f) OR drop_bit 6 (z AND 0xc0)) = y"
    "push_bit 6 (push_bit 2 (y AND 0x0f) OR drop_bit 6 (z AND 0xc0)) OR (z AND 0x3f) = z"
  by (rule u8_eqI; simp add: bit_and_iff bit_or_iff bit_push_bit_iff bit_drop_bit_eq)+

section \<open>Reference encoding and encoder correctness\<close>

definition quad1 :: "u8 \<Rightarrow> u8" where
  "quad1 x = drop_bit 2 (x AND 0xfc)"

definition quad2 :: "u8 \<Rightarrow> u8 \<Rightarrow> u8" where
  "quad2 x y = push_bit 4 (x AND 0x03) OR drop_bit 4 (y AND 0xf0)"

definition quad3 :: "u8 \<Rightarrow> u8 \<Rightarrow> u8" where
  "quad3 y z = push_bit 2 (y AND 0x0f) OR drop_bit 6 (z AND 0xc0)"

definition quad4 :: "u8 \<Rightarrow> u8" where
  "quad4 z = z AND 0x3f"

fun base64_spec :: "bytes \<Rightarrow> bytes" where
  "base64_spec [] = []"
| "base64_spec [x] = [b64 (quad1 x), b64 (quad2 x 0), 0x3d, 0x3d]"
| "base64_spec [x, y] = [b64 (quad1 x), b64 (quad2 x y), b64 (quad3 y 0), 0x3d]"
| "base64_spec (x # y # z # r) = [b64 (quad1 x), b64 (quad2 x y), b64 (quad3 y z), b64 (quad4 z)] @ base64_spec r"

lemma quads_less: "quad1 x < 64" "quad2 x y < 64" "quad3 y z < 64" "quad4 z < 64"
proof -
  have le: "w AND 0x3f = w \<Longrightarrow> w < 64" for w :: u8
    using word_and_le1 [of w "0x3f"] by (simp add: word_le_nat_alt word_less_nat_alt)
  show "quad1 x < 64" "quad2 x y < 64" "quad3 y z < 64" "quad4 z < 64"
    by (rule le, rule u8_eqI;
        simp add: quad1_def quad2_def quad3_def quad4_def bit_and_iff bit_or_iff bit_push_bit_iff bit_drop_bit_eq)+
qed

lemmas b64_quads [simp] =
  b64_tables [OF quads_less(1)] b64_tables [OF quads_less(2)] b64_tables [OF quads_less(3)]
  b64_tables [OF quads_less(4)]

lemma quads_join:
  "push_bit 2 (quad1 x) OR drop_bit 4 (quad2 x y) = x"
  "push_bit 4 (quad2 x y) OR drop_bit 2 (quad3 y z) = y"
  "push_bit 6 (quad3 y z) OR quad4 z = z"
  by (simp_all only: quad1_def quad2_def quad3_def quad4_def b64_bits)

lemma length_base64_spec: "length (base64_spec xs) = 4 * ((length xs + 2) div 3)"
  by (induction xs rule: base64_spec.induct) (simp_all, presburger)

lemma base64_encode_append:
  "base64_encode e (xs @ ys) =
    (let (out1, e1) = base64_encode e xs; (out2, e2) = base64_encode e1 ys in (out1 @ out2, e2))"
  by (induction e xs rule: base64_encode.induct)
    (auto simp: Let_def split: b64_step.splits prod.splits)

lemma base64_finish_A: "step e = step_A \<Longrightarrow> base64_finish e = []"
  by (simp add: base64_finish_def)

lemma base64_encode_spec:
  "step e = step_A \<Longrightarrow> (case base64_encode e xs of (out, e') \<Rightarrow> out @ base64_finish e') = base64_spec xs"
proof (induction xs arbitrary: e rule: base64_spec.induct)
  case (4 x y z r)
  from "4.prems" "4.IH" [of "\<lparr>step = step_A, state = z AND 0x3f\<rparr>"] show ?case
    by (simp add: Let_def quad1_def quad2_def quad3_def quad4_def split: prod.splits)
qed (simp_all add: Let_def base64_finish_def quad1_def quad2_def quad3_def)

text \<open>A message encoded in pieces: one call of \<^verbatim>\<open>encode\<close> per piece, then \<^verbatim>\<open>finish\<close>.\<close>

fun base64_pieces :: "base64_encoder \<Rightarrow> bytes list \<Rightarrow> bytes" where
  "base64_pieces e [] = base64_finish e"
| "base64_pieces e (p # ps) = (let (out, e') = base64_encode e p in out @ base64_pieces e' ps)"

lemma base64_pieces_concat:
  "base64_pieces e ps = (case base64_encode e (concat ps) of (out, e') \<Rightarrow> out @ base64_finish e')"
  by (induction ps arbitrary: e) (auto simp: base64_encode_append Let_def split: prod.splits)

section \<open>Decoder correctness\<close>

lemma b64_loop_stop: "mx \<le> n \<Longrightarrow> b64_loop sz mx quad n out cs = (False, out)"
  by (cases cs) simp_all

lemma b64_loop_strip:
  "b64_loop sz mx quad n out cs = b64_loop sz mx quad n out (filter (\<lambda>c. tab64 c \<noteq> 100) cs)"
  by (induction sz mx quad n out cs rule: b64_loop.induct)
    (auto simp: Let_def b64_loop_stop split: sum.split)

lemma quads_valid:
  "tab64 (b64 (quad1 x)) \<noteq> 100" "tab64 (b64 (quad2 x y)) \<noteq> 100" "tab64 (b64 (quad3 y z)) \<noteq> 100"
  "tab64 (b64 (quad4 z)) \<noteq> 100"
proof -
  have "q < 64 \<Longrightarrow> q \<noteq> 100" for q :: u8 by auto
  from this [OF quads_less(1)] this [OF quads_less(2)] this [OF quads_less(3)] this [OF quads_less(4)]
  show "tab64 (b64 (quad1 x)) \<noteq> 100" "tab64 (b64 (quad2 x y)) \<noteq> 100"
    "tab64 (b64 (quad3 y z)) \<noteq> 100" "tab64 (b64 (quad4 z)) \<noteq> 100" by simp_all
qed

lemma b64_group_full:
  assumes "length out + 3 \<le> sz"
  shows "b64_group sz [b64 (quad1 x), b64 (quad2 x y), b64 (quad3 y z), b64 (quad4 z)] out = Inr (out @ [x, y, z])"
  using assms by (simp add: b64_group_def quads_join)

lemma b64_group_pad:
  "length out + 2 \<le> sz \<Longrightarrow>
    b64_group sz [b64 (quad1 x), b64 (quad2 x y), b64 (quad3 y z), 0x3d] out = Inl (False, out @ [x, y])"
  "length out + 1 \<le> sz \<Longrightarrow>
    b64_group sz [b64 (quad1 x), b64 (quad2 x y), 0x3d, 0x3d] out = Inl (False, out @ [x])"
  by (simp_all add: b64_group_def quads_join)

lemma b64_loop_quad:
  assumes "n mod 4 = 0" and "Suc (Suc (Suc (Suc n))) \<le> mx" and "\<forall>q\<in>{q1, q2, q3, q4}. tab64 q \<noteq> 100"
  shows "b64_loop sz mx [] n out (q1 # q2 # q3 # q4 # cs) =
    (case b64_group sz [q1, q2, q3, q4] out of
       Inl r \<Rightarrow> r | Inr out' \<Rightarrow> b64_loop sz mx [] (Suc (Suc (Suc (Suc n)))) out' cs)"
proof -
  from assms(1) have "Suc n mod 4 = 1" "Suc (Suc n) mod 4 = 2" "Suc (Suc (Suc n)) mod 4 = 3"
    "Suc (Suc (Suc (Suc n))) mod 4 = 0" by presburger+
  with assms(2,3) show ?thesis by simp
qed

lemma b64_loop_spec:
  assumes "n mod 4 = 0" and "n + length (base64_spec xs) \<le> mx" and "length out + length xs \<le> sz"
  shows "b64_loop sz mx [] n out (base64_spec xs) = (False, out @ xs)"
  using assms
proof (induction xs arbitrary: n out rule: base64_spec.induct)
  case (4 x y z r)
  then show ?case
    by (simp add: b64_loop_quad quads_valid b64_group_full del: b64_loop.simps b64_quads)
qed (simp_all add: b64_loop_quad quads_valid b64_group_pad tab64_pad [simplified] del: b64_loop.simps(2) b64_quads)

lemma sf_base64decode_spec:
  assumes spec: "filter (\<lambda>c. tab64 c \<noteq> 100) cs = base64_spec xs" and "length xs \<le> sz"
  shows "sf_base64decode cs sz = Inr xs"
proof -
  let ?mx = "(sz div 3) * 4 + 4"
  have "(length xs + 2) div 3 \<le> sz div 3 + 1" using assms(2) by presburger
  then have "length (base64_spec xs) \<le> ?mx" by (simp add: length_base64_spec)
  with assms(2) have "b64_loop sz ?mx [] 0 [] (base64_spec xs) = (False, xs)"
    using b64_loop_spec [of 0 xs ?mx "[]" sz] by simp
  then show ?thesis
    by (simp only: sf_base64decode_def b64_loop_strip [of sz ?mx "[]" 0 "[]" cs] spec) simp
qed

lemma base64_spec_valid: "c \<in> set (base64_spec xs) \<Longrightarrow> tab64 c \<noteq> 100"
  by (induction xs rule: base64_spec.induct) (auto simp: quads_valid tab64_pad [simplified] simp del: b64_quads)

lemma base64_spec_filter [simp]: "filter (\<lambda>c. tab64 c \<noteq> 100) (base64_spec xs) = base64_spec xs"
  by (rule filter_True) (simp add: base64_spec_valid)

lemma base64_spec_drop: "drop (4 * k) (base64_spec xs) = base64_spec (drop (3 * k) xs)"
proof (induction k arbitrary: xs)
  case (Suc k)
  show ?case
  proof (cases xs rule: base64_spec.cases)
    case (4 x y z r)
    have "4 * Suc k = Suc (Suc (Suc (Suc (4 * k))))" "3 * Suc k = Suc (Suc (Suc (3 * k)))" by simp_all
    with Suc [of r] 4 show ?thesis by (simp only: base64_spec.simps append_Cons append_Nil take_Suc_Cons drop_Suc_Cons)
  qed simp_all
qed simp

lemma base64_spec_take: "take (4 * k) (base64_spec xs) = base64_spec (take (3 * k) xs)"
proof (induction k arbitrary: xs)
  case (Suc k)
  show ?case
  proof (cases xs rule: base64_spec.cases)
    case (4 x y z r)
    have "4 * Suc k = Suc (Suc (Suc (Suc (4 * k))))" "3 * Suc k = Suc (Suc (Suc (3 * k)))" by simp_all
    with Suc [of r] 4 show ?thesis by (simp only: base64_spec.simps append_Cons append_Nil take_Suc_Cons drop_Suc_Cons)
  qed simp_all
qed simp

section \<open>Properties\<close>

text \<open>
  C13. The encoder implements Base64. However a message is cut into pieces (empty ones included),
  the concatenated outputs of \<^verbatim>\<open>encode\<close> and \<^verbatim>\<open>finish\<close> are the Base64 text of the whole message: four
  characters per three bytes, padded with \<^verbatim>\<open>=\<close>.
\<close>

theorem base64_pieces_correct: "base64_pieces base64_reset ps = base64_spec (concat ps)"
  by (simp add: base64_pieces_concat base64_encode_spec base64_reset_def)



end
