(* ===== verification/Text_Utils.thy ===== *)
theory Text_Utils
  imports Snort_Prelude "HOL-Library.Sublist"
begin

text \<open>
  Buffer utilities of \<^verbatim>\<open>src/utils/util_unfold.cc\<close> and the bounded substring searches of
  \<^verbatim>\<open>src/utils/util_cstring.cc\<close>. An output buffer of a given size is the list of bytes written so
  far; a write outside of it makes the result \<open>None\<close>.
\<close>

section \<open>Unfolding and stripping\<close>

definition blank :: "u8 \<Rightarrow> bool" where
  "blank c \<longleftrightarrow> c = 0x20 \<or> c = 0x09"

definition line_end :: "u8 \<Rightarrow> bool" where
  "line_end c \<longleftrightarrow> c = 0x0a \<or> c = 0x0d"

text \<open>
  \<open>n\<close> is the counter of the code, which does not count blanks; \<open>hf\<close> is \<^verbatim>\<open>httpheaderfolding\<close>,
  \<open>fp\<close> is \<^verbatim>\<open>folding_present\<close> and \<open>ns\<close> is \<^verbatim>\<open>num_spaces\<close>.
\<close>

fun unfold_loop ::
  "nat \<Rightarrow> bool \<Rightarrow> nat \<Rightarrow> nat \<Rightarrow> bool \<Rightarrow> nat \<Rightarrow> bytes \<Rightarrow> bytes \<Rightarrow> (nat \<times> nat \<times> bytes) option"
where
  "unfold_loop sz trim n hf fp ns out [] = Some (n, ns, out)"
| "unfold_loop sz trim n hf fp ns out (c # cs) =
     (if n < sz then
        if blank c then
          let ns1 = (if fp then ns + 1 else ns)
          in if hf \<noteq> 0 then unfold_loop sz trim n 0 True (ns1 + 1) out cs
             else if \<not> trim then
               if length out < sz then unfold_loop sz trim n hf fp ns1 (out @ [c]) cs else None
             else unfold_loop sz trim n hf fp ns1 out cs
        else if c = 0x0a \<and> hf \<noteq> 1 then unfold_loop sz trim n 1 fp ns out cs
        else if c = 0x0d \<and> hf = 0 then unfold_loop sz trim n 2 fp ns out cs
        else if hf = 0 then
          if length out < sz then unfold_loop sz trim (n + 1) hf fp ns (out @ [c]) cs else None
        else Some (n, ns, out)
      else Some (n, ns, out))"

text \<open>The terminating zero goes behind the output while \<open>n\<close> is small, else into the last byte.\<close>

definition sf_unfold_header :: "bytes \<Rightarrow> nat \<Rightarrow> bool \<Rightarrow> (bytes \<times> nat) option" where
  "sf_unfold_header inbuf outbuf_size trim =
     (case unfold_loop outbuf_size trim 0 0 False 0 [] inbuf of
        None \<Rightarrow> None
      | Some (n, ns, out) \<Rightarrow>
          if n < outbuf_size then if length out < outbuf_size then Some (out, ns) else None
          else if outbuf_size = 0 then None
          else Some (out[outbuf_size - 1 := 0], ns))"

fun strip_CRLF_loop :: "nat \<Rightarrow> bytes \<Rightarrow> bytes \<Rightarrow> bytes" where
  "strip_CRLF_loop sz out [] = out"
| "strip_CRLF_loop sz out (c # cs) =
     (if length out < sz then strip_CRLF_loop sz (if \<not> line_end c then out @ [c] else out) cs else out)"

definition sf_strip_CRLF :: "bytes \<Rightarrow> nat \<Rightarrow> bytes" where
  "sf_strip_CRLF inbuf outbuf_size = strip_CRLF_loop outbuf_size [] inbuf"

fun strip_LWS_loop :: "nat \<Rightarrow> bool \<Rightarrow> bytes \<Rightarrow> bytes \<Rightarrow> bytes" where
  "strip_LWS_loop sz lws out [] = out"
| "strip_LWS_loop sz lws out (c # cs) =
     (if length out < sz then
        if \<not> line_end c then strip_LWS_loop sz (blank c) (out @ [c]) cs
        else strip_LWS_loop sz False ((if lws then rev (dropWhile blank (rev out)) else out) @ [c]) cs
      else out)"

definition sf_strip_LWS :: "bytes \<Rightarrow> nat \<Rightarrow> bytes" where
  "sf_strip_LWS inbuf outbuf_size = strip_LWS_loop outbuf_size False [] inbuf"

section \<open>Substring search\<close>

text \<open>
  \<open>f\<close> is the identity for \<^verbatim>\<open>SnortStrnStr\<close> and \<^verbatim>\<open>tolower\<close> for \<^verbatim>\<open>SnortStrcasestr\<close>; \<open>ch\<close> is the first and
  \<open>rest\<close> the other bytes of the needle. The result is the offset of the match.
\<close>

fun strn_search :: "(u8 \<Rightarrow> u8) \<Rightarrow> u8 \<Rightarrow> bytes \<Rightarrow> bytes \<Rightarrow> nat option" where
  "strn_search f ch rest [] = None"
| "strn_search f ch rest (nc # s) =
     (if nc = 0 \<or> s = [] then None
      else if f nc \<noteq> ch then map_option Suc (strn_search f ch rest s)
      else if length s < length rest then None
      else if map f (take (length rest) s) = map f rest then Some 0
      else map_option Suc (strn_search f ch rest s))"

definition SnortStrnStr :: "bytes \<Rightarrow> bytes \<Rightarrow> nat option" where
  "SnortStrnStr s searchstr =
     (if s = [] \<or> hd s = 0 then None
      else case searchstr of [] \<Rightarrow> Some 0 | ch # rest \<Rightarrow> strn_search (\<lambda>c. c) ch rest s)"

definition tolower_u8 :: "u8 \<Rightarrow> u8" where
  "tolower_u8 c = (if 0x41 \<le> c \<and> c \<le> 0x5a then c + 0x20 else c)"

definition SnortStrcasestr :: "bytes \<Rightarrow> bytes \<Rightarrow> nat option" where
  "SnortStrcasestr s substr =
     (if s = [] \<or> hd s = 0 then None
      else case substr of [] \<Rightarrow> Some 0 | ch # rest \<Rightarrow> strn_search tolower_u8 (tolower_u8 ch) rest s)"

section \<open>Lemmas\<close>

lemma strip_CRLF_loop_eq:
  "length out \<le> sz \<Longrightarrow>
    strip_CRLF_loop sz out cs = out @ take (sz - length out) (filter (\<lambda>c. \<not> line_end c) cs)"
proof (induction cs arbitrary: out)
  case (Cons c cs)
  show ?case
  proof (cases "length out < sz")
    case True
    then have "sz - length out = Suc (sz - Suc (length out))" by simp
    with True Cons show ?thesis by simp
  qed (use Cons.prems in simp)
qed simp

lemma sf_strip_CRLF_eq: "sf_strip_CRLF cs sz = take sz (filter (\<lambda>c. \<not> line_end c) cs)"
  by (simp add: sf_strip_CRLF_def strip_CRLF_loop_eq)

lemma length_dropWhile_rev: "length (rev (dropWhile P (rev xs))) \<le> length xs"
  using length_dropWhile_le [of P "rev xs"] by simp

lemma strip_LWS_loop_length:
  "length out \<le> sz \<Longrightarrow> length (strip_LWS_loop sz lws out cs) \<le> sz"
proof (induction cs arbitrary: lws out)
  case (Cons c cs)
  have "Suc (length (dropWhile blank (rev out))) \<le> sz" if "length out < sz"
    using that length_dropWhile_le [of blank "rev out"] by simp
  with Cons show ?case by simp
qed simp

lemma sf_strip_LWS_length: "length (sf_strip_LWS cs sz) \<le> sz"
  by (simp add: sf_strip_LWS_def strip_LWS_loop_length)

lemma unfold_loop_trim:
  "length out \<le> sz \<Longrightarrow>
    \<exists>ns' out'. unfold_loop sz True (length out) hf fp ns out cs = Some (length out', ns', out') \<and> length out' \<le> sz"
proof (induction cs arbitrary: hf fp ns out)
  case (Cons c cs)
  note IH = Cons.IH [of out] Cons.IH [of "out @ [c]"]
  from Cons.prems IH(1) IH(2) show ?case
    by (simp add: Let_def)
qed simp

text \<open>The first offset at which the needle occurs under \<open>f\<close>.\<close>

definition occurs_at :: "(u8 \<Rightarrow> u8) \<Rightarrow> bytes \<Rightarrow> bytes \<Rightarrow> nat \<Rightarrow> bool" where
  "occurs_at f needle s i \<longleftrightarrow> i + length needle \<le> length s \<and> map f (take (length needle) (drop i s)) = needle"

lemma occurs_at_0: "occurs_at f (c # cs) (x # s) 0 \<longleftrightarrow> f x = c \<and> length cs \<le> length s \<and> map f (take (length cs) s) = cs"
  by (auto simp: occurs_at_def)

lemma occurs_at_Suc [simp]: "occurs_at f needle (x # s) (Suc i) \<longleftrightarrow> occurs_at f needle s i"
  by (simp add: occurs_at_def)

lemma strn_search_some:
  "strn_search f ch rest s = Some i \<Longrightarrow> occurs_at f (ch # map f rest) s i \<and> (\<forall>j<i. \<not> occurs_at f (ch # map f rest) s j)"
proof (induction f ch rest s arbitrary: i rule: strn_search.induct)
  case (2 f ch rest nc s)
  then show ?case
    by (auto simp: occurs_at_0 less_Suc_eq_0_disj split: if_splits)
qed simp

lemma strn_search_none:
  assumes "strn_search f ch rest s = None" and "0 \<notin> set s" and "rest \<noteq> [] \<or> Suc i < length s"
  shows "\<not> occurs_at f (ch # map f rest) s i"
  using assms
proof (induction f ch rest s arbitrary: i rule: strn_search.induct)
  case (1 f ch rest)
  then show ?case by (simp add: occurs_at_def)
next
  case (2 f ch rest nc s)
  show ?case
  proof (cases i)
    case 0
    with "2.prems" show ?thesis by (auto simp: occurs_at_0 split: if_splits)
  next
    case (Suc k)
    then show ?thesis
    proof (cases "f nc = ch \<and> length s < length rest \<or> s = []")
      case True
      with Suc show ?thesis by (auto simp: occurs_at_def)
    next
      case False
      with "2.prems" Suc have "strn_search f ch rest s = None" "0 \<notin> set s" "rest \<noteq> [] \<or> Suc k < length s"
        by (auto split: if_splits)
      with "2.IH" "2.prems" False Suc show ?thesis by (auto split: if_splits)
    qed
  qed
qed

lemma strn_search_not_last: "strn_search f ch rest s = Some i \<Longrightarrow> Suc i < length s"
  by (induction f ch rest s arbitrary: i rule: strn_search.induct) (auto split: if_splits)

lemma strn_search_iff:
  assumes "0 \<notin> set s"
  shows "strn_search f ch rest s = Some i \<longleftrightarrow>
    occurs_at f (ch # map f rest) s i \<and> (\<forall>j<i. \<not> occurs_at f (ch # map f rest) s j) \<and>
    (rest = [] \<longrightarrow> Suc i < length s)"
proof
  assume "strn_search f ch rest s = Some i"
  then show "occurs_at f (ch # map f rest) s i \<and> (\<forall>j<i. \<not> occurs_at f (ch # map f rest) s j) \<and>
    (rest = [] \<longrightarrow> Suc i < length s)"
    using strn_search_some strn_search_not_last by blast
next
  assume i: "occurs_at f (ch # map f rest) s i \<and> (\<forall>j<i. \<not> occurs_at f (ch # map f rest) s j) \<and>
    (rest = [] \<longrightarrow> Suc i < length s)"
  with strn_search_none [OF _ assms, of f ch rest i] obtain k where k: "strn_search f ch rest s = Some k"
    by fastforce
  from strn_search_some [OF k] i have "k = i" by (metis nat_neq_iff)
  with k show "strn_search f ch rest s = Some i" by simp
qed

lemma unfold_loop_blanks:
  "length out \<le> sz \<Longrightarrow> 0 < sz \<Longrightarrow>
    unfold_loop sz False 0 0 False 0 out (replicate k 0x20) =
      (if length out + k \<le> sz then Some (0, 0, out @ replicate k 0x20) else None)"
proof (induction k arbitrary: out)
  case (Suc k)
  then show ?case by (cases "length out < sz") (simp_all add: blank_def)
qed simp

section \<open>Properties\<close>



text \<open>
  Header unfolding writes past its buffer. Blanks are copied without being counted, so a
  header of \<open>k\<close> blanks stays inside an output buffer of \<open>sz\<close> bytes only if \<open>k < sz\<close>, however long the
  header: with the blanks trimmed the function is safe.
\<close>

theorem unfold_header_overrun:
  assumes "0 < sz"
  shows "(sf_unfold_header (replicate k 0x20) sz False = None \<longleftrightarrow> sz \<le> k) \<and> sf_unfold_header inbuf sz True \<noteq> None"
proof
  show "sf_unfold_header (replicate k 0x20) sz False = None \<longleftrightarrow> sz \<le> k"
    using assms by (simp add: sf_unfold_header_def unfold_loop_blanks)
  show "sf_unfold_header inbuf sz True \<noteq> None"
    using assms unfold_loop_trim [of "[]" sz 0 False 0 inbuf] by (auto simp: sf_unfold_header_def)
qed

theorem unfold_header_overrun_witness: "sf_unfold_header (replicate 5 0x20) 4 False = None"
  using unfold_header_overrun [of 4 5] by simp

end
