(* ===== verification/Mime_Decode.thy ===== *)
theory Mime_Decode
  imports Base64 Text_Utils
begin

text \<open>
  The attachment decoders of \<^verbatim>\<open>src/mime\<close>: \<^verbatim>\<open>DecodeBuffer\<close>, the base class \<^verbatim>\<open>DataDecode\<close> and its
  subclasses for Base64, quoted-printable, uuencode and raw data, with the dispatch of
  \<^verbatim>\<open>MimeDecode\<close>. Buffers are byte lists of the allocated size and counters are 32-bit words. An
  access outside a buffer makes a result \<open>None\<close>, so that memory safety is a theorem. The
  data a decoder hands out is kept in \<open>decodePtr\<close>.
\<close>

section \<open>Memory\<close>

definition mem_write :: "bytes \<Rightarrow> nat \<Rightarrow> bytes \<Rightarrow> bytes option" where
  "mem_write buf off xs =
     (if off + length xs \<le> length buf then Some (take off buf @ xs @ drop (off + length xs) buf) else None)"

section \<open>DecodeBuffer\<close>

record decode_buffer =
  buf_size :: u32
  prev_encoded_bytes :: u32
  prev_encoded_buf :: "nat option"
  encodeBuf :: "bytes option"
  decodeBuf :: "bytes option"
  encode_bytes_read :: u32
  buf_decode_bytes_read :: u32
  code_depth :: int

definition decode_buffer_new :: "int \<Rightarrow> decode_buffer" where
  "decode_buffer_new max_depth =
     (let sz = (if max_depth = 0 then 65536 else of_int max_depth);
          mem = (if max_depth < 0 then None else Some (replicate (unat sz) 0))
      in \<lparr>buf_size = sz, prev_encoded_bytes = 0, prev_encoded_buf = None, encodeBuf = mem, decodeBuf = mem,
          encode_bytes_read = 0, buf_decode_bytes_read = 0, code_depth = max_depth\<rparr>)"

definition reset_saved :: "decode_buffer \<Rightarrow> decode_buffer" where
  "reset_saved b = b\<lparr>prev_encoded_bytes := 0, prev_encoded_buf := None\<rparr>"

definition get_decode_avail :: "decode_buffer \<Rightarrow> u32" where
  "get_decode_avail b = (if code_depth b = 0 then buf_size b else of_int (code_depth b) - buf_decode_bytes_read b)"

definition get_encode_avail :: "decode_buffer \<Rightarrow> u32" where
  "get_encode_avail b = (if code_depth b = 0 then buf_size b else of_int (code_depth b) - encode_bytes_read b)"

text \<open>The saved bytes lie in the encode buffer itself, at offset \<open>off\<close>; they are copied forwards.\<close>

fun restore_loop :: "nat \<Rightarrow> nat \<Rightarrow> nat \<Rightarrow> bytes \<Rightarrow> bytes option" where
  "restore_loop off i 0 buf = Some buf"
| "restore_loop off i (Suc k) buf =
     (if i < length buf \<and> off + i < length buf then restore_loop off (i + 1) k (buf[i := buf ! (off + i)])
      else None)"

text \<open>\<open>None\<close> is an access outside the buffer; otherwise the returned boolean and the new state.\<close>

definition check_restore_buffer :: "decode_buffer \<Rightarrow> (bool \<times> decode_buffer) option" where
  "check_restore_buffer b =
     (case (encodeBuf b, decodeBuf b) of
        (Some e, Some d) \<Rightarrow>
          if get_encode_avail b = 0 \<or> get_decode_avail b = 0 then Some (False, b)
          else if prev_encoded_bytes b = 0 then Some (True, b)
          else
            let b1 = (if prev_encoded_bytes b > get_encode_avail b
                      then b\<lparr>prev_encoded_bytes := get_encode_avail b\<rparr> else b)
            in (case prev_encoded_buf b1 of
                  None \<Rightarrow> None
                | Some off \<Rightarrow>
                    (case restore_loop off 0 (unat (prev_encoded_bytes b1)) e of
                       None \<Rightarrow> None
                     | Some e' \<Rightarrow> Some (True, b1\<lparr>encodeBuf := Some e'\<rparr>)))
      | _ \<Rightarrow> Some (False, b))"

definition update_buffer :: "u32 \<Rightarrow> u32 \<Rightarrow> decode_buffer \<Rightarrow> decode_buffer" where
  "update_buffer act_encode act_decode b =
     b\<lparr>encode_bytes_read := encode_bytes_read b + act_encode,
       buf_decode_bytes_read := buf_decode_bytes_read b + act_decode\<rparr>"

definition save_buffer :: "nat \<Rightarrow> u32 \<Rightarrow> decode_buffer \<Rightarrow> decode_buffer" where
  "save_buffer off n b = b\<lparr>prev_encoded_bytes := n, prev_encoded_buf := Some off\<rparr>"

section \<open>DataDecode\<close>

datatype decode_result = DECODE_SUCCESS | DECODE_EXCEEDED | DECODE_FAIL

record data_decode =
  decoded_bytes :: u32
  decode_bytes_read :: u32
  decodePtr :: "bytes option"
  detection_depth :: int

definition data_decode_new :: "int \<Rightarrow> data_decode" where
  "data_decode_new detect = \<lparr>decoded_bytes = 0, decode_bytes_read = 0, decodePtr = None, detection_depth = detect\<rparr>"

definition reset_decoded_bytes :: "'a data_decode_scheme \<Rightarrow> 'a data_decode_scheme" where
  "reset_decoded_bytes d = d\<lparr>decodePtr := None, decoded_bytes := 0\<rparr>"

definition get_detection_depth :: "'a data_decode_scheme \<Rightarrow> int" where
  "get_detection_depth d =
     (let depth = detection_depth d; rd = int (unat (decode_bytes_read d)); n = int (unat (decoded_bytes d))
      in if depth = 0 then n
         else if depth < rd - n then 0
         else if depth > rd then n
         else depth + n - rd)"

definition get_decoded_data :: "'a data_decode_scheme \<Rightarrow> bytes option" where
  "get_decoded_data d = (if decoded_bytes d = 0 then None else decodePtr d)"

text \<open>What the three buffered decoders do after a successful decoding step.\<close>

record buffered_decode = data_decode +
  dbuffer :: decode_buffer

definition buffered_new :: "int \<Rightarrow> int \<Rightarrow> buffered_decode" where
  "buffered_new max_depth detect =
     data_decode.extend (data_decode_new detect) \<lparr>dbuffer = decode_buffer_new max_depth\<rparr>"

definition reset_decode_state :: "'a buffered_decode_scheme \<Rightarrow> 'a buffered_decode_scheme" where
  "reset_decode_state d = (reset_decoded_bytes d)\<lparr>dbuffer := reset_saved (dbuffer d)\<rparr>"

definition deliver ::
  "nat \<Rightarrow> bytes \<Rightarrow> decode_buffer \<Rightarrow> 'a buffered_decode_scheme \<Rightarrow> (decode_result \<times> 'a buffered_decode_scheme) option"
where
  "deliver act_encode out b d =
     (case decodeBuf b of
        None \<Rightarrow> None
      | Some db \<Rightarrow>
          (case mem_write db 0 out of
             None \<Rightarrow> None
           | Some db' \<Rightarrow>
               let b' = update_buffer (of_nat act_encode) (of_nat (length out)) (b\<lparr>decodeBuf := Some db'\<rparr>)
               in Some (DECODE_SUCCESS,
                    d\<lparr>decoded_bytes := of_nat (length out), decodePtr := Some out,
                      decode_bytes_read := buf_decode_bytes_read b', dbuffer := b'\<rparr>)))"

section \<open>Base64\<close>

definition b64_decode_data :: "buffered_decode \<Rightarrow> bytes \<Rightarrow> (decode_result \<times> buffered_decode) option" where
  "b64_decode_data d data =
     (case check_restore_buffer (dbuffer d) of
        None \<Rightarrow> None
      | Some (False, b) \<Rightarrow> Some (DECODE_EXCEEDED, reset_decode_state (d\<lparr>dbuffer := b\<rparr>))
      | Some (True, b) \<Rightarrow>
          (let prev = unat (prev_encoded_bytes b);
               encode_avail = get_encode_avail b - prev_encoded_bytes b;
               stripped = sf_strip_CRLF data (unat encode_avail)
           in case mem_write (the (encodeBuf b)) prev stripped of
                None \<Rightarrow> None
              | Some e \<Rightarrow>
                  (let act = length stripped + prev;
                       i = act mod 4;
                       act' = act - i;
                       b1 = b\<lparr>encodeBuf := Some e\<rparr>;
                       b2 = (if i \<noteq> 0 then save_buffer act' (of_nat i) b1 else reset_saved b1)
                   in case sf_base64decode (take act' e) (unat (get_decode_avail b2)) of
                        Inl _ \<Rightarrow> Some (DECODE_FAIL, reset_decode_state (d\<lparr>dbuffer := b2\<rparr>))
                      | Inr out \<Rightarrow>
                          if out = [] \<and> encode_avail = 0
                          then Some (DECODE_FAIL, reset_decode_state (d\<lparr>dbuffer := b2\<rparr>))
                          else deliver act' out b2 d)))"

section \<open>Quoted-printable\<close>

definition isxdigit :: "u8 \<Rightarrow> bool" where
  "isxdigit c \<longleftrightarrow> 0x30 \<le> c \<and> c \<le> 0x39 \<or> 0x41 \<le> c \<and> c \<le> 0x46 \<or> 0x61 \<le> c \<and> c \<le> 0x66"

definition hexval :: "u8 \<Rightarrow> u8" where
  "hexval c = (if c \<le> 0x39 then c - 0x30 else if c \<le> 0x46 then c - 0x37 else c - 0x57)"

definition isprint :: "u8 \<Rightarrow> bool" where
  "isprint c \<longleftrightarrow> 0x20 \<le> c \<and> c \<le> 0x7e"

text \<open>
  The loop over the source: the bytes not read yet and the output so far. An escape whose end is
  not in the source stops the loop in front of its \<^verbatim>\<open>=\<close>. The result is \<open>(rest, out)\<close>.
\<close>

fun qp_loop :: "nat \<Rightarrow> bytes \<Rightarrow> bytes \<Rightarrow> bytes \<times> bytes" where
  "qp_loop dlen out [] = ([], out)"
| "qp_loop dlen out (ch # src) =
     (if length out < dlen then
        if ch = 0x3d then
          (case src of
             [] \<Rightarrow> ([ch], out)
           | [c1] \<Rightarrow> if c1 = 0x0a then qp_loop dlen out [] else ([ch, c1], out)
           | c1 # c2 # rest \<Rightarrow>
               if c1 = 0x0a then qp_loop dlen out (c2 # rest)
               else if c1 = 0x0d \<and> c2 = 0x0a then qp_loop dlen out rest
               else if isxdigit c1 \<and> isxdigit c2 then
                 qp_loop dlen (out @ [16 * hexval c1 + hexval c2]) rest
               else qp_loop dlen (out @ [ch]) (c1 # c2 # rest))
        else if isprint ch \<or> blank ch \<or> line_end ch then qp_loop dlen (out @ [ch]) src
        else qp_loop dlen out src
      else (ch # src, out))"

text \<open>\<open>None\<close> is \<^verbatim>\<open>-1\<close>; otherwise the number of bytes read and the output.\<close>

definition sf_qpdecode :: "bytes \<Rightarrow> nat \<Rightarrow> (nat \<times> bytes) option" where
  "sf_qpdecode src dlen =
     (if src = [] \<or> dlen = 0 then None
      else case qp_loop dlen [] src of (rest, out) \<Rightarrow> Some (length src - length rest, out))"

definition save_rest :: "nat \<Rightarrow> nat \<Rightarrow> decode_buffer \<Rightarrow> nat \<times> decode_buffer" where
  "save_rest bytes_read act b =
     (if bytes_read < act then (bytes_read, save_buffer bytes_read (of_nat (act - bytes_read)) b)
      else (act, reset_saved b))"

definition qp_decode_data :: "buffered_decode \<Rightarrow> bytes \<Rightarrow> (decode_result \<times> buffered_decode) option" where
  "qp_decode_data d data =
     (case check_restore_buffer (dbuffer d) of
        None \<Rightarrow> None
      | Some (False, b) \<Rightarrow> Some (DECODE_EXCEEDED, reset_decode_state (d\<lparr>dbuffer := b\<rparr>))
      | Some (True, b) \<Rightarrow>
          (let prev = unat (prev_encoded_bytes b);
               encode_avail = get_encode_avail b - prev_encoded_bytes b;
               stripped = sf_strip_LWS data (unat encode_avail)
           in case mem_write (the (encodeBuf b)) prev stripped of
                None \<Rightarrow> None
              | Some e \<Rightarrow>
                  (let act = length stripped + prev;
                       b1 = b\<lparr>encodeBuf := Some e\<rparr>
                   in case sf_qpdecode (take act e) (unat (get_decode_avail b1)) of
                        None \<Rightarrow> Some (DECODE_FAIL, reset_decode_state (d\<lparr>dbuffer := b1\<rparr>))
                      | Some (bytes_read, out) \<Rightarrow>
                          if out = [] \<and> encode_avail = 0
                          then Some (DECODE_FAIL, reset_decode_state (d\<lparr>dbuffer := b1\<rparr>))
                          else let (act', b2) = save_rest bytes_read act b1 in deliver act' out b2 d)))"

section \<open>Uuencode\<close>

record uu_decode = buffered_decode +
  begin_found :: bool
  end_found :: bool

definition UU_DECODE_CHAR :: "u8 \<Rightarrow> u8" where
  "UU_DECODE_CHAR c = (c - 0x20) AND 0x3f"

abbreviation uuc :: "bytes \<Rightarrow> nat \<Rightarrow> u8" where
  "uuc mem p \<equiv> UU_DECODE_CHAR (mem ! p)"

text \<open>
  One line of \<open>len\<close> encoded characters at offset \<open>p\<close> of the buffer \<open>mem\<close>. Every step reads
  the character after the current one as well; \<open>None\<close> when that is outside the buffer.
\<close>

fun uu_line :: "bytes \<Rightarrow> nat \<Rightarrow> nat \<Rightarrow> bytes \<Rightarrow> (nat \<times> bytes) option" where
  "uu_line mem p len out =
     (if len = 0 then Some (p, out)
      else if length mem \<le> p + 1 then None
      else let out1 = out @ [push_bit 2 (uuc mem p) OR drop_bit 4 (uuc mem (p + 1))]
      in if len = 1 then Some (p + 1, out1)
      else if length mem \<le> p + 2 then None
      else let out2 = out1 @ [push_bit 4 (uuc mem (p + 1)) OR drop_bit 2 (uuc mem (p + 2))]
      in if len = 2 then Some (p + 2, out2)
      else if length mem \<le> p + 3 then None
      else uu_line mem (p + 4) (len - 4) (out2 @ [push_bit 6 (uuc mem (p + 2)) OR uuc mem (p + 3)]))"

declare uu_line.simps [simp del]

lemma uu_line_progress: "uu_line mem p len out = Some (p', out') \<Longrightarrow> p \<le> p'"
  by (induction mem p len out rule: uu_line.induct)
    (subst (asm) (2) uu_line.simps, auto simp: Let_def split: if_splits intro: add_leD1 [of _ 4])

text \<open>The scan: \<open>None\<close> for an access outside \<open>mem\<close>, else the read offset, the output and the end flag.\<close>

function uu_loop :: "bytes \<Rightarrow> nat \<Rightarrow> nat \<Rightarrow> nat \<Rightarrow> bool \<Rightarrow> bytes \<Rightarrow> bool \<Rightarrow> (nat \<times> bytes \<times> bool) option" where
  "uu_loop mem slen dlen p sol out ef =
     (if slen \<le> p \<or> dlen \<le> length out then Some (p, out, ef)
      else if mem ! p = 0x0a then uu_loop mem slen dlen (p + 1) True out ef
      else if sol then
        let len = unat (uuc mem p)
        in if len = 0 then Some (p, out, ef)
           else if len = 5 \<and> mem ! p = 0x65 then Some (p, out, True)
           else let chars = (min len (dlen - length out) * 4) div 3
           in if slen - (p + 1) < chars then Some (p, out, ef)
              else (case uu_line mem (p + 1) chars out of
                      None \<Rightarrow> None
                    | Some (p', out') \<Rightarrow> uu_loop mem slen dlen p' False out' ef)
      else uu_loop mem slen dlen (p + 1) sol out ef)"
  by pat_completeness auto

termination
  by (relation "measure (\<lambda>(mem, slen, dlen, p, sol, out, ef). slen - p)") (auto dest: uu_line_progress)

text \<open>\<open>Some None\<close> is the return value \<^verbatim>\<open>-1\<close>.\<close>

definition sf_uudecode ::
  "bytes \<Rightarrow> nat \<Rightarrow> nat \<Rightarrow> bool \<Rightarrow> bool \<Rightarrow> (nat \<times> bytes \<times> bool \<times> bool) option option"
where
  "sf_uudecode mem slen dlen bf ef =
     (if slen = 0 \<or> dlen = 0 then Some None
      else
        let scan = (\<lambda>p. case uu_loop mem slen dlen p True [] ef of
               None \<Rightarrow> None
             | Some (q, out, ef') \<Rightarrow> Some (Some (if ef' then slen else q, out, True, ef')))
        in if bf then scan 0
           else if slen < 5 then Some (Some (0, [], bf, ef))
           else (case SnortStrnStr (take 5 mem) [0x62, 0x65, 0x67, 0x69, 0x6e] of
                   None \<Rightarrow> Some None
                 | Some sod \<Rightarrow>
                     (case SnortStrnStr (drop sod (take slen mem)) [0x0a] of
                        None \<Rightarrow> Some (Some (slen, [], True, ef))
                      | Some nl \<Rightarrow> scan (sod + nl))))"

definition uu_reset_decode_state :: "uu_decode \<Rightarrow> uu_decode" where
  "uu_reset_decode_state d = (reset_decode_state d)\<lparr>begin_found := False, end_found := False\<rparr>"

definition uu_decode_data :: "uu_decode \<Rightarrow> bytes \<Rightarrow> (decode_result \<times> uu_decode) option" where
  "uu_decode_data d data =
     (case check_restore_buffer (dbuffer d) of
        None \<Rightarrow> None
      | Some (False, b) \<Rightarrow> Some (DECODE_EXCEEDED, uu_reset_decode_state (d\<lparr>dbuffer := b\<rparr>))
      | Some (True, b) \<Rightarrow>
          (let prev = unat (prev_encoded_bytes b);
               encode_avail = get_encode_avail b - prev_encoded_bytes b;
               chunk = take (unat encode_avail) data
           in case mem_write (the (encodeBuf b)) prev chunk of
                None \<Rightarrow> None
              | Some e \<Rightarrow>
                  (let act = length chunk + prev;
                       b1 = b\<lparr>encodeBuf := Some e\<rparr>
                   in case sf_uudecode e act (unat (get_decode_avail b1)) (begin_found d) (end_found d) of
                        None \<Rightarrow> None
                      | Some None \<Rightarrow> Some (DECODE_FAIL, uu_reset_decode_state (d\<lparr>dbuffer := b1\<rparr>))
                      | Some (Some (bytes_read, out, bf, ef)) \<Rightarrow>
                          if out = [] \<and> encode_avail = 0
                          then Some (DECODE_FAIL, uu_reset_decode_state (d\<lparr>dbuffer := b1\<rparr>))
                          else
                            let d1 = d\<lparr>begin_found := (bf \<and> \<not> ef), end_found := False\<rparr>;
                                (act', b2) = save_rest bytes_read act b1
                            in deliver act' out b2 d1)))"

section \<open>Raw data\<close>

record bit_decode = data_decode +
  decode_depth :: int

definition bit_new :: "int \<Rightarrow> int \<Rightarrow> bit_decode" where
  "bit_new max_depth detect = data_decode.extend (data_decode_new detect) \<lparr>decode_depth = max_depth\<rparr>"

definition bit_decode_data :: "bit_decode \<Rightarrow> bytes \<Rightarrow> (decode_result \<times> bit_decode) option" where
  "bit_decode_data d data =
     (let act = (of_nat (length data) :: u32);
          depth = (of_int (decode_depth d) :: u32)
      in if decode_depth d \<noteq> 0 \<and> depth \<le> decode_bytes_read d
         then Some (DECODE_EXCEEDED, reset_decoded_bytes d)
         else
           let avail = (if decode_depth d = 0 then act else depth - decode_bytes_read d);
               n = (if act > avail then avail else act)
           in Some (DECODE_SUCCESS,
                d\<lparr>decoded_bytes := n, decodePtr := Some (take (unat n) data),
                  decode_bytes_read := decode_bytes_read d + n\<rparr>))"

section \<open>MimeDecode\<close>

datatype decode_type = DECODE_NONE | DECODE_B64 | DECODE_QP | DECODE_UU | DECODE_BITENC | DECODE_ALL

record decode_config =
  b64_depth :: int
  qp_depth :: int
  bitenc_depth :: int
  uu_depth :: int
  file_depth :: int

text \<open>\<open>file_depth\<close> is what \<^verbatim>\<open>FileService::get_max_file_depth\<close> returns; the result is truncated to 32 bits.\<close>

definition get_max_depth :: "decode_config \<Rightarrow> int \<Rightarrow> int" where
  "get_max_depth c depth =
     (if file_depth c = 0 \<or> depth = 0 then 0
      else if file_depth c > depth then sint (of_int (file_depth c) :: u32)
      else depth)"

datatype mime_decoder = NoDecoder | B64Decoder buffered_decode | QPDecoder buffered_decode
  | UUDecoder uu_decode | BitDecoder bit_decode

record mime_decode =
  mime_decode_type :: decode_type
  mime_config :: decode_config
  mime_dec :: mime_decoder
  attachments :: "decode_type \<Rightarrow> nat"

definition uu_new :: "int \<Rightarrow> int \<Rightarrow> uu_decode" where
  "uu_new max_depth detect =
     buffered_decode.extend (buffered_new max_depth detect) \<lparr>begin_found = False, end_found = False\<rparr>"

definition select_decoder :: "decode_type \<Rightarrow> mime_decoder \<Rightarrow> mime_decode \<Rightarrow> mime_decode" where
  "select_decoder t dec mime =
     mime\<lparr>mime_decode_type := t, mime_dec := dec, attachments := (attachments mime)(t := attachments mime t + 1)\<rparr>"

text \<open>\<^verbatim>\<open>base64\<close>, \<^verbatim>\<open>quoted-printable\<close> and \<^verbatim>\<open>uuencode\<close> as bytes.\<close>

definition base64_name :: bytes where
  "base64_name = [0x62, 0x61, 0x73, 0x65, 0x36, 0x34]"

definition qp_name :: bytes where
  "qp_name = [0x71, 0x75, 0x6f, 0x74, 0x65, 0x64, 0x2d, 0x70, 0x72, 0x69, 0x6e, 0x74, 0x61, 0x62, 0x6c, 0x65]"

definition uu_name :: bytes where
  "uu_name = [0x75, 0x75, 0x65, 0x6e, 0x63, 0x6f, 0x64, 0x65]"

definition process_decode_type :: "mime_decode \<Rightarrow> bytes \<Rightarrow> bool \<Rightarrow> mime_decode" where
  "process_decode_type mime start cnt_xf =
     (let m0 = mime\<lparr>mime_dec := NoDecoder\<rparr>; c = mime_config mime
      in if cnt_xf \<and> b64_depth c > -1 \<and> SnortStrcasestr start base64_name \<noteq> None then
           select_decoder DECODE_B64 (B64Decoder (buffered_new (get_max_depth c (b64_depth c)) (b64_depth c))) m0
         else if cnt_xf \<and> qp_depth c > -1 \<and> SnortStrcasestr start qp_name \<noteq> None then
           select_decoder DECODE_QP (QPDecoder (buffered_new (get_max_depth c (qp_depth c)) (qp_depth c))) m0
         else if cnt_xf \<and> uu_depth c > -1 \<and> SnortStrcasestr start uu_name \<noteq> None then
           select_decoder DECODE_UU (UUDecoder (uu_new (get_max_depth c (uu_depth c)) (uu_depth c))) m0
         else if bitenc_depth c > -1 then
           select_decoder DECODE_BITENC (BitDecoder (bit_new (get_max_depth c (bitenc_depth c)) (bitenc_depth c))) m0
         else m0)"

definition mime_decode_data :: "mime_decode \<Rightarrow> bytes \<Rightarrow> (decode_result \<times> mime_decode) option" where
  "mime_decode_data mime data =
     (case mime_dec mime of
           NoDecoder \<Rightarrow> Some (DECODE_SUCCESS, mime)
         | B64Decoder d \<Rightarrow> map_option (\<lambda>(r, d). (r, mime\<lparr>mime_dec := B64Decoder d\<rparr>)) (b64_decode_data d data)
         | QPDecoder d \<Rightarrow> map_option (\<lambda>(r, d). (r, mime\<lparr>mime_dec := QPDecoder d\<rparr>)) (qp_decode_data d data)
         | UUDecoder d \<Rightarrow> map_option (\<lambda>(r, d). (r, mime\<lparr>mime_dec := UUDecoder d\<rparr>)) (uu_decode_data d data)
         | BitDecoder d \<Rightarrow> map_option (\<lambda>(r, d). (r, mime\<lparr>mime_dec := BitDecoder d\<rparr>)) (bit_decode_data d data))"

definition mime_get_decoded_data :: "mime_decode \<Rightarrow> bytes option" where
  "mime_get_decoded_data mime =
     (case mime_dec mime of
        NoDecoder \<Rightarrow> None | B64Decoder d \<Rightarrow> get_decoded_data d | QPDecoder d \<Rightarrow> get_decoded_data d
      | UUDecoder d \<Rightarrow> get_decoded_data d | BitDecoder d \<Rightarrow> get_decoded_data d)"

definition clear_decode_state :: "mime_decode \<Rightarrow> mime_decode" where
  "clear_decode_state mime =
     mime\<lparr>mime_decode_type := DECODE_NONE,
       mime_dec := (case mime_dec mime of
          NoDecoder \<Rightarrow> NoDecoder | B64Decoder d \<Rightarrow> B64Decoder (reset_decode_state d)
        | QPDecoder d \<Rightarrow> QPDecoder (reset_decode_state d) | UUDecoder d \<Rightarrow> UUDecoder (uu_reset_decode_state d)
        | BitDecoder d \<Rightarrow> BitDecoder (reset_decoded_bytes d))\<rparr>"

end
