(* ===== verification/Mime_Safety.thy ===== *)
theory Mime_Safety
  imports Mime_Decode
begin

text \<open>
  Memory safety and depth limits of the attachment decoders. \<^verbatim>\<open>DataDecode\<close> is an abstract class; its
  contract is the locale \<open>limited_decoder\<close>: a decoding step never leaves its buffers and
  accounts for every byte it hands out. The Base64, quoted-printable and raw decoders satisfy it. The uuencode
  decoder does not: it may read one byte past the encode buffer.
\<close>

declare uu_loop.simps [simp del]

section \<open>The contract of DataDecode\<close>

definition handed_out :: "'a data_decode_scheme \<Rightarrow> bytes" where
  "handed_out d = (case decodePtr d of None \<Rightarrow> [] | Some xs \<Rightarrow> xs)"

text \<open>The packets of an attachment in turn; the data handed out by the successful steps.\<close>

fun decode_packets ::
  "('s \<Rightarrow> bytes \<Rightarrow> (decode_result \<times> 's) option) \<Rightarrow> ('s \<Rightarrow> bytes) \<Rightarrow> 's \<Rightarrow> bytes list \<Rightarrow> (bytes list \<times> 's) option"
where
  "decode_packets dec out s [] = Some ([], s)"
| "decode_packets dec out s (p # ps) =
     (case dec s p of
        None \<Rightarrow> None
      | Some (r, s') \<Rightarrow>
          map_option (\<lambda>(outs, t). ((if r = DECODE_SUCCESS then out s' else []) # outs, t))
            (decode_packets dec out s' ps))"

locale safe_decoder =
  fixes ok :: "'s \<Rightarrow> bool" and dec :: "'s \<Rightarrow> bytes \<Rightarrow> (decode_result \<times> 's) option" and out :: "'s \<Rightarrow> bytes"
  assumes dec_safe: "ok s \<Longrightarrow> \<exists>r s'. dec s xs = Some (r, s') \<and> ok s'"
begin

lemma packets_safe: "ok s \<Longrightarrow> \<exists>outs t. decode_packets dec out s ps = Some (outs, t) \<and> ok t"
proof (induction ps arbitrary: s)
  case (Cons p ps)
  from dec_safe [OF Cons.prems, of p] obtain r s' where s': "dec s p = Some (r, s')" "ok s'" by blast
  from Cons.IH [OF s'(2)] s' show ?case by auto
qed simp

end

locale limited_decoder = safe_decoder +
  fixes total :: "'a \<Rightarrow> nat" and limit :: nat
  assumes dec_success: "ok s \<Longrightarrow> dec s xs = Some (DECODE_SUCCESS, s') \<Longrightarrow> total s' = total s + length (out s')"
    and dec_other: "ok s \<Longrightarrow> dec s xs = Some (r, s') \<Longrightarrow> r \<noteq> DECODE_SUCCESS \<Longrightarrow> total s' = total s"
    and within: "ok s \<Longrightarrow> total s \<le> limit"
begin

lemma packets_total:
  "ok s \<Longrightarrow> \<exists>outs t. decode_packets dec out s ps = Some (outs, t) \<and> ok t \<and>
    total s + length (concat outs) = total t"
proof (induction ps arbitrary: s)
  case (Cons p ps)
  from dec_safe [OF Cons.prems, of p] obtain r s' where s': "dec s p = Some (r, s')" "ok s'" by blast
  have "total s' = total s + length (if r = DECODE_SUCCESS then out s' else [])"
    using dec_success [OF Cons.prems] dec_other [OF Cons.prems s'(1)] s'(1) by auto
  with Cons.IH [OF s'(2)] s'(1) show ?case by fastforce
qed simp

lemma packets_limit:
  assumes "ok s" and "total s = 0"
  shows "\<exists>outs t. decode_packets dec out s ps = Some (outs, t) \<and> length (concat outs) \<le> limit"
  using packets_total [OF assms(1), of ps] within assms(2) by fastforce

end

section \<open>Invariant of the buffer\<close>

definition buffer_ok :: "decode_buffer \<Rightarrow> bool" where
  "buffer_ok b \<longleftrightarrow>
     (if code_depth b < 0 then encodeBuf b = None
      else code_depth b < 2 ^ 31 \<and> buf_size b = (if code_depth b = 0 then 65536 else of_int (code_depth b)) \<and>
        (\<exists>e d. encodeBuf b = Some e \<and> decodeBuf b = Some d \<and>
          length e = unat (buf_size b) \<and> length d = unat (buf_size b) \<and>
          (prev_encoded_bytes b \<noteq> 0 \<longrightarrow>
            (\<exists>off. prev_encoded_buf b = Some off \<and> off + unat (prev_encoded_bytes b) \<le> length e))) \<and>
        (code_depth b \<noteq> 0 \<longrightarrow> encode_bytes_read b \<le> buf_size b \<and> buf_decode_bytes_read b \<le> buf_size b))"

lemma buffer_okE:
  assumes "buffer_ok b" and "0 \<le> code_depth b"
  obtains e d where "encodeBuf b = Some e" "decodeBuf b = Some d" "length e = unat (buf_size b)"
    "length d = unat (buf_size b)"
    "prev_encoded_bytes b \<noteq> 0 \<longrightarrow>
      (\<exists>off. prev_encoded_buf b = Some off \<and> off + unat (prev_encoded_bytes b) \<le> length e)"
proof -
  from assms(2) have "\<not> code_depth b < 0" by simp
  from assms(1) [unfolded buffer_ok_def if_not_P [OF this]] that show thesis by blast
qed

lemma buffer_okD:
  assumes "buffer_ok b" and "0 \<le> code_depth b"
  shows "code_depth b < 2 ^ 31" "buf_size b = (if code_depth b = 0 then 65536 else of_int (code_depth b))"
    "code_depth b \<noteq> 0 \<Longrightarrow> encode_bytes_read b \<le> buf_size b"
    "code_depth b \<noteq> 0 \<Longrightarrow> buf_decode_bytes_read b \<le> buf_size b"
proof -
  from assms(2) have "\<not> code_depth b < 0" by simp
  note assms(1) [unfolded buffer_ok_def if_not_P [OF this]]
  then show "code_depth b < 2 ^ 31" "buf_size b = (if code_depth b = 0 then 65536 else of_int (code_depth b))"
    "code_depth b \<noteq> 0 \<Longrightarrow> encode_bytes_read b \<le> buf_size b"
    "code_depth b \<noteq> 0 \<Longrightarrow> buf_decode_bytes_read b \<le> buf_size b" by blast+
qed

lemma buffer_okI:
  assumes "0 \<le> code_depth b" and "code_depth b < 2 ^ 31"
    and "buf_size b = (if code_depth b = 0 then 65536 else of_int (code_depth b))"
    and "encodeBuf b = Some e" and "decodeBuf b = Some d"
    and "length e = unat (buf_size b)" and "length d = unat (buf_size b)"
    and "prev_encoded_bytes b \<noteq> 0 \<Longrightarrow>
      \<exists>off. prev_encoded_buf b = Some off \<and> off + unat (prev_encoded_bytes b) \<le> length e"
    and "code_depth b \<noteq> 0 \<Longrightarrow> encode_bytes_read b \<le> buf_size b"
    and "code_depth b \<noteq> 0 \<Longrightarrow> buf_decode_bytes_read b \<le> buf_size b"
  shows "buffer_ok b"
proof -
  from assms(1) have nn: "\<not> code_depth b < 0" by simp
  from assms(2-) show ?thesis unfolding buffer_ok_def if_not_P [OF nn] by blast
qed

lemma unat_u32_of_int:
  assumes "0 \<le> D" and "D < 2 ^ 31"
  shows "unat (of_int D :: u32) = nat D"
proof -
  have "of_int D = (of_nat (nat D) :: u32)" using assms(1) by simp
  moreover have "nat D < 2 ^ 32" using assms by simp
  ultimately show ?thesis by (simp only: unat_of_nat) (simp add: take_bit_nat_eq_self)
qed

lemma u32_less: "unat (x :: u32) < 2 ^ 32"
  by (rule order_less_le_trans [OF unsigned_less]) simp

lemma word_le_diff_add:
  fixes x y z :: "'a :: len word"
  assumes "x \<le> z" and "y \<le> z - x"
  shows "x + y \<le> z" "unat (x + y) = unat x + unat y"
proof -
  have d: "unat (z - x) = unat z - unat x" using assms(1) by (simp add: unat_sub)
  then have "unat y + unat x \<le> unat z"
    using assms by (simp add: word_le_nat_alt)
  moreover have "unat z < 2 ^ LENGTH('a)" by simp
  ultimately have "unat x + unat y < 2 ^ LENGTH('a)" by linarith
  then show "unat (x + y) = unat x + unat y" by (rule unat_add_lem [THEN iffD1])
  with \<open>unat y + unat x \<le> unat z\<close> show "x + y \<le> z" by (simp add: word_le_nat_alt)
qed

lemma avail_le:
  assumes "buffer_ok b" and "0 \<le> code_depth b"
  shows "get_encode_avail b \<le> buf_size b" "get_decode_avail b \<le> buf_size b"
  using buffer_okD [OF assms] by (simp_all add: get_encode_avail_def get_decode_avail_def word_sub_le)

lemma restore_loop_eq:
  "off + i + k \<le> length buf \<Longrightarrow>
    restore_loop off i k buf = Some (take i buf @ take k (drop (off + i) buf) @ drop (i + k) buf)"
proof (induction k arbitrary: i buf)
  case (Suc k)
  let ?b = "buf[i := buf ! (off + i)]"
  have "take (Suc i) ?b = take i buf @ [buf ! (off + i)]" using Suc.prems by (simp add: take_Suc_conv_app_nth)
  moreover have "drop (Suc (off + i)) ?b = drop (Suc (off + i)) buf" "drop (Suc (i + k)) ?b = drop (Suc (i + k)) buf"
    by (simp_all add: drop_update_cancel)
  moreover have "drop (off + i) buf = buf ! (off + i) # drop (Suc (off + i)) buf"
    using Suc.prems by (simp add: Cons_nth_drop_Suc)
  ultimately show ?case using Suc.prems Suc.IH [of "i + 1" ?b] by simp
qed simp

lemma mem_write_ok:
  assumes "off + length xs \<le> length buf"
  shows "\<exists>buf'. mem_write buf off xs = Some buf' \<and> length buf' = length buf \<and>
    take (off + length xs) buf' = take off buf @ xs"
  using assms by (auto simp: mem_write_def)

text \<open>What a decoder knows after \<^verbatim>\<open>check_restore_buffer\<close>.\<close>

lemma check_restore_ok:
  assumes ok: "buffer_ok b"
  shows "\<exists>r b'. check_restore_buffer b = Some (r, b') \<and> buffer_ok b' \<and> code_depth b' = code_depth b \<and>
    encode_bytes_read b' = encode_bytes_read b \<and> buf_decode_bytes_read b' = buf_decode_bytes_read b \<and>
    (r \<longrightarrow> 0 \<le> code_depth b \<and> prev_encoded_bytes b' \<le> get_encode_avail b')"
proof (cases "code_depth b < 0")
  case True
  with ok have "encodeBuf b = None" by (simp add: buffer_ok_def)
  with ok show ?thesis by (auto simp: check_restore_buffer_def split: option.split)
next
  case False
  from buffer_okE [OF ok] False obtain e d where
    e: "encodeBuf b = Some e" "decodeBuf b = Some d" "length e = unat (buf_size b)"
    and dl: "length d = unat (buf_size b)" and p: "prev_encoded_bytes b \<noteq> 0 \<longrightarrow>
      (\<exists>off. prev_encoded_buf b = Some off \<and> off + unat (prev_encoded_bytes b) \<le> length e)"
    by (metis not_less)
  consider (stop) "get_encode_avail b = 0 \<or> get_decode_avail b = 0"
    | (none) "get_encode_avail b \<noteq> 0" "get_decode_avail b \<noteq> 0" "prev_encoded_bytes b = 0"
    | (some) "get_encode_avail b \<noteq> 0" "get_decode_avail b \<noteq> 0" "prev_encoded_bytes b \<noteq> 0" by blast
  then show ?thesis
  proof cases
    case stop
    with e ok show ?thesis by (auto simp: check_restore_buffer_def)
  next
    case none
    with e ok False show ?thesis by (auto simp: check_restore_buffer_def)
  next
    case some
    from p some(3) obtain off where
      off: "prev_encoded_buf b = Some off" "off + unat (prev_encoded_bytes b) \<le> length e" by blast
    define n where "n = min (prev_encoded_bytes b) (get_encode_avail b)"
    have le: "off + unat n \<le> length e"
      using off(2) by (simp add: n_def min_def word_le_nat_alt not_le)
    define e' where "e' = take (unat n) (drop off e) @ drop (unat n) e"
    have r: "restore_loop off 0 (unat n) e = Some e'" using restore_loop_eq [of off 0 "unat n" e] le by (simp add: e'_def)
    have len: "length e' = length e" using le by (simp add: e'_def)
    define b' where "b' = b\<lparr>prev_encoded_bytes := n, encodeBuf := Some e'\<rparr>"
    have f: "code_depth b' = code_depth b" "buf_size b' = buf_size b" "decodeBuf b' = Some d" "encodeBuf b' = Some e'"
      "encode_bytes_read b' = encode_bytes_read b" "buf_decode_bytes_read b' = buf_decode_bytes_read b"
      "prev_encoded_bytes b' = n" "prev_encoded_buf b' = Some off" "get_encode_avail b' = get_encode_avail b"
      using e off(1) by (simp_all add: b'_def get_encode_avail_def)
    have "check_restore_buffer b = Some (True, b')"
    proof (cases "prev_encoded_bytes b > get_encode_avail b")
      case True
      then have "n = get_encode_avail b" by (simp add: n_def)
      with True some e off(1) r show ?thesis by (simp add: check_restore_buffer_def Let_def b'_def)
    next
      case False
      then have "n = prev_encoded_bytes b" by (simp add: n_def not_less min_def)
      with False some e off(1) r show ?thesis by (simp add: check_restore_buffer_def Let_def b'_def)
    qed
    moreover have "buffer_ok b'"
      by (rule buffer_okI [where e = e' and d = d], unfold f)
        (use buffer_okD [OF ok] False e le len dl in simp_all)
    moreover have "n \<le> get_encode_avail b" by (simp add: n_def)
    ultimately show ?thesis using f False by (intro exI [of _ True] exI [of _ b']) simp
  qed
qed

section \<open>One decoding step\<close>

lemma base64_out_length:
  "length out \<le> sz \<Longrightarrow> length (snd (b64_loop sz mx quad n out cs)) \<le> sz"
proof (induction sz mx quad n out cs rule: b64_loop.induct)
  case (2 sz mx quad n out c cs)
  have "case b64_group sz (quad @ [c]) out of Inl r \<Rightarrow> length (snd r) \<le> sz | Inr o' \<Rightarrow> length o' \<le> sz"
    using "2.prems" by (auto simp: b64_group_def Let_def)
  with 2 show ?case by (auto simp: Let_def split: sum.splits)
qed simp

lemma sf_base64decode_length: "sf_base64decode cs sz = Inr out \<Longrightarrow> length out \<le> sz"
  using base64_out_length [of "[]" sz "sz div 3 * 4 + 4" "[]" 0 cs]
  by (auto simp: sf_base64decode_def split: prod.splits bool.splits)

lemma qp_escape:
  assumes "length out < dlen"
  shows "qp_loop dlen out (0x3d # c1 # c2 # src) =
    (if c1 = 0x0a then qp_loop dlen out (c2 # src)
     else if c1 = 0x0d \<and> c2 = 0x0a then qp_loop dlen out src
     else if isxdigit c1 \<and> isxdigit c2 then qp_loop dlen (out @ [16 * hexval c1 + hexval c2]) src
     else qp_loop dlen (out @ [0x3d]) (c1 # c2 # src))"
  using assms by (subst qp_loop.simps(2)) (simp only: if_True list.case refl)

lemma qp_plain:
  assumes "length out < dlen" and "ch \<noteq> 0x3d"
  shows "qp_loop dlen out (ch # src) =
    qp_loop dlen (if isprint ch \<or> blank ch \<or> line_end ch then out @ [ch] else out) src"
  using assms by (subst qp_loop.simps(2)) (cases "isprint ch \<or> blank ch \<or> line_end ch", simp_all only: if_True if_False simp_thms)

lemma qp_full: "dlen \<le> length out \<Longrightarrow> qp_loop dlen out src = (src, out)"
  by (cases src) simp_all

lemma qp_short:
  assumes "length out < dlen"
  shows "qp_loop dlen out [0x3d] = ([0x3d], out)"
    "qp_loop dlen out [0x3d, c1] = (if c1 = 0x0a then ([], out) else ([0x3d, c1], out))"
  using assms by simp_all

declare qp_loop.simps(2) [simp del]

lemma qp_induct [case_names Nil full plain short1 short2 escape]:
  assumes "\<And>out. P out []" and "\<And>out xs. dlen \<le> length out \<Longrightarrow> P out xs"
    and "\<And>out ch src. length out < dlen \<Longrightarrow> ch \<noteq> 0x3d \<Longrightarrow>
      P (if isprint ch \<or> blank ch \<or> line_end ch then out @ [ch] else out) src \<Longrightarrow> P out (ch # src)"
    and "\<And>out. length out < dlen \<Longrightarrow> P out [0x3d]" and "\<And>out c. length out < dlen \<Longrightarrow> P out [0x3d, c]"
    and "\<And>out c1 c2 src. length out < dlen \<Longrightarrow> P out (c2 # src) \<Longrightarrow> P out src \<Longrightarrow>
      P (out @ [16 * hexval c1 + hexval c2]) src \<Longrightarrow> P (out @ [0x3d]) (c1 # c2 # src) \<Longrightarrow> P out (0x3d # c1 # c2 # src)"
  shows "P out xs"
proof (induction "length xs" arbitrary: xs out rule: less_induct)
  case less
  consider "xs = []" | "dlen \<le> length out" | ch src where "xs = ch # src" "ch \<noteq> 0x3d" "length out < dlen"
    | "xs = [0x3d]" "length out < dlen" | c where "xs = [0x3d, c]" "length out < dlen"
    | c1 c2 src where "xs = 0x3d # c1 # c2 # src" "length out < dlen"
    by (cases xs; cases "tl xs"; cases "tl (tl xs)"; cases "hd xs = 0x3d"; cases "dlen \<le> length out")
      (auto simp: not_le)
  then show ?case
  proof cases
    case (3 ch src)
    then show ?thesis using assms(3) [OF 3(3,2)] less by simp
  next
    case (6 c1 c2 src)
    then show ?thesis using assms(6) [OF 6(2)] less by simp
  qed (use assms(1,2,4,5) in simp_all)
qed

lemma qp_loop_length:
  "length out \<le> dlen \<Longrightarrow> qp_loop dlen out src = (rest, out') \<Longrightarrow> length out' \<le> dlen \<and> length rest \<le> length src"
proof (induction out src rule: qp_induct [where dlen = dlen])
  case (plain out ch src)
  then show ?case by (simp add: qp_plain split: if_splits)
next
  case (escape out c1 c2 src)
  then show ?case by (simp add: qp_escape split: if_splits)
qed (auto simp: qp_full qp_short split: if_splits)

lemma sf_qpdecode_length: "sf_qpdecode src dlen = Some (n, out) \<Longrightarrow> length out \<le> dlen \<and> n \<le> length src"
  using qp_loop_length [of "[]" dlen src] by (auto simp: sf_qpdecode_def split: if_splits prod.splits)

text \<open>The state after a decoding step that hands out \<open>out\<close> from a buffer in good order.\<close>

definition delivered :: "'a buffered_decode_scheme \<Rightarrow> bytes \<Rightarrow> 'a buffered_decode_scheme \<Rightarrow> bool" where
  "delivered d out d' \<longleftrightarrow>
     buffer_ok (dbuffer d') \<and> code_depth (dbuffer d') = code_depth (dbuffer d) \<and> decodePtr d' = Some out \<and>
     (code_depth (dbuffer d) \<noteq> 0 \<longrightarrow>
        unat (buf_decode_bytes_read (dbuffer d')) = unat (buf_decode_bytes_read (dbuffer d)) + length out)"

lemma deliver_ok:
  assumes ok: "buffer_ok b" and nn: "0 \<le> code_depth b"
    and act: "act \<le> unat (get_encode_avail b)" and out: "length out \<le> unat (get_decode_avail b)"
    and d: "code_depth (dbuffer d) = code_depth b" "buf_decode_bytes_read (dbuffer d) = buf_decode_bytes_read b"
  shows "\<exists>d'. deliver act out b d = Some (DECODE_SUCCESS, d') \<and> delivered d out d'"
proof -
  from buffer_okE [OF ok nn] obtain e db where eb: "encodeBuf b = Some e" "decodeBuf b = Some db"
    "length e = unat (buf_size b)" "length db = unat (buf_size b)"
    "prev_encoded_bytes b \<noteq> 0 \<longrightarrow>
      (\<exists>off. prev_encoded_buf b = Some off \<and> off + unat (prev_encoded_bytes b) \<le> length e)" .
  have "length out \<le> length db" using out avail_le(2) [OF ok nn] eb(4) by (simp add: word_le_nat_alt)
  then obtain db' where db': "mem_write db 0 out = Some db'" "length db' = length db"
    using mem_write_ok [of 0 out db] by auto
  let ?b = "update_buffer (of_nat act) (of_nat (length out)) (b\<lparr>decodeBuf := Some db'\<rparr>)"
  have cnt: "encode_bytes_read ?b \<le> buf_size b" "buf_decode_bytes_read ?b \<le> buf_size b"
      "unat (buf_decode_bytes_read ?b) = unat (buf_decode_bytes_read b) + length out"
    if nz: "code_depth b \<noteq> 0"
  proof -
    from buffer_okD [OF ok nn] nz have rd: "encode_bytes_read b \<le> buf_size b" "buf_decode_bytes_read b \<le> buf_size b"
      and sz: "of_int (code_depth b) = buf_size b" by simp_all
    have av: "get_encode_avail b = buf_size b - encode_bytes_read b"
      "get_decode_avail b = buf_size b - buf_decode_bytes_read b"
      using nz sz by (simp_all add: get_encode_avail_def get_decode_avail_def)
    have "act < 2 ^ 32" "length out < 2 ^ 32"
      using act out u32_less [of "get_encode_avail b"] u32_less [of "get_decode_avail b"] by linarith+
    then have n: "unat (of_nat act :: u32) = act" "unat (of_nat (length out) :: u32) = length out"
      by (simp_all add: unat_of_nat)
    then have le: "(of_nat act :: u32) \<le> get_encode_avail b" "(of_nat (length out) :: u32) \<le> get_decode_avail b"
      using act out by (simp_all add: word_le_nat_alt)
    show "encode_bytes_read ?b \<le> buf_size b" "buf_decode_bytes_read ?b \<le> buf_size b"
      "unat (buf_decode_bytes_read ?b) = unat (buf_decode_bytes_read b) + length out"
      using word_le_diff_add [OF rd(1) le(1) [unfolded av(1)]] word_le_diff_add [OF rd(2) le(2) [unfolded av(2)]] n(2)
      by (simp_all add: update_buffer_def)
  qed
  have frame: "code_depth ?b = code_depth b" "buf_size ?b = buf_size b" "encodeBuf ?b = Some e" "decodeBuf ?b = Some db'"
    "prev_encoded_bytes ?b = prev_encoded_bytes b" "prev_encoded_buf ?b = prev_encoded_buf b"
    using eb(1) by (simp_all add: update_buffer_def)
  have "buffer_ok ?b"
    by (rule buffer_okI [where e = e and d = db'], unfold frame)
      (use buffer_okD [OF ok nn] nn eb db'(2) cnt in simp_all)
  with cnt(3) frame d db'(1) eb(2) show ?thesis
    by (simp add: deliver_def delivered_def Let_def)
qed

text \<open>
  The common course of the buffered decoders: after a restored buffer, \<open>data\<close> of at most the free
  space is appended to the saved bytes.
\<close>

lemma append_encoded:
  assumes ok: "buffer_ok b" and nn: "0 \<le> code_depth b" and pv: "prev_encoded_bytes b \<le> get_encode_avail b"
    and len: "length xs \<le> unat (get_encode_avail b - prev_encoded_bytes b)"
  shows "\<exists>e. mem_write (the (encodeBuf b)) (unat (prev_encoded_bytes b)) xs = Some e \<and>
    length e = unat (buf_size b) \<and> unat (prev_encoded_bytes b) + length xs \<le> unat (get_encode_avail b) \<and>
    unat (get_encode_avail b) \<le> length e \<and>
    take (unat (prev_encoded_bytes b) + length xs) e = take (unat (prev_encoded_bytes b)) (the (encodeBuf b)) @ xs"
proof -
  from buffer_okE [OF ok nn] obtain e where e: "encodeBuf b = Some e" "length e = unat (buf_size b)" by metis
  have "unat (get_encode_avail b - prev_encoded_bytes b) = unat (get_encode_avail b) - unat (prev_encoded_bytes b)"
    using pv by (simp add: unat_sub)
  with len pv have sum: "unat (prev_encoded_bytes b) + length xs \<le> unat (get_encode_avail b)"
    by (simp add: word_le_nat_alt)
  moreover have "unat (get_encode_avail b) \<le> length e"
    using avail_le(1) [OF ok nn] e(2) by (simp add: word_le_nat_alt)
  ultimately show ?thesis using mem_write_ok [of "unat (prev_encoded_bytes b)" xs e] e by auto
qed

lemma buffer_ok_upd:
  assumes ok: "buffer_ok b" and nn: "0 \<le> code_depth b" and e: "length e = unat (buf_size b)"
    and b': "b' = b\<lparr>encodeBuf := Some e, prev_encoded_bytes := n, prev_encoded_buf := pb\<rparr>"
    and n: "n \<noteq> 0 \<Longrightarrow> \<exists>off. pb = Some off \<and> off + unat n \<le> length e"
  shows "buffer_ok b'"
proof -
  from buffer_okE [OF ok nn] obtain d where "decodeBuf b = Some d" "length d = unat (buf_size b)" by metis
  then show ?thesis
    by (intro buffer_okI [where e = e and d = d]) (use buffer_okD [OF ok nn] nn e n in \<open>simp_all add: b'\<close>)
qed

lemma buffer_ok_saved:
  assumes ok: "buffer_ok b" and nn: "0 \<le> code_depth b" and e: "length e = unat (buf_size b)"
  shows "buffer_ok (reset_saved (b\<lparr>encodeBuf := Some e\<rparr>))"
    and "off + n \<le> length e \<Longrightarrow> n < 2 ^ 32 \<Longrightarrow> buffer_ok (save_buffer off (of_nat n) (b\<lparr>encodeBuf := Some e\<rparr>))"
  by (rule buffer_ok_upd [OF assms, where n = 0 and pb = None]; simp add: reset_saved_def)
    (rule buffer_ok_upd [OF assms, where n = "of_nat n" and pb = "Some off"]; simp add: save_buffer_def unat_of_nat)

lemma buffer_ok_encode:
  assumes "buffer_ok b" and "0 \<le> code_depth b" and "length e = unat (buf_size b)"
  shows "buffer_ok (b\<lparr>encodeBuf := Some e\<rparr>)"
proof -
  from buffer_okE [OF assms(1,2)] assms(3) have "prev_encoded_bytes b \<noteq> 0 \<longrightarrow>
      (\<exists>off. prev_encoded_buf b = Some off \<and> off + unat (prev_encoded_bytes b) \<le> length e)" by metis
  then show ?thesis
    by (intro buffer_ok_upd [OF assms, where n = "prev_encoded_bytes b" and pb = "prev_encoded_buf b"]) simp_all
qed

lemma reset_ok [simp]:
  "buffer_ok b \<Longrightarrow> buffer_ok (reset_saved b)" "code_depth (reset_saved b) = code_depth b"
  "buf_decode_bytes_read (reset_saved b) = buf_decode_bytes_read b"
  by (auto simp: buffer_ok_def reset_saved_def)

text \<open>The outcome of one step of a buffered decoder.\<close>

definition step_ok :: "'a buffered_decode_scheme \<Rightarrow> (decode_result \<times> 'a buffered_decode_scheme) option \<Rightarrow> bool" where
  "step_ok d res \<longleftrightarrow>
     (\<exists>r d'. res = Some (r, d') \<and> buffer_ok (dbuffer d') \<and> code_depth (dbuffer d') = code_depth (dbuffer d) \<and>
        (if r = DECODE_SUCCESS then \<exists>out. delivered d out d'
         else buf_decode_bytes_read (dbuffer d') = buf_decode_bytes_read (dbuffer d)))"

lemma step_ok_fail:
  assumes "buffer_ok b" and "code_depth b = code_depth (dbuffer d)"
    and "buf_decode_bytes_read b = buf_decode_bytes_read (dbuffer d)" and "r \<noteq> DECODE_SUCCESS"
  shows "step_ok d (Some (r, reset_decode_state (d\<lparr>dbuffer := b\<rparr>)))"
  using assms by (simp add: step_ok_def reset_decode_state_def reset_decoded_bytes_def)

lemma step_ok_deliver:
  assumes "buffer_ok b" and "0 \<le> code_depth b"
    and "act \<le> unat (get_encode_avail b)" and "length out \<le> unat (get_decode_avail b)"
    and "code_depth (dbuffer d) = code_depth b" "buf_decode_bytes_read (dbuffer d) = buf_decode_bytes_read b"
  shows "step_ok d (deliver act out b d)"
  using deliver_ok [OF assms] by (auto simp: step_ok_def delivered_def)

lemma b64_step_ok:
  assumes "buffer_ok (dbuffer d)"
  shows "step_ok d (b64_decode_data d data)"
proof -
  from check_restore_ok [OF assms] obtain r b where
    c: "check_restore_buffer (dbuffer d) = Some (r, b)" "buffer_ok b"
      "code_depth b = code_depth (dbuffer d)" "buf_decode_bytes_read b = buf_decode_bytes_read (dbuffer d)"
      "r \<longrightarrow> 0 \<le> code_depth b \<and> prev_encoded_bytes b \<le> get_encode_avail b" by metis
  show ?thesis
  proof (cases r)
    case False
    with c step_ok_fail [of b d DECODE_EXCEEDED] show ?thesis by (simp add: b64_decode_data_def)
  next
    case True
    with c(5) have nn: "0 \<le> code_depth b" and pv: "prev_encoded_bytes b \<le> get_encode_avail b" by simp_all
    have c1: "check_restore_buffer (dbuffer d) = Some (True, b)" using c(1) True by simp
    define xs where "xs = sf_strip_CRLF data (unat (get_encode_avail b - prev_encoded_bytes b))"
    have "length xs \<le> unat (get_encode_avail b - prev_encoded_bytes b)" by (simp add: xs_def sf_strip_CRLF_eq)
    from append_encoded [OF c(2) nn pv this] obtain e where
      e: "mem_write (the (encodeBuf b)) (unat (prev_encoded_bytes b)) xs = Some e" "length e = unat (buf_size b)"
        "unat (prev_encoded_bytes b) + length xs \<le> unat (get_encode_avail b)" "unat (get_encode_avail b) \<le> length e"
      by blast
    define act where "act = length xs + unat (prev_encoded_bytes b)"
    define b2 where "b2 = (if act mod 4 \<noteq> 0 then save_buffer (act - act mod 4) (of_nat (act mod 4)) (b\<lparr>encodeBuf := Some e\<rparr>)
      else reset_saved (b\<lparr>encodeBuf := Some e\<rparr>))"
    have "act - act mod 4 + act mod 4 \<le> length e" "act mod 4 < 2 ^ 32"
      using e(3,4) by (simp_all add: act_def add.commute order_less_le_trans [OF mod_less_divisor])
    then have ok2: "buffer_ok b2" using buffer_ok_saved [OF c(2) nn e(2)] by (simp add: b2_def)
    have f2: "code_depth b2 = code_depth b" "buf_decode_bytes_read b2 = buf_decode_bytes_read b"
      "get_encode_avail b2 = get_encode_avail b" "get_decode_avail b2 = get_decode_avail b"
      by (simp_all add: b2_def save_buffer_def reset_saved_def get_encode_avail_def get_decode_avail_def)
    have act: "act - act mod 4 \<le> unat (get_encode_avail b2)" using e(3) f2(3) by (simp add: act_def)
    have eq: "b64_decode_data d data =
        (case sf_base64decode (take (act - act mod 4) e) (unat (get_decode_avail b2)) of
           Inl _ \<Rightarrow> Some (DECODE_FAIL, reset_decode_state (d\<lparr>dbuffer := b2\<rparr>))
         | Inr out \<Rightarrow>
             if out = [] \<and> get_encode_avail b - prev_encoded_bytes b = 0
             then Some (DECODE_FAIL, reset_decode_state (d\<lparr>dbuffer := b2\<rparr>))
             else deliver (act - act mod 4) out b2 d)"
      by (simp only: b64_decode_data_def Let_def c1 option.case prod.case bool.case xs_def [symmetric] e(1)
          act_def [symmetric] b2_def [symmetric])
    have dlv: "step_ok d (deliver (act - act mod 4) out b2 d)"
      if "sf_base64decode (take (act - act mod 4) e) (unat (get_decode_avail b2)) = Inr out" for out
      using sf_base64decode_length [OF that] nn c(3,4) f2(1,2)
      by (intro step_ok_deliver [OF ok2 _ act]) simp_all
    have fail: "step_ok d (Some (DECODE_FAIL, reset_decode_state (d\<lparr>dbuffer := b2\<rparr>)))"
      using ok2 f2 c(3,4) by (intro step_ok_fail) simp_all
    show ?thesis
    proof (cases "sf_base64decode (take (act - act mod 4) e) (unat (get_decode_avail b2))")
      case (Inl a)
      show ?thesis unfolding eq Inl sum.case by (rule fail)
    next
      case (Inr out)
      show ?thesis unfolding eq Inr sum.case using fail dlv [OF Inr] by (rule if_split [THEN iffD2, OF conjI [OF impI impI]])
    qed
  qed
qed

lemma qp_step_ok:
  assumes "buffer_ok (dbuffer d)"
  shows "step_ok d (qp_decode_data d data)"
proof -
  from check_restore_ok [OF assms] obtain r b where
    c: "check_restore_buffer (dbuffer d) = Some (r, b)" "buffer_ok b"
      "code_depth b = code_depth (dbuffer d)" "buf_decode_bytes_read b = buf_decode_bytes_read (dbuffer d)"
      "r \<longrightarrow> 0 \<le> code_depth b \<and> prev_encoded_bytes b \<le> get_encode_avail b" by metis
  show ?thesis
  proof (cases r)
    case False
    with c step_ok_fail [of b d DECODE_EXCEEDED] show ?thesis by (simp add: qp_decode_data_def)
  next
    case True
    with c(5) have nn: "0 \<le> code_depth b" and pv: "prev_encoded_bytes b \<le> get_encode_avail b" by simp_all
    have c1: "check_restore_buffer (dbuffer d) = Some (True, b)" using c(1) True by simp
    define xs where "xs = sf_strip_LWS data (unat (get_encode_avail b - prev_encoded_bytes b))"
    have "length xs \<le> unat (get_encode_avail b - prev_encoded_bytes b)" by (simp add: xs_def sf_strip_LWS_length)
    from append_encoded [OF c(2) nn pv this] obtain e where
      e: "mem_write (the (encodeBuf b)) (unat (prev_encoded_bytes b)) xs = Some e" "length e = unat (buf_size b)"
        "unat (prev_encoded_bytes b) + length xs \<le> unat (get_encode_avail b)" "unat (get_encode_avail b) \<le> length e"
      by blast
    define act where "act = length xs + unat (prev_encoded_bytes b)"
    have act: "act \<le> unat (get_encode_avail b)" using e(3) by (simp add: act_def)
    define b1 where "b1 = b\<lparr>encodeBuf := Some e\<rparr>"
    have ok1: "buffer_ok b1" unfolding b1_def by (rule buffer_ok_encode [OF c(2) nn e(2)])
    have f1: "code_depth b1 = code_depth b" "buf_decode_bytes_read b1 = buf_decode_bytes_read b"
      "get_decode_avail b1 = get_decode_avail b"
      by (simp_all add: b1_def get_decode_avail_def)
    have eq: "qp_decode_data d data =
        (case sf_qpdecode (take act e) (unat (get_decode_avail b1)) of
           None \<Rightarrow> Some (DECODE_FAIL, reset_decode_state (d\<lparr>dbuffer := b1\<rparr>))
         | Some (bytes_read, out) \<Rightarrow>
             if out = [] \<and> get_encode_avail b - prev_encoded_bytes b = 0
             then Some (DECODE_FAIL, reset_decode_state (d\<lparr>dbuffer := b1\<rparr>))
             else case save_rest bytes_read act b1 of (act', b2) \<Rightarrow> deliver act' out b2 d)"
      by (simp only: qp_decode_data_def Let_def c1 option.case prod.case bool.case xs_def [symmetric] e(1)
          act_def [symmetric] b1_def [symmetric])
    have fail: "step_ok d (Some (DECODE_FAIL, reset_decode_state (d\<lparr>dbuffer := b1\<rparr>)))"
      using ok1 f1 c(3,4) by (intro step_ok_fail) simp_all
    have dlv: "step_ok d (deliver act' out b2 d)"
      if q: "sf_qpdecode (take act e) (unat (get_decode_avail b1)) = Some (n, out)"
        and sv: "save_rest n act b1 = (act', b2)" for n out act' b2
    proof -
      have out: "length out \<le> unat (get_decode_avail b)" "n \<le> act"
        using sf_qpdecode_length [OF q] f1(3) by simp_all
      have "act - n < 2 ^ 32" using act u32_less [of "get_encode_avail b"] by linarith
      moreover have "n + (act - n) \<le> length e" using out(2) act e(4) by simp
      ultimately have "buffer_ok (save_buffer n (of_nat (act - n)) b1)" "buffer_ok (reset_saved b1)"
        using buffer_ok_saved [OF c(2) nn e(2)] unfolding b1_def by blast+
      then have "buffer_ok b2" using sv unfolding save_rest_def by (cases "n < act") (auto simp only: if_True if_False prod.inject)
      moreover have "code_depth b2 = code_depth b" "buf_decode_bytes_read b2 = buf_decode_bytes_read b"
        "get_encode_avail b2 = get_encode_avail b" "get_decode_avail b2 = get_decode_avail b" "act' \<le> act"
        using sv
        by (auto simp: save_rest_def b1_def save_buffer_def reset_saved_def get_encode_avail_def get_decode_avail_def
            split: if_splits)
      ultimately show ?thesis using nn act out(1) c(3,4) by (intro step_ok_deliver) simp_all
    qed
    show ?thesis
    proof (cases "sf_qpdecode (take act e) (unat (get_decode_avail b1))")
      case None
      show ?thesis unfolding eq None option.case by (rule fail)
    next
      case (Some no)
      obtain n out where no: "no = (n, out)" by fastforce
      obtain act' b2 where sv: "save_rest n act b1 = (act', b2)" by fastforce
      show ?thesis unfolding eq Some no option.case prod.case sv using fail dlv [OF Some [unfolded no] sv]
        by (rule if_split [THEN iffD2, OF conjI [OF impI impI]])
    qed
  qed
qed

section \<open>The decoders satisfy the contract\<close>

definition depth_ok :: "int \<Rightarrow> 'a buffered_decode_scheme \<Rightarrow> bool" where
  "depth_ok D d \<longleftrightarrow> buffer_ok (dbuffer d) \<and> code_depth (dbuffer d) = D"

definition depth_total :: "'a buffered_decode_scheme \<Rightarrow> nat" where
  "depth_total d = unat (buf_decode_bytes_read (dbuffer d))"

lemma step_depth:
  assumes "depth_ok D d" and "step_ok d res"
  shows "\<exists>r d'. res = Some (r, d') \<and> depth_ok D d'"
    and "0 < D \<Longrightarrow> res = Some (DECODE_SUCCESS, d') \<Longrightarrow> depth_total d' = depth_total d + length (handed_out d')"
    and "res = Some (r, d') \<Longrightarrow> r \<noteq> DECODE_SUCCESS \<Longrightarrow> depth_total d' = depth_total d"
  using assms by (auto simp: depth_ok_def step_ok_def depth_total_def delivered_def handed_out_def)

lemma depth_within:
  assumes "depth_ok D d" and "0 < D"
  shows "depth_total d \<le> nat D"
proof -
  from assms have "buf_decode_bytes_read (dbuffer d) \<le> of_int D" "D < 2 ^ 31"
    using buffer_okD [of "dbuffer d"] by (auto simp: depth_ok_def)
  moreover have "unat (of_int D :: u32) = nat D"
    using assms(2) \<open>D < 2 ^ 31\<close> by (intro unat_u32_of_int) simp_all
  ultimately show ?thesis by (simp add: depth_total_def word_le_nat_alt)
qed

lemma depth_ok_new:
  assumes "0 \<le> D" and "D < 2 ^ 31"
  shows "depth_ok D (buffered_new D det)" "depth_total (buffered_new D det) = 0"
proof -
  have f: "dbuffer (buffered_new D det) = decode_buffer_new D"
    by (simp add: buffered_new_def data_decode.defs data_decode_new_def)
  have "buffer_ok (decode_buffer_new D)"
    using assms by (intro buffer_okI) (auto simp: decode_buffer_new_def Let_def)
  then show "depth_ok D (buffered_new D det)" by (simp add: depth_ok_def f decode_buffer_new_def Let_def)
  show "depth_total (buffered_new D det) = 0" by (simp add: depth_total_def f decode_buffer_new_def Let_def)
qed

lemma safe_from_step:
  assumes "\<And>d data. buffer_ok (dbuffer d) \<Longrightarrow> step_ok d (f d data)"
  shows "safe_decoder (depth_ok D) f"
  using step_depth(1) [OF _ assms] by unfold_locales (simp add: depth_ok_def)

lemma limited_from_step:
  assumes f: "\<And>d data. buffer_ok (dbuffer d) \<Longrightarrow> step_ok d (f d data)"
  shows "limited_decoder (\<lambda>d. depth_ok D d \<and> 0 < D) f handed_out depth_total (nat D)"
proof
  fix s xs r s'
  show "\<exists>r s'. f s xs = Some (r, s') \<and> depth_ok D s' \<and> 0 < D" if "depth_ok D s \<and> 0 < D"
    using step_depth(1) [OF _ f] that by (auto simp: depth_ok_def)
  show "depth_total s' = depth_total s + length (handed_out s')"
    if "depth_ok D s \<and> 0 < D" "f s xs = Some (DECODE_SUCCESS, s')"
    using step_depth(2) [OF _ f] that by (auto simp: depth_ok_def)
  show "depth_total s' = depth_total s"
    if "depth_ok D s \<and> 0 < D" "f s xs = Some (r, s')" "r \<noteq> DECODE_SUCCESS"
    using step_depth(3) [OF _ f] that by (auto simp: depth_ok_def)
  show "depth_total s \<le> nat D" if "depth_ok D s \<and> 0 < D"
    using depth_within that by blast
qed

interpretation b64: safe_decoder "depth_ok D" b64_decode_data handed_out for D
  by (rule safe_from_step [OF b64_step_ok])

interpretation qp: safe_decoder "depth_ok D" qp_decode_data handed_out for D
  by (rule safe_from_step [OF qp_step_ok])

interpretation b64l: limited_decoder "\<lambda>d. depth_ok D d \<and> 0 < D" b64_decode_data handed_out depth_total "nat D" for D
  by (rule limited_from_step [OF b64_step_ok])

interpretation qpl: limited_decoder "\<lambda>d. depth_ok D d \<and> 0 < D" qp_decode_data handed_out depth_total "nat D" for D
  by (rule limited_from_step [OF qp_step_ok])

definition bit_ok :: "int \<Rightarrow> bit_decode \<Rightarrow> bool" where
  "bit_ok D d \<longleftrightarrow> decode_depth d = D \<and> 0 < D \<and> D < 2 ^ 31 \<and> unat (decode_bytes_read d) \<le> nat D"

lemma bit_step:
  assumes "bit_ok D d"
  shows "\<exists>r d'. bit_decode_data d data = Some (r, d') \<and> bit_ok D d' \<and>
    unat (decode_bytes_read d') = unat (decode_bytes_read d) + (if r = DECODE_SUCCESS then length (handed_out d') else 0)"
proof -
  let ?D = "of_int D :: u32" and ?act = "of_nat (length data) :: u32"
  from assms have "0 \<le> D" "D < 2 ^ 31" by (simp_all add: bit_ok_def)
  note uD = unat_u32_of_int [OF this]
  show ?thesis
  proof (cases "?D \<le> decode_bytes_read d")
    case True
    with assms show ?thesis by (auto simp: bit_decode_data_def bit_ok_def reset_decoded_bytes_def)
  next
    case False
    define n where "n = (if ?act > ?D - decode_bytes_read d then ?D - decode_bytes_read d else ?act)"
    have "n \<le> ?D - decode_bytes_read d" by (auto simp: n_def)
    from word_le_diff_add [OF _ this] False
    have sum: "decode_bytes_read d + n \<le> ?D" "unat (decode_bytes_read d + n) = unat (decode_bytes_read d) + unat n"
      by auto
    have "n \<le> ?act" by (auto simp: n_def)
    moreover have "unat ?act \<le> length data" by (simp add: unat_of_nat)
    ultimately have "unat n \<le> length data" by (simp add: word_le_nat_alt)
    then have len: "length (take (unat n) data) = unat n" by simp
    let ?d = "d\<lparr>decoded_bytes := n, decodePtr := Some (take (unat n) data), decode_bytes_read := decode_bytes_read d + n\<rparr>"
    have "bit_decode_data d data = Some (DECODE_SUCCESS, ?d)"
      using assms False by (simp add: bit_decode_data_def bit_ok_def Let_def n_def)
    moreover have "bit_ok D ?d" using assms sum uD by (simp add: bit_ok_def word_le_nat_alt)
    ultimately show ?thesis using sum(2) len by (auto simp: handed_out_def)
  qed
qed

interpretation bitl: limited_decoder "bit_ok D" bit_decode_data handed_out "\<lambda>d. unat (decode_bytes_read d)" "nat D" for D
proof
  fix s xs r s'
  show "\<exists>r s'. bit_decode_data s xs = Some (r, s') \<and> bit_ok D s'" if "bit_ok D s" using bit_step [OF that] by blast
  show "unat (decode_bytes_read s') = unat (decode_bytes_read s) + length (handed_out s')"
    if "bit_ok D s" "bit_decode_data s xs = Some (DECODE_SUCCESS, s')" using bit_step [OF that(1), of xs] that(2) by auto
  show "unat (decode_bytes_read s') = unat (decode_bytes_read s)"
    if "bit_ok D s" "bit_decode_data s xs = Some (r, s')" "r \<noteq> DECODE_SUCCESS"
    using bit_step [OF that(1), of xs] that(2,3) by auto
  show "unat (decode_bytes_read s) \<le> nat D" if "bit_ok D s" using that by (simp add: bit_ok_def)
qed

section \<open>Properties\<close>

text \<open>
  C24. Memory safety and depth limit. Whatever packets arrive, the Base64, quoted-printable and raw
  decoders never access memory outside their buffers, and with a decode depth \<open>D > 0\<close> the data they
  hand out over all packets together never exceeds \<open>D\<close> bytes.
\<close>

theorem decoders_within_depth:
  assumes "0 < D" and "D < 2 ^ 31"
  shows "(\<exists>outs d. decode_packets b64_decode_data handed_out (buffered_new D det) ps = Some (outs, d) \<and>
      length (concat outs) \<le> nat D) \<and>
    (\<exists>outs d. decode_packets qp_decode_data handed_out (buffered_new D det) ps = Some (outs, d) \<and>
      length (concat outs) \<le> nat D) \<and>
    (\<exists>outs d. decode_packets bit_decode_data handed_out (bit_new D det) ps = Some (outs, d) \<and>
      length (concat outs) \<le> nat D)"
proof (intro conjI)
  note new = depth_ok_new [of D det]
  show "\<exists>outs d. decode_packets b64_decode_data handed_out (buffered_new D det) ps = Some (outs, d) \<and>
      length (concat outs) \<le> nat D"
    using new assms by (intro b64l.packets_limit) simp_all
  show "\<exists>outs d. decode_packets qp_decode_data handed_out (buffered_new D det) ps = Some (outs, d) \<and>
      length (concat outs) \<le> nat D"
    using new assms by (intro qpl.packets_limit) simp_all
  show "\<exists>outs d. decode_packets bit_decode_data handed_out (bit_new D det) ps = Some (outs, d) \<and>
      length (concat outs) \<le> nat D"
    using assms
    by (intro bitl.packets_limit) (simp_all add: bit_ok_def bit_new_def data_decode.defs data_decode_new_def)
qed

theorem decoders_within_depth_witness:
  "\<exists>outs d. decode_packets b64_decode_data handed_out (buffered_new 4 0) [[0x54], [0x57, 0x45, 0x3d]] = Some (outs, d) \<and>
    length (concat outs) \<le> 4"
  using decoders_within_depth [of 4 0 "[[0x54], [0x57, 0x45, 0x3d]]"] by simp

text \<open>
  The uuencode decoder reads past its buffer. On a line with one encoded character at the very end of
  a full encode buffer (depth 8, the packet \<^verbatim>\<open>begin\<close>, newline, \<^verbatim>\<open>!A\<close>), the decoder combines the
  character with the byte behind the buffer.
\<close>

theorem uu_overread:
  "uu_decode_data (uu_new 8 0) [0x62, 0x65, 0x67, 0x69, 0x6e, 0x0a, 0x21, 0x41] = None"
  by code_simp

text \<open>
  Detection depth. With a detection depth \<open>\<delta> > 0\<close>, the part of the current data that rules may
  examine is exactly the part among the first \<open>\<delta>\<close> decoded bytes of the attachment: \<open>decode_bytes_read\<close>
  counts the current data, so what came before are \<open>rd - n\<close> bytes.
\<close>

theorem detection_depth_window:
  assumes "0 < detection_depth d" and "decoded_bytes d \<le> decode_bytes_read d"
  shows "get_detection_depth d =
    min (int (unat (decoded_bytes d)))
      (max 0 (detection_depth d - (int (unat (decode_bytes_read d)) - int (unat (decoded_bytes d)))))"
  using assms by (auto simp: get_detection_depth_def Let_def word_le_nat_alt)

theorem detection_depth_window_witness:
  "get_detection_depth \<lparr>decoded_bytes = 10, decode_bytes_read = 25, decodePtr = None, detection_depth = 20\<rparr> = 5"
  using detection_depth_window [of "\<lparr>decoded_bytes = 10, decode_bytes_read = 25, decodePtr = None, detection_depth = 20\<rparr>"]
  by simp

end
