(* ===== verification/Mime_Stream.thy ===== *)
theory Mime_Stream
  imports Mime_Safety
begin

text \<open>
  End-to-end behaviour of the Base64 attachment decoder on a text that arrives in packets, and
  the resumption of the quoted-printable decoder.
\<close>

section \<open>The bytes saved between packets\<close>

definition pending :: "decode_buffer \<Rightarrow> bytes" where
  "pending b = (if prev_encoded_bytes b = 0 then []
     else take (unat (prev_encoded_bytes b)) (drop (the (prev_encoded_buf b)) (the (encodeBuf b))))"

lemma length_pending:
  assumes "buffer_ok b" and "0 \<le> code_depth b"
  shows "length (pending b) = unat (prev_encoded_bytes b)"
proof (cases "prev_encoded_bytes b = 0")
  case False
  with buffer_okE [OF assms] obtain e off where "encodeBuf b = Some e" "prev_encoded_buf b = Some off"
    "off + unat (prev_encoded_bytes b) \<le> length e" by metis
  with False show ?thesis by (simp add: pending_def)
qed (simp add: pending_def)

lemma check_restore_pending:
  assumes ok: "buffer_ok b" and nn: "0 \<le> code_depth b"
    and av: "get_encode_avail b \<noteq> 0" "get_decode_avail b \<noteq> 0" "prev_encoded_bytes b \<le> get_encode_avail b"
  shows "\<exists>b'. check_restore_buffer b = Some (True, b') \<and> buffer_ok b' \<and> code_depth b' = code_depth b \<and>
    buf_size b' = buf_size b \<and> prev_encoded_bytes b' = prev_encoded_bytes b \<and>
    encode_bytes_read b' = encode_bytes_read b \<and> buf_decode_bytes_read b' = buf_decode_bytes_read b \<and>
    take (unat (prev_encoded_bytes b)) (the (encodeBuf b')) = pending b"
proof (cases "prev_encoded_bytes b = 0")
  case True
  from buffer_okE [OF ok nn] obtain e d where "encodeBuf b = Some e" "decodeBuf b = Some d" by metis
  with True av ok show ?thesis by (simp add: check_restore_buffer_def pending_def)
next
  case False
  from buffer_okE [OF ok nn] False obtain e d off where e: "encodeBuf b = Some e" "decodeBuf b = Some d"
    "prev_encoded_buf b = Some off" "off + unat (prev_encoded_bytes b) \<le> length e" "length e = unat (buf_size b)" by metis
  define e' where "e' = take (unat (prev_encoded_bytes b)) (drop off e) @ drop (unat (prev_encoded_bytes b)) e"
  have r: "restore_loop off 0 (unat (prev_encoded_bytes b)) e = Some e'"
    using restore_loop_eq [of off 0 "unat (prev_encoded_bytes b)" e] e(4) by (simp add: e'_def)
  have len: "length e' = unat (buf_size b)" using e(4,5) by (simp add: e'_def)
  have "check_restore_buffer b = Some (True, b\<lparr>encodeBuf := Some e'\<rparr>)"
    using False av e r by (simp add: check_restore_buffer_def Let_def not_less [symmetric])
  moreover have "take (unat (prev_encoded_bytes b)) e' = pending b"
    using False e by (simp add: pending_def e'_def)
  ultimately show ?thesis using buffer_ok_encode [OF ok nn len] by simp
qed

section \<open>Base64 over packets\<close>

lemma b64_step_unlimited:
  assumes ok: "depth_ok 0 d" and pd: "length (pending (dbuffer d)) < 4"
    and xs: "xs = filter (\<lambda>c. \<not> line_end c) data" and len: "length data \<le> 65532"
    and n: "n = 4 * (length (pending (dbuffer d) @ xs) div 4)"
    and out: "sf_base64decode (take n (pending (dbuffer d) @ xs)) 65536 = Inr out"
  shows "\<exists>d'. b64_decode_data d data = Some (DECODE_SUCCESS, d') \<and> depth_ok 0 d' \<and> handed_out d' = out \<and>
    pending (dbuffer d') = drop n (pending (dbuffer d) @ xs)"
proof -
  let ?b = "dbuffer d" and ?p = "pending (dbuffer d)"
  from ok have bok: "buffer_ok ?b" "code_depth ?b = 0" "0 \<le> code_depth ?b" by (simp_all add: depth_ok_def)
  have av: "get_encode_avail ?b = 65536" "get_decode_avail ?b = 65536"
    using buffer_okD(2) [OF bok(1,3)] bok(2) by (simp_all add: get_encode_avail_def get_decode_avail_def)
  have pl: "length ?p = unat (prev_encoded_bytes ?b)" by (rule length_pending [OF bok(1,3)])
  with pd have pv: "prev_encoded_bytes ?b \<le> 65536" by (simp add: word_le_nat_alt)
  from check_restore_pending [OF bok(1,3)] av pv obtain b where
    c: "check_restore_buffer ?b = Some (True, b)" "buffer_ok b" "code_depth b = 0" "prev_encoded_bytes b = prev_encoded_bytes ?b"
      "take (unat (prev_encoded_bytes b)) (the (encodeBuf b)) = ?p" "buf_size b = buf_size ?b"
      "buf_decode_bytes_read b = buf_decode_bytes_read ?b"
    using bok(2) by auto
  have nn: "0 \<le> code_depth b" by (simp add: c(3))
  have avb: "get_encode_avail b = 65536" "get_decode_avail b = 65536"
    using c(3,6) bok(2) buffer_okD(2) [OF bok(1,3)] by (simp_all add: get_encode_avail_def get_decode_avail_def)
  have free: "unat (get_encode_avail b - prev_encoded_bytes b) = 65536 - length ?p"
    using pv c(4) pl by (simp add: avb unat_sub)
  have xl: "length xs \<le> 65532" unfolding xs by (rule order_trans [OF length_filter_le len])
  then have st: "sf_strip_CRLF data (unat (get_encode_avail b - prev_encoded_bytes b)) = xs"
    using pd by (simp add: sf_strip_CRLF_eq free xs)
  have fit: "length xs \<le> unat (get_encode_avail b - prev_encoded_bytes b)" using xl pd by (simp add: free)
  have pvb: "prev_encoded_bytes b \<le> get_encode_avail b" using pv c(4) avb by simp
  from append_encoded [OF c(2) nn pvb fit, unfolded c(5)] obtain e where
    e: "mem_write (the (encodeBuf b)) (unat (prev_encoded_bytes b)) xs = Some e" "length e = unat (buf_size b)"
      "unat (prev_encoded_bytes b) + length xs \<le> unat (get_encode_avail b)" "unat (get_encode_avail b) \<le> length e"
      "take (unat (prev_encoded_bytes b) + length xs) e = ?p @ xs" by blast
  have e': "unat (get_encode_avail b) = 65536" by (simp add: avb)
  define act where "act = length xs + unat (prev_encoded_bytes b)"
  have act: "act = length (?p @ xs)" "take act e = ?p @ xs" "act - act mod 4 = n" "n \<le> act"
    using e(5) pl c(4) by (simp_all add: act_def add.commute n minus_mod_eq_mult_div)
  define b2 where "b2 = (if act mod 4 \<noteq> 0 then save_buffer n (of_nat (act mod 4)) (b\<lparr>encodeBuf := Some e\<rparr>)
      else reset_saved (b\<lparr>encodeBuf := Some e\<rparr>))"
  have sum: "n + act mod 4 = act" using act(3,4) by simp
  have "n + act mod 4 \<le> length e" "act mod 4 < 2 ^ 32"
    using e(3,4) by (simp_all add: sum) (simp_all add: act_def add.commute order_less_le_trans [OF mod_less_divisor])
  then have ok2: "buffer_ok b2" using buffer_ok_saved [OF c(2) nn e(2)] by (simp add: b2_def)
  have f2: "code_depth b2 = 0" "get_encode_avail b2 = 65536" "get_decode_avail b2 = 65536" "encodeBuf b2 = Some e"
    "buf_decode_bytes_read b2 = buf_decode_bytes_read ?b"
    using c(3,7) avb by (simp_all add: b2_def save_buffer_def reset_saved_def get_encode_avail_def get_decode_avail_def)
  have tk: "take n e = take n (?p @ xs)" using act(2,4) by (metis min.absorb1 take_take)
  have dc: "sf_base64decode (take n e) (unat (get_decode_avail b2)) = Inr out"
    using out unfolding tk f2(3) by simp
  have nz: "get_encode_avail b - prev_encoded_bytes b \<noteq> 0"
  proof
    assume "get_encode_avail b - prev_encoded_bytes b = 0"
    with free pd show False by simp
  qed
  have eq: "b64_decode_data d data = deliver n out b2 d"
    using nz dc
    by (simp only: b64_decode_data_def Let_def c(1) option.case prod.case bool.case st e(1) act_def [symmetric]
        act(3) b2_def [symmetric] sum.case simp_thms if_False)
  have "n \<le> unat (get_encode_avail b2)" using act(4) e(3) e' f2(2) by (simp add: act_def)
  then obtain d' where d': "deliver n out b2 d = Some (DECODE_SUCCESS, d')" "delivered d out d'"
    using deliver_ok [OF ok2 _ _ sf_base64decode_length [OF dc], of n d] f2 bok(2) by auto
  have "encodeBuf (dbuffer d') = Some e \<and> prev_encoded_bytes (dbuffer d') = of_nat (act mod 4) \<and>
      (act mod 4 \<noteq> 0 \<longrightarrow> prev_encoded_buf (dbuffer d') = Some n)"
    using d'(1) f2(4)
    by (auto simp: deliver_def update_buffer_def Let_def b2_def save_buffer_def reset_saved_def split: option.splits)
  moreover have "unat (of_nat (act mod 4) :: u32) = act mod 4" by (simp add: unat_of_nat)
  ultimately have "pending (dbuffer d') = take (act mod 4) (drop n e)"
    by (cases "act mod 4 = 0") (auto simp: pending_def)
  also have "\<dots> = drop n (?p @ xs)"
    using act(2) sum by (metis drop_take add_diff_cancel_left')
  finally show ?thesis using d' eq ok bok(2) by (auto simp: depth_ok_def delivered_def handed_out_def)
qed

lemma b64_packets_spec:
  assumes "depth_ok 0 d" and "length (pending (dbuffer d)) < 4"
    and "pending (dbuffer d) @ filter (\<lambda>c. \<not> line_end c) (concat ps) = base64_spec ys"
    and "\<forall>p\<in>set ps. length p \<le> 65532"
  shows "\<exists>outs d'. decode_packets b64_decode_data handed_out d ps = Some (outs, d') \<and> concat outs = ys"
  using assms
proof (induction ps arbitrary: d ys)
  case Nil
  then have "length (base64_spec ys) < 4" by simp
  then have "(length ys + 2) div 3 = 0" by (simp add: length_base64_spec)
  then have "ys = []" by (cases ys) simp_all
  then show ?case by simp
next
  case (Cons p ps)
  define xs where "xs = filter (\<lambda>c. \<not> line_end c) p"
  define s where "s = pending (dbuffer d) @ xs"
  define k where "k = length s div 4"
  have split: "s @ filter (\<lambda>c. \<not> line_end c) (concat ps) = base64_spec ys"
    using Cons.prems(3) by (simp add: s_def xs_def)
  have k: "4 * k \<le> length s" by (simp add: k_def)
  have tk: "take (4 * k) s = base64_spec (take (3 * k) ys)"
  proof -
    have "take (4 * k) (base64_spec ys) = take (4 * k) s" using k unfolding split [symmetric] by simp
    then show ?thesis by (simp add: base64_spec_take)
  qed
  have "length s \<le> 65535"
    using Cons.prems(2,4) order_trans [OF length_filter_le [of "\<lambda>c. \<not> line_end c" p]]
    by (simp add: s_def xs_def) fastforce
  then have "length (take (3 * k) ys) \<le> 65536" by (simp add: k_def)
  then have "sf_base64decode (take (4 * k) s) 65536 = Inr (take (3 * k) ys)"
    unfolding tk by (rule sf_base64decode_spec [OF base64_spec_filter])
  from b64_step_unlimited [OF Cons.prems(1,2) xs_def, of "4 * k" "take (3 * k) ys"] Cons.prems(4) this
  obtain d1 where d1: "b64_decode_data d p = Some (DECODE_SUCCESS, d1)" "depth_ok 0 d1"
    "handed_out d1 = take (3 * k) ys" "pending (dbuffer d1) = drop (4 * k) s"
    by (auto simp: s_def k_def)
  have "length (drop (4 * k) s) < 4" by (simp add: k_def)
  moreover have "drop (4 * k) s @ filter (\<lambda>c. \<not> line_end c) (concat ps) = base64_spec (drop (3 * k) ys)"
  proof -
    have "drop (4 * k) (base64_spec ys) = drop (4 * k) s @ filter (\<lambda>c. \<not> line_end c) (concat ps)"
      using k unfolding split [symmetric] by simp
    then show ?thesis by (simp add: base64_spec_drop)
  qed
  ultimately obtain outs d' where "decode_packets b64_decode_data handed_out d1 ps = Some (outs, d')"
    "concat outs = drop (3 * k) ys"
    using Cons.IH [OF d1(2), of "drop (3 * k) ys"] Cons.prems(4) by (auto simp: d1(4))
  with d1 show ?case by simp
qed

section \<open>Resumption of the quoted-printable decoder\<close>

lemma qp_loop_suffix: "qp_loop dlen out xs = (rest, out') \<Longrightarrow> suffix rest xs"
proof (induction out xs rule: qp_induct [where dlen = dlen])
  case (plain out ch src)
  then show ?case by (simp add: qp_plain suffix_ConsI)
next
  case (escape out c1 c2 src)
  then show ?case by (simp add: qp_escape suffix_ConsI split: if_splits)
qed (auto simp: qp_full qp_short split: if_splits)

lemma qp_resume:
  "qp_loop dlen out xs = (rest, out') \<Longrightarrow> length out' < dlen \<Longrightarrow> qp_loop dlen out (xs @ ys) = qp_loop dlen out' (rest @ ys)"
proof (induction out xs rule: qp_induct [where dlen = dlen])
  case (plain out ch src)
  then show ?case by (simp add: qp_plain)
next
  case (short2 out c)
  have "qp_loop dlen out (0x3d # 0x0a # ys) = qp_loop dlen out ys"
    using short2(1) by (cases ys) (simp_all add: qp_short qp_escape)
  with short2 show ?case by (auto simp: qp_short split: if_splits)
next
  case (escape out c1 c2 src)
  then show ?case by (auto simp add: qp_escape split: if_splits)
qed (auto simp: qp_full qp_short split: if_splits)

section \<open>Properties\<close>





end
