(* ===== verification/Linked_List.thy ===== *)
theory Linked_List
  imports Snort_Prelude
begin

text \<open>
  Doubly linked lists in a heap: a segment is described by the successor and predecessor functions \<open>n\<close> and \<open>p\<close>,
  the entry pointer, the predecessor of the first and the successor of the last node. Singly
  linked free lists use the successor only.
\<close>

type_synonym ptr = "nat option"

fun dlseg :: "(nat \<Rightarrow> ptr) \<Rightarrow> (nat \<Rightarrow> ptr) \<Rightarrow> ptr \<Rightarrow> ptr \<Rightarrow> nat list \<Rightarrow> ptr \<Rightarrow> bool" where
  "dlseg n p h pv [] nx \<longleftrightarrow> h = nx"
| "dlseg n p h pv (a # as) nx \<longleftrightarrow> h = Some a \<and> p a = pv \<and> dlseg n p (n a) (Some a) as nx"

fun slseg :: "(nat \<Rightarrow> ptr) \<Rightarrow> ptr \<Rightarrow> nat list \<Rightarrow> bool" where
  "slseg n h [] \<longleftrightarrow> h = None"
| "slseg n h (a # as) \<longleftrightarrow> h = Some a \<and> slseg n (n a) as"

definition lastp :: "nat list \<Rightarrow> ptr \<Rightarrow> ptr" where
  "lastp xs pv = (if xs = [] then pv else Some (last xs))"

definition firstp :: "nat list \<Rightarrow> ptr \<Rightarrow> ptr" where
  "firstp xs nx = (if xs = [] then nx else Some (hd xs))"

lemma lastp_simps [simp]: "lastp [] pv = pv" "lastp (xs @ [a]) pv = Some a" "lastp (a # xs) pv = lastp xs (Some a)"
  by (simp_all add: lastp_def)

lemma firstp_simps [simp]: "firstp [] nx = nx" "firstp (a # xs) nx = Some a"
  by (simp_all add: firstp_def)

lemma dlseg_append:
  "dlseg n p h pv (xs @ ys) nx \<longleftrightarrow> (\<exists>m. dlseg n p h pv xs m \<and> dlseg n p m (lastp xs pv) ys nx)"
  by (induction xs arbitrary: h pv) auto

lemma dlseg_entry_ptr: "dlseg n p h pv xs nx \<Longrightarrow> h = firstp xs nx"
  by (cases xs) auto

lemma slseg_entry_ptr: "slseg n h xs \<Longrightarrow> h = firstp xs None"
  by (cases xs) auto

lemma dlseg_frame:
  "dlseg n p h pv xs nx \<Longrightarrow> (\<And>a. a \<in> set xs \<Longrightarrow> n' a = n a \<and> p' a = p a) \<Longrightarrow> dlseg n' p' h pv xs nx"
  by (induction xs arbitrary: h pv) auto

lemma slseg_frame: "slseg n h xs \<Longrightarrow> (\<And>a. a \<in> set xs \<Longrightarrow> n' a = n a) \<Longrightarrow> slseg n' h xs"
  by (induction xs arbitrary: h) auto

lemma dlseg_exit:
  "dlseg n p h pv xs nx \<Longrightarrow> distinct xs \<Longrightarrow> xs \<noteq> [] \<Longrightarrow> dlseg (n(last xs := m)) p h pv xs m"
proof (induction xs arbitrary: h pv)
  case (Cons a xs)
  show ?case
  proof (cases "xs = []")
    case False
    with Cons.prems have "last xs \<noteq> a" by auto
    with Cons False show ?thesis by simp
  qed (use Cons.prems in simp)
qed simp

lemma dlseg_entry:
  assumes "dlseg n p h pv xs nx" and "distinct xs" and "xs \<noteq> []"
  shows "dlseg n (p(hd xs := q)) h q xs nx"
proof (cases xs)
  case (Cons a as)
  with assms(1) have "dlseg n p (n a) (Some a) as nx" by simp
  moreover have "(p(a := q)) b = p b" if "b \<in> set as" for b using that assms(2) Cons by auto
  ultimately show ?thesis using assms(1) Cons dlseg_frame [of n p "n a" "Some a" as nx n "p(a := q)"] by simp
qed (use assms in simp)

lemma dlseg_middle:
  assumes "dlseg n p h pv (ys @ a # zs) nx"
  shows "p a = lastp ys pv" "n a = firstp zs nx"
  using assms dlseg_entry_ptr by (auto simp: dlseg_append)

text \<open>Pushing a node in front and removing a node.\<close>

lemma dlseg_push:
  assumes "dlseg n p h None xs None" and "distinct xs" and "a \<notin> set xs"
  shows "dlseg (n(a := h)) ((if xs = [] then p else p(hd xs := Some a))(a := None)) (Some a) None (a # xs) None"
proof (cases xs)
  case Nil
  with assms(1) show ?thesis by simp
next
  case (Cons b bs)
  from dlseg_entry [OF assms(1,2), of "Some a"] Cons have "dlseg n (p(b := Some a)) h (Some a) xs None" by simp
  then have "dlseg (n(a := h)) ((p(b := Some a))(a := None)) h (Some a) xs None"
    by (rule dlseg_frame) (use assms(3) in auto)
  then show ?thesis using Cons assms(3) by auto
qed

lemma dlseg_remove:
  assumes "dlseg n p h None (ys @ a # zs) None" and "distinct (ys @ a # zs)"
  shows "dlseg (if ys = [] then n else n(last ys := n a)) (if zs = [] then p else p(hd zs := p a))
    (if ys = [] then n a else h) None (ys @ zs) None"
proof -
  from assms(1) obtain m where y: "dlseg n p h None ys m" and z: "dlseg n p (n a) (Some a) zs None"
    and m: "m = Some a" by (auto simp: dlseg_append)
  note mid = dlseg_middle [OF assms(1)]
  let ?n = "if ys = [] then n else n(last ys := n a)" and ?p = "if zs = [] then p else p(hd zs := p a)"
  have ly: "ys \<noteq> [] \<Longrightarrow> last ys \<in> set ys" and hz: "zs \<noteq> [] \<Longrightarrow> hd zs \<in> set zs" by auto
  have "dlseg n ?p (n a) (p a) zs None"
  proof (cases "zs = []")
    case False
    with dlseg_entry [OF z, of "p a"] assms(2) show ?thesis by simp
  qed (use z in simp)
  then have z': "dlseg ?n ?p (n a) (p a) zs None"
    by (rule dlseg_frame) (use ly assms(2) in fastforce)
  show ?thesis
  proof (cases "ys = []")
    case True
    with z' mid show ?thesis by simp
  next
    case False
    have "dlseg (n(last ys := n a)) p h None ys (n a)" using dlseg_exit [OF y] assms(2) False by simp
    then have "dlseg ?n ?p h None ys (n a)"
      by (rule dlseg_frame) (use False hz assms(2) in fastforce)
    with z' mid(1) False show ?thesis by (auto simp: dlseg_append lastp_def)
  qed
qed

lemma slseg_push: "slseg n h xs \<Longrightarrow> a \<notin> set xs \<Longrightarrow> slseg (n(a := h)) (Some a) (a # xs)"
  by (auto intro: slseg_frame)

end
