(* ===== verification/ZHash.thy ===== *)
theory ZHash
  imports Linked_List
begin

text \<open>
  The hash table of the flow cache, \<^verbatim>\<open>src/hash/zhash.cc\<close>: nodes on doubly linked row lists, a doubly linked
  global list in order of use and a free list. Nodes live in a heap, a function from addresses to node
  records; a pointer is an address or null. The hash function is a field and keys are compared for
  equality, as the default operations do. Allocation takes the address of the new node as an argument.
\<close>

unbundle bit_operations_syntax

section \<open>Data\<close>

record ('k, 'd) znode =
  gnext :: ptr
  gprev :: ptr
  rnext :: ptr
  rprev :: ptr
  rindex :: nat
  zkey :: 'k
  zdata :: 'd

record ('k, 'd) zhash =
  heap :: "nat \<Rightarrow> ('k, 'd) znode"
  hash_fcn :: "'k \<Rightarrow> u32"
  nrows :: nat
  zcount :: u32
  find_fail :: u32
  find_success :: u32
  table :: "ptr list"
  ghead :: ptr
  gtail :: ptr
  fhead :: ptr
  cursor :: ptr

text \<open>Assignments through a pointer.\<close>

definition set_gnext :: "nat \<Rightarrow> ptr \<Rightarrow> ('k, 'd) zhash \<Rightarrow> ('k, 'd) zhash" where
  "set_gnext a x z = z\<lparr>heap := (heap z)(a := (heap z a)\<lparr>gnext := x\<rparr>)\<rparr>"

definition set_gprev :: "nat \<Rightarrow> ptr \<Rightarrow> ('k, 'd) zhash \<Rightarrow> ('k, 'd) zhash" where
  "set_gprev a x z = z\<lparr>heap := (heap z)(a := (heap z a)\<lparr>gprev := x\<rparr>)\<rparr>"

definition set_rnext :: "nat \<Rightarrow> ptr \<Rightarrow> ('k, 'd) zhash \<Rightarrow> ('k, 'd) zhash" where
  "set_rnext a x z = z\<lparr>heap := (heap z)(a := (heap z a)\<lparr>rnext := x\<rparr>)\<rparr>"

definition set_rprev :: "nat \<Rightarrow> ptr \<Rightarrow> ('k, 'd) zhash \<Rightarrow> ('k, 'd) zhash" where
  "set_rprev a x z = z\<lparr>heap := (heap z)(a := (heap z a)\<lparr>rprev := x\<rparr>)\<rparr>"

definition set_row :: "nat \<Rightarrow> ptr \<Rightarrow> ('k, 'd) zhash \<Rightarrow> ('k, 'd) zhash" where
  "set_row i x z = z\<lparr>table := (table z)[i := x]\<rparr>"

section \<open>List operations\<close>

definition save_free_node :: "nat \<Rightarrow> ('k, 'd) zhash \<Rightarrow> ('k, 'd) zhash" where
  "save_free_node node z =
     (case fhead z of
        Some f \<Rightarrow> (set_gprev f (Some node) (set_gnext node (fhead z) (set_gprev node None z)))\<lparr>fhead := Some node\<rparr>
      | None \<Rightarrow> (set_gnext node None (set_gprev node None z))\<lparr>fhead := Some node\<rparr>)"

definition get_free_node :: "('k, 'd) zhash \<Rightarrow> ptr \<times> ('k, 'd) zhash" where
  "get_free_node z =
     (case fhead z of
        None \<Rightarrow> (None, z)
      | Some f \<Rightarrow>
          (let z1 = z\<lparr>fhead := gnext (heap z f)\<rparr>
           in (Some f, case fhead z1 of None \<Rightarrow> z1 | Some f' \<Rightarrow> set_gprev f' None z1)))"

definition glink_node :: "nat \<Rightarrow> ('k, 'd) zhash \<Rightarrow> ('k, 'd) zhash" where
  "glink_node node z =
     (case ghead z of
        Some h \<Rightarrow> (set_gprev h (Some node) (set_gnext node (ghead z) (set_gprev node None z)))\<lparr>ghead := Some node\<rparr>
      | None \<Rightarrow> (set_gnext node None (set_gprev node None z))\<lparr>ghead := Some node, gtail := Some node\<rparr>)"

definition gunlink_node :: "nat \<Rightarrow> ('k, 'd) zhash \<Rightarrow> ('k, 'd) zhash" where
  "gunlink_node node z =
     (let z1 = (if cursor z = Some node then z\<lparr>cursor := gprev (heap z node)\<rparr> else z);
          z2 = (if ghead z1 = Some node then
                  (let z' = z1\<lparr>ghead := gnext (heap z1 node)\<rparr>
                   in case ghead z' of Some h \<Rightarrow> set_gprev h None z' | None \<Rightarrow> z')
                else z1);
          z3 = (case gprev (heap z2 node) of Some p \<Rightarrow> set_gnext p (gnext (heap z2 node)) z2 | None \<Rightarrow> z2);
          z4 = (case gnext (heap z3 node) of Some n \<Rightarrow> set_gprev n (gprev (heap z3 node)) z3 | None \<Rightarrow> z3)
      in if gtail z4 = Some node then z4\<lparr>gtail := gprev (heap z4 node)\<rparr> else z4)"

definition link_node :: "nat \<Rightarrow> ('k, 'd) zhash \<Rightarrow> ('k, 'd) zhash" where
  "link_node node z =
     (let i = rindex (heap z node)
      in case table z ! i of
           Some h \<Rightarrow> set_row i (Some node) (set_rprev h (Some node) (set_rnext node (Some h) (set_rprev node None z)))
         | None \<Rightarrow> set_row i (Some node) (set_rnext node None (set_rprev node None z)))"

definition unlink_node :: "nat \<Rightarrow> ('k, 'd) zhash \<Rightarrow> ('k, 'd) zhash" where
  "unlink_node node z =
     (case rprev (heap z node) of
        Some p \<Rightarrow>
          (let z1 = set_rnext p (rnext (heap z node)) z
           in case rnext (heap z1 node) of Some n \<Rightarrow> set_rprev n (rprev (heap z1 node)) z1 | None \<Rightarrow> z1)
      | None \<Rightarrow>
          (let i = rindex (heap z node)
           in case table z ! i of
                None \<Rightarrow> z
              | Some h \<Rightarrow>
                  (let z1 = set_row i (rnext (heap z h)) z
                   in case table z1 ! i of Some h' \<Rightarrow> set_rprev h' None z1 | None \<Rightarrow> z1)))"

definition move_to_front :: "nat \<Rightarrow> ('k, 'd) zhash \<Rightarrow> ('k, 'd) zhash" where
  "move_to_front node z =
     (let z1 = (if table z ! rindex (heap z node) \<noteq> Some node then link_node node (unlink_node node z) else z)
      in if Some node \<noteq> ghead z1 then glink_node node (gunlink_node node z1) else z1)"

section \<open>Operations\<close>

definition row_index :: "('k, 'd) zhash \<Rightarrow> 'k \<Rightarrow> nat" where
  "row_index z k = unat (hash_fcn z k AND (of_nat (nrows z) - 1))"

text \<open>The walk along a row; \<open>None\<close> if it does not end.\<close>

partial_function (option) row_search :: "('k, 'd) zhash \<Rightarrow> 'k \<Rightarrow> ptr \<Rightarrow> ptr option" where
  "row_search z k p =
     (case p of
        None \<Rightarrow> Some None
      | Some a \<Rightarrow> if zkey (heap z a) = k then Some (Some a) else row_search z k (rnext (heap z a)))"

definition find_node_row :: "'k \<Rightarrow> ('k, 'd) zhash \<Rightarrow> (ptr \<times> nat \<times> ('k, 'd) zhash) option" where
  "find_node_row k z =
     (let row = row_index z k
      in case row_search z k (table z ! row) of
           None \<Rightarrow> None
         | Some (Some node) \<Rightarrow>
             (let z1 = move_to_front node z in Some (Some node, row, z1\<lparr>find_success := find_success z1 + 1\<rparr>))
         | Some None \<Rightarrow> Some (None, row, z\<lparr>find_fail := find_fail z + 1\<rparr>))"

text \<open>The loop over the shifts \<open>1, 2, 4, 8, 16\<close> on a non-negative \<^verbatim>\<open>int\<close>.\<close>

definition nearest_powerof2 :: "int \<Rightarrow> int" where
  "nearest_powerof2 rows = fold (\<lambda>i r. r OR drop_bit i r) [1, 2, 4, 8, 16] (rows - 1) + 1"

definition zhash_new :: "int \<Rightarrow> ('k \<Rightarrow> u32) \<Rightarrow> (nat \<Rightarrow> ('k, 'd) znode) \<Rightarrow> ('k, 'd) zhash" where
  "zhash_new rows hf mem =
     (let n = nat (if rows > 0 then nearest_powerof2 rows else - rows)
      in \<lparr>heap = mem, hash_fcn = hf, nrows = n, zcount = 0, find_fail = 0, find_success = 0,
          table = replicate n None, ghead = None, gtail = None, fhead = None, cursor = None\<rparr>)"

definition zhash_push :: "nat \<Rightarrow> 'd \<Rightarrow> ('k, 'd) zhash \<Rightarrow> ('k, 'd) zhash" where
  "zhash_push a p z =
     save_free_node a (z\<lparr>heap := (heap z)(a := \<lparr>gnext = None, gprev = None, rnext = None, rprev = None,
       rindex = 0, zkey = zkey (heap z a), zdata = p\<rparr>)\<rparr>)"

definition zhash_pop :: "('k, 'd) zhash \<Rightarrow> 'd option \<times> ('k, 'd) zhash" where
  "zhash_pop z = (case get_free_node z of (node, z1) \<Rightarrow> (map_option (\<lambda>a. zdata (heap z1 a)) node, z1))"

definition zhash_get :: "'k \<Rightarrow> ('k, 'd) zhash \<Rightarrow> ('d option \<times> bool \<times> ('k, 'd) zhash) option" where
  "zhash_get k z =
     (case find_node_row k z of
        None \<Rightarrow> None
      | Some (Some node, row, z1) \<Rightarrow> Some (Some (zdata (heap z1 node)), False, z1)
      | Some (None, row, z1) \<Rightarrow>
          (case get_free_node z1 of
             (None, z2) \<Rightarrow> Some (None, False, z2)
           | (Some node, z2) \<Rightarrow>
               (let z3 = z2\<lparr>heap := (heap z2)(node := (heap z2 node)\<lparr>zkey := k, rindex := row\<rparr>)\<rparr>;
                    z4 = glink_node node (link_node node z3);
                    z5 = z4\<lparr>zcount := zcount z4 + 1\<rparr>
                in Some (Some (zdata (heap z5 node)), True, z5))))"

definition zhash_find :: "'k \<Rightarrow> ('k, 'd) zhash \<Rightarrow> ('d option \<times> ('k, 'd) zhash) option" where
  "zhash_find k z =
     (case find_node_row k z of
        None \<Rightarrow> None
      | Some (node, row, z1) \<Rightarrow> Some (map_option (\<lambda>a. zdata (heap z1 a)) node, z1))"

definition zhash_current :: "('k, 'd) zhash \<Rightarrow> 'd option" where
  "zhash_current z = map_option (\<lambda>a. zdata (heap z a)) (cursor z)"

definition zhash_first :: "('k, 'd) zhash \<Rightarrow> 'd option \<times> ('k, 'd) zhash" where
  "zhash_first z = (let z1 = z\<lparr>cursor := gtail z\<rparr> in (zhash_current z1, z1))"

definition zhash_next :: "('k, 'd) zhash \<Rightarrow> 'd option \<times> ('k, 'd) zhash" where
  "zhash_next z =
     (case cursor z of
        None \<Rightarrow> (None, z)
      | Some c \<Rightarrow> (let z1 = z\<lparr>cursor := gprev (heap z c)\<rparr> in (zhash_current z1, z1)))"

definition zhash_touch :: "('k, 'd) zhash \<Rightarrow> bool \<times> ('k, 'd) zhash" where
  "zhash_touch z =
     (case cursor z of
        None \<Rightarrow> (False, z)
      | Some node \<Rightarrow>
          (let z1 = z\<lparr>cursor := gprev (heap z node)\<rparr>
           in if Some node \<noteq> ghead z1 then (True, glink_node node (gunlink_node node z1)) else (False, z1)))"

definition remove_node :: "ptr \<Rightarrow> ('k, 'd) zhash \<Rightarrow> bool \<times> ('k, 'd) zhash" where
  "remove_node p z =
     (case p of
        None \<Rightarrow> (False, z)
      | Some node \<Rightarrow>
          (let z1 = gunlink_node node (unlink_node node z);
               z2 = z1\<lparr>zcount := zcount z1 - 1\<rparr>
           in (True, save_free_node node z2)))"

definition zhash_remove_cursor :: "('k, 'd) zhash \<Rightarrow> bool \<times> ('k, 'd) zhash" where
  "zhash_remove_cursor z = remove_node (cursor z) (z\<lparr>cursor := None\<rparr>)"

definition zhash_remove :: "'k \<Rightarrow> ('k, 'd) zhash \<Rightarrow> (bool \<times> ('k, 'd) zhash) option" where
  "zhash_remove k z =
     (case find_node_row k z of
        None \<Rightarrow> None
      | Some (node, row, z1) \<Rightarrow> Some (remove_node node z1))"

section \<open>Rounding the number of rows\<close>

lemma smear_step:
  fixes x y :: int
  assumes "\<And>n. bit y n \<longleftrightarrow> (\<exists>m<k. bit x (n + m))"
  shows "bit (y OR drop_bit k y) n \<longleftrightarrow> (\<exists>m<2 * k. bit x (n + m))"
proof -
  have "(\<exists>m<2 * k. bit x (n + m)) \<longleftrightarrow> (\<exists>m<k. bit x (n + m)) \<or> (\<exists>m<k. bit x (k + n + m))"
  proof
    assume "\<exists>m<2 * k. bit x (n + m)"
    then obtain m where m: "m < 2 * k" "bit x (n + m)" by blast
    show "(\<exists>m<k. bit x (n + m)) \<or> (\<exists>m<k. bit x (k + n + m))"
    proof (cases "m < k")
      case True
      with m show ?thesis by blast
    next
      case False
      with m have "bit x (k + n + (m - k))" "m - k < k" by simp_all
      then show ?thesis by blast
    qed
  next
    assume "(\<exists>m<k. bit x (n + m)) \<or> (\<exists>m<k. bit x (k + n + m))"
    then show "\<exists>m<2 * k. bit x (n + m)"
    proof
      assume "\<exists>m<k. bit x (n + m)"
      then obtain m where "m < k" "bit x (n + m)" by blast
      then show ?thesis by (intro exI [of _ m]) simp
    next
      assume "\<exists>m<k. bit x (k + n + m)"
      then obtain m where "m < k" "bit x (k + n + m)" by blast
      moreover have "k + n + m = n + (k + m)" by simp
      ultimately show ?thesis by (intro exI [of _ "k + m"]) simp
    qed
  qed
  then show ?thesis by (simp add: bit_or_iff bit_drop_bit_eq assms)
qed

lemma smear_bits:
  "bit (fold (\<lambda>i r. r OR drop_bit i r) [1, 2, 4, 8, 16] x) n \<longleftrightarrow> (\<exists>m<32. bit x (n + m))" for x :: int
proof -
  define y1 where "y1 = x OR drop_bit 1 x"
  define y2 where "y2 = y1 OR drop_bit 2 y1"
  define y4 where "y4 = y2 OR drop_bit 4 y2"
  define y8 where "y8 = y4 OR drop_bit 8 y4"
  have "bit x n \<longleftrightarrow> (\<exists>m<1. bit x (n + m))" for n by simp
  from smear_step [OF this] have 1: "bit y1 n \<longleftrightarrow> (\<exists>m<2. bit x (n + m))" for n by (simp add: y1_def)
  from smear_step [OF 1] have 2: "bit y2 n \<longleftrightarrow> (\<exists>m<4. bit x (n + m))" for n by (simp add: y2_def)
  from smear_step [OF 2] have 4: "bit y4 n \<longleftrightarrow> (\<exists>m<8. bit x (n + m))" for n by (simp add: y4_def)
  from smear_step [OF 4] have 8: "bit y8 n \<longleftrightarrow> (\<exists>m<16. bit x (n + m))" for n by (simp add: y8_def)
  from smear_step [OF 8] have "bit (y8 OR drop_bit 16 y8) n \<longleftrightarrow> (\<exists>m<32. bit x (n + m))" by simp
  then show ?thesis by (simp add: y1_def y2_def y4_def y8_def)
qed

lemma bit_above:
  fixes x :: int
  assumes "0 \<le> x" and "x < 2 ^ k" and "k \<le> n"
  shows "\<not> bit x n"
proof -
  have "x < 2 ^ n" using assms by (meson less_le_trans one_le_numeral power_increasing)
  then show ?thesis using assms(1) by (simp add: bit_iff_odd)
qed

lemma top_bit:
  fixes x :: int
  assumes "2 ^ k \<le> x" and "x < 2 ^ Suc k"
  shows "bit x k"
proof -
  have "x div 2 ^ k = 1" using assms by (intro int_div_pos_eq [of _ _ _ "x - 2 ^ k"]) simp_all
  then show ?thesis by (simp add: bit_iff_odd)
qed

lemma smear_mask:
  fixes x :: int
  assumes "2 ^ k \<le> x" and "x < 2 ^ Suc k" and "k < 32"
  shows "fold (\<lambda>i r. r OR drop_bit i r) [1, 2, 4, 8, 16] x = mask (Suc k)"
proof (rule bit_eqI)
  fix n
  have "0 \<le> x" using assms(1) by (meson order_trans zero_le_numeral zero_le_power)
  note above = bit_above [OF this assms(2)]
  have "(\<exists>m<32. bit x (n + m)) \<longleftrightarrow> n < Suc k"
  proof
    assume "\<exists>m<32. bit x (n + m)"
    with above show "n < Suc k" by (metis not_less trans_le_add1)
  next
    assume "n < Suc k"
    with top_bit [OF assms(1,2)] assms(3) show "\<exists>m<32. bit x (n + m)"
      by (intro exI [of _ "k - n"]) simp
  qed
  then show "bit (fold (\<lambda>i r. r OR drop_bit i r) [1, 2, 4, 8, 16] x) n \<longleftrightarrow> bit (mask (Suc k) :: int) n"
    by (simp only: smear_bits bit_mask_iff) simp
qed

lemma nearest_powerof2_ivl:
  assumes "1 < rows" and "rows \<le> 2 ^ 30"
  shows "\<exists>k<30. nearest_powerof2 rows = 2 ^ Suc k \<and> 2 ^ k \<le> rows - 1 \<and> rows - 1 < 2 ^ Suc k"
proof -
  define x where "x = rows - 1"
  have x: "0 < x" "x < 2 ^ 30" using assms by (simp_all add: x_def)
  from x(1) have "1 \<le> nat x" by simp
  from ex_power_ivl1 [OF _ this, of 2] obtain k where "2 ^ k \<le> nat x" "nat x < 2 ^ (k + 1)" by auto
  then have "int (2 ^ k) \<le> int (nat x)" "int (nat x) < int (2 ^ (k + 1))" by (simp_all only: of_nat_le_iff of_nat_less_iff)
  then have k: "2 ^ k \<le> x" "x < 2 ^ Suc k" using x(1) by simp_all
  then have "(2 :: int) ^ k < 2 ^ 30" using x(2) by linarith
  then have k30: "k < 30" by (rule power_less_imp_less_exp [rotated]) simp
  then have "k < 32" by simp
  then have "nearest_powerof2 rows = mask (Suc k) + 1"
    using smear_mask [OF k] unfolding nearest_powerof2_def x_def by (simp only:)
  then have "nearest_powerof2 rows = 2 ^ Suc k" by (simp add: mask_eq_exp_minus_1)
  with k k30 show ?thesis unfolding x_def by blast
qed

text \<open>
  Rounding the number of rows. For \<open>1 < rows \<le> 2\<^sup>3\<^sup>0\<close> the result is the least power of two that is
  not smaller than \<open>rows\<close>, so that masking with \<open>nrows - 1\<close> is the remainder modulo the number of rows.
\<close>

theorem nearest_powerof2_least:
  assumes "1 < rows" and "rows \<le> 2 ^ 30"
  shows "\<exists>k. nearest_powerof2 rows = 2 ^ k \<and> rows \<le> 2 ^ k \<and> 2 ^ k < 2 * rows"
proof -
  from nearest_powerof2_ivl [OF assms] obtain k where
    "nearest_powerof2 rows = 2 ^ Suc k" "2 ^ k \<le> rows - 1" "rows - 1 < 2 ^ Suc k" by blast
  then show ?thesis by (intro exI [of _ "Suc k"]) simp
qed

theorem nearest_powerof2_least_witness:
  "\<exists>k. nearest_powerof2 1000 = 2 ^ k \<and> 1000 \<le> (2 :: int) ^ k \<and> (2 :: int) ^ k < 2000"
proof -
  have "(1 :: int) < 1000" "(1000 :: int) \<le> 2 ^ 30" by simp_all
  from nearest_powerof2_least [OF this] show ?thesis by (simp only: mult_numeral_1 numeral_times_numeral) simp
qed

end
