(* ===== verification/ZHash_Lists.thy ===== *)
theory ZHash_Lists
  imports ZHash
begin

text \<open>
  The pointer operations of \<^verbatim>\<open>zhash.cc\<close> on the lists they maintain: the global list, the row lists and the
  free list. Each operation changes one kind of list and leaves the views of the others alone.
\<close>

section \<open>Views of the heap\<close>

abbreviation GN :: "('k, 'd) zhash \<Rightarrow> nat \<Rightarrow> ptr" where "GN z \<equiv> \<lambda>a. gnext (heap z a)"
abbreviation GP :: "('k, 'd) zhash \<Rightarrow> nat \<Rightarrow> ptr" where "GP z \<equiv> \<lambda>a. gprev (heap z a)"
abbreviation RN :: "('k, 'd) zhash \<Rightarrow> nat \<Rightarrow> ptr" where "RN z \<equiv> \<lambda>a. rnext (heap z a)"
abbreviation RP :: "('k, 'd) zhash \<Rightarrow> nat \<Rightarrow> ptr" where "RP z \<equiv> \<lambda>a. rprev (heap z a)"

text \<open>What the operations on the global and the free list keep.\<close>

definition same_rows :: "('k, 'd) zhash \<Rightarrow> ('k, 'd) zhash \<Rightarrow> bool" where
  "same_rows z z' \<longleftrightarrow>
     RN z' = RN z \<and> RP z' = RP z \<and> table z' = table z \<and> nrows z' = nrows z \<and> hash_fcn z' = hash_fcn z \<and>
     (\<forall>a. rindex (heap z' a) = rindex (heap z a) \<and> zkey (heap z' a) = zkey (heap z a) \<and>
       zdata (heap z' a) = zdata (heap z a)) \<and> zcount z' = zcount z"

text \<open>What the operations on the rows keep.\<close>

definition same_global :: "('k, 'd) zhash \<Rightarrow> ('k, 'd) zhash \<Rightarrow> bool" where
  "same_global z z' \<longleftrightarrow>
     GN z' = GN z \<and> GP z' = GP z \<and> ghead z' = ghead z \<and> gtail z' = gtail z \<and> fhead z' = fhead z \<and>
     cursor z' = cursor z \<and> nrows z' = nrows z \<and> hash_fcn z' = hash_fcn z \<and>
     (\<forall>a. rindex (heap z' a) = rindex (heap z a) \<and> zkey (heap z' a) = zkey (heap z a) \<and>
       zdata (heap z' a) = zdata (heap z a)) \<and> zcount z' = zcount z"

lemma same_trans:
  "same_rows z z1 \<Longrightarrow> same_rows z1 z2 \<Longrightarrow> same_rows z z2"
  "same_global z z1 \<Longrightarrow> same_global z1 z2 \<Longrightarrow> same_global z z2"
  by (simp_all add: same_rows_def same_global_def)

named_theorems zh \<open>assignments through pointers\<close>

lemma set_heap [zh]:
  "heap (set_gnext a x z) b = (if b = a then (heap z a)\<lparr>gnext := x\<rparr> else heap z b)"
  "heap (set_gprev a x z) b = (if b = a then (heap z a)\<lparr>gprev := x\<rparr> else heap z b)"
  "heap (set_rnext a x z) b = (if b = a then (heap z a)\<lparr>rnext := x\<rparr> else heap z b)"
  "heap (set_rprev a x z) b = (if b = a then (heap z a)\<lparr>rprev := x\<rparr> else heap z b)"
  "heap (set_row i x z) b = heap z b"
  by (simp_all add: set_gnext_def set_gprev_def set_rnext_def set_rprev_def set_row_def)

lemma set_frame [zh]:
  "hash_fcn (set_gnext a x z) = hash_fcn z" "nrows (set_gnext a x z) = nrows z" "zcount (set_gnext a x z) = zcount z" "find_fail (set_gnext a x z) = find_fail z" "find_success (set_gnext a x z) = find_success z"
  "table (set_gnext a x z) = table z" "ghead (set_gnext a x z) = ghead z" "gtail (set_gnext a x z) = gtail z" "fhead (set_gnext a x z) = fhead z" "cursor (set_gnext a x z) = cursor z"
  "hash_fcn (set_gprev a x z) = hash_fcn z" "nrows (set_gprev a x z) = nrows z" "zcount (set_gprev a x z) = zcount z" "find_fail (set_gprev a x z) = find_fail z" "find_success (set_gprev a x z) = find_success z"
  "table (set_gprev a x z) = table z" "ghead (set_gprev a x z) = ghead z" "gtail (set_gprev a x z) = gtail z" "fhead (set_gprev a x z) = fhead z" "cursor (set_gprev a x z) = cursor z"
  "hash_fcn (set_rnext a x z) = hash_fcn z" "nrows (set_rnext a x z) = nrows z" "zcount (set_rnext a x z) = zcount z" "find_fail (set_rnext a x z) = find_fail z" "find_success (set_rnext a x z) = find_success z"
  "table (set_rnext a x z) = table z" "ghead (set_rnext a x z) = ghead z" "gtail (set_rnext a x z) = gtail z" "fhead (set_rnext a x z) = fhead z" "cursor (set_rnext a x z) = cursor z"
  "hash_fcn (set_rprev a x z) = hash_fcn z" "nrows (set_rprev a x z) = nrows z" "zcount (set_rprev a x z) = zcount z" "find_fail (set_rprev a x z) = find_fail z" "find_success (set_rprev a x z) = find_success z"
  "table (set_rprev a x z) = table z" "ghead (set_rprev a x z) = ghead z" "gtail (set_rprev a x z) = gtail z" "fhead (set_rprev a x z) = fhead z" "cursor (set_rprev a x z) = cursor z"
  "hash_fcn (set_row i x z) = hash_fcn z" "nrows (set_row i x z) = nrows z" "zcount (set_row i x z) = zcount z" "find_fail (set_row i x z) = find_fail z" "find_success (set_row i x z) = find_success z"
  "ghead (set_row i x z) = ghead z" "gtail (set_row i x z) = gtail z" "fhead (set_row i x z) = fhead z" "cursor (set_row i x z) = cursor z"
  "table (set_row i x z) = (table z)[i := x]"
  by (simp_all add: set_gnext_def set_gprev_def set_rnext_def set_rprev_def set_row_def)

section \<open>The global list\<close>

definition ginv :: "('k, 'd) zhash \<Rightarrow> nat list \<Rightarrow> bool" where
  "ginv z gl \<longleftrightarrow> distinct gl \<and> dlseg (GN z) (GP z) (ghead z) None gl None \<and> gtail z = lastp gl None"

lemma glink_ginv:
  assumes "ginv z gl" and "a \<notin> set gl"
  shows "ginv (glink_node a z) (a # gl)" "same_rows z (glink_node a z)" "cursor (glink_node a z) = cursor z"
    "fhead (glink_node a z) = fhead z" "b \<notin> insert a (set gl) \<Longrightarrow> GN (glink_node a z) b = GN z b"
proof -
  from assms(1) have gl: "dlseg (GN z) (GP z) (ghead z) None gl None" "distinct gl" "gtail z = lastp gl None"
    by (simp_all add: ginv_def)
  note h = dlseg_entry_ptr [OF gl(1)]
  let ?z = "glink_node a z"
  have "GN ?z = (GN z)(a := ghead z)" "GP ?z = (if gl = [] then GP z else (GP z)(hd gl := Some a))(a := None)"
    "ghead ?z = Some a" "gtail ?z = (if gl = [] then Some a else gtail z)"
    using h assms(2) by (cases gl; auto simp: glink_node_def zh fun_eq_iff)+
  with dlseg_push [OF gl(1,2) assms(2)] gl(2,3) assms(2) show "ginv ?z (a # gl)"
    by (simp add: ginv_def lastp_def)
  show "same_rows z ?z" "cursor ?z = cursor z" "fhead ?z = fhead z"
    by (auto simp: glink_node_def same_rows_def zh fun_eq_iff split: option.split)
  show "GN ?z b = GN z b" if "b \<notin> insert a (set gl)"
    using that h by (cases gl) (auto simp: glink_node_def zh)
qed

lemma gunlink_ginv:
  assumes "ginv z (ys @ a # zs)"
  shows "ginv (gunlink_node a z) (ys @ zs)" "same_rows z (gunlink_node a z)"
    "cursor (gunlink_node a z) = (if cursor z = Some a then lastp ys None else cursor z)"
    "fhead (gunlink_node a z) = fhead z" "b \<notin> set (ys @ a # zs) \<Longrightarrow> GN (gunlink_node a z) b = GN z b"
proof -
  from assms have gl: "dlseg (GN z) (GP z) (ghead z) None (ys @ a # zs) None" "distinct (ys @ a # zs)"
    "gtail z = lastp (ys @ a # zs) None" by (simp_all add: ginv_def)
  note mid = dlseg_middle [OF gl(1)]
  note h = dlseg_entry_ptr [OF gl(1)]
  let ?z = "gunlink_node a z"
  have ly: "ys \<noteq> [] \<Longrightarrow> last ys \<noteq> a" and hz: "zs \<noteq> [] \<Longrightarrow> hd zs \<noteq> a" and lz: "zs \<noteq> [] \<Longrightarrow> last zs \<noteq> a"
    and hy: "ys \<noteq> [] \<Longrightarrow> hd ys \<noteq> a" and lh: "ys \<noteq> [] \<Longrightarrow> zs \<noteq> [] \<Longrightarrow> last ys \<noteq> hd zs"
    using gl(2) by (auto dest: last_in_set hd_in_set)
  have v: "GN ?z = (if ys = [] then GN z else (GN z)(last ys := GN z a))"
    "GP ?z = (if zs = [] then GP z else (GP z)(hd zs := GP z a))"
    "ghead ?z = (if ys = [] then GN z a else ghead z)" "gtail ?z = (if zs = [] then GP z a else gtail z)"
    "cursor ?z = (if cursor z = Some a then lastp ys None else cursor z)"
    "same_rows z ?z" "fhead ?z = fhead z"
    using mid h gl(3) ly hz lz hy lh
    by (cases "ys = []"; cases "zs = []"; cases "cursor z = Some a";
        auto simp: gunlink_node_def Let_def zh fun_eq_iff lastp_def firstp_def same_rows_def)+
  have "(if zs = [] then GP z a else gtail z) = lastp (ys @ zs) None"
    using mid(1) gl(3) by (cases "zs = []") (simp_all add: lastp_def)
  with dlseg_remove [OF gl(1,2)] gl(2) show "ginv ?z (ys @ zs)"
    unfolding ginv_def v(1) v(2) v(3) v(4) by simp
  show "same_rows z ?z" "fhead ?z = fhead z" "cursor ?z = (if cursor z = Some a then lastp ys None else cursor z)"
    by (rule v)+
  show "GN ?z b = GN z b" if "b \<notin> set (ys @ a # zs)"
  proof (cases "ys = []")
    case True
    with fun_cong [OF v(1), of b] show ?thesis by (simp only: if_True simp_thms)
  next
    case False
    then have "last ys \<in> set ys" by simp
    with that have "b \<noteq> last ys" by auto
    with False fun_cong [OF v(1), of b] show ?thesis by (simp only: if_False fun_upd_apply)
  qed
qed

section \<open>The rows\<close>

definition rows_ok :: "('k, 'd) zhash \<Rightarrow> (nat \<Rightarrow> nat list) \<Rightarrow> bool" where
  "rows_ok z rl \<longleftrightarrow> length (table z) = nrows z \<and>
     (\<forall>i<nrows z. dlseg (RN z) (RP z) (table z ! i) None (rl i) None \<and> distinct (rl i)) \<and>
     (\<forall>i<nrows z. \<forall>j<nrows z. i \<noteq> j \<longrightarrow> set (rl i) \<inter> set (rl j) = {})"

lemma rows_okD:
  assumes "rows_ok z rl" and "i < nrows z"
  shows "dlseg (RN z) (RP z) (table z ! i) None (rl i) None" "distinct (rl i)" "length (table z) = nrows z"
    "j < nrows z \<Longrightarrow> i \<noteq> j \<Longrightarrow> set (rl i) \<inter> set (rl j) = {}"
  using assms by (simp_all add: rows_ok_def)

text \<open>A change of one row that touches no node of another.\<close>

lemma rows_ok_upd:
  assumes ok: "rows_ok z rl" and i: "i < nrows z"
    and row: "dlseg (RN z') (RP z') (table z' ! i) None xs None" "distinct xs"
    and tab: "table z' = (table z)[i := t]" "nrows z' = nrows z"
    and others: "\<And>j b. j < nrows z \<Longrightarrow> j \<noteq> i \<Longrightarrow> b \<in> set (rl j) \<Longrightarrow> RN z' b = RN z b \<and> RP z' b = RP z b"
    and new: "\<And>j. j < nrows z \<Longrightarrow> j \<noteq> i \<Longrightarrow> set xs \<inter> set (rl j) = {}"
  shows "rows_ok z' (rl(i := xs))"
proof -
  have "dlseg (RN z') (RP z') (table z' ! j) None (rl j) None" if "j < nrows z" "j \<noteq> i" for j
  proof -
    have "dlseg (RN z') (RP z') (table z ! j) None (rl j) None"
      by (rule dlseg_frame [OF rows_okD(1) [OF ok that(1)]]) (rule others [OF that])
    then show ?thesis using that(2) tab(1) by simp
  qed
  then show ?thesis using ok row tab new by (auto simp: rows_ok_def)
qed

lemma link_rows:
  assumes ok: "rows_ok z rl" and i: "i = rindex (heap z a)" "i < nrows z"
    and a: "\<And>j. j < nrows z \<Longrightarrow> a \<notin> set (rl j)"
  shows "rows_ok (link_node a z) (rl(i := a # rl i))" "same_global z (link_node a z)"
proof -
  note d = rows_okD [OF ok i(2)]
  note h = dlseg_entry_ptr [OF d(1)]
  let ?z = "link_node a z"
  have v: "RN ?z = (RN z)(a := table z ! i)"
    "RP ?z = (if rl i = [] then RP z else (RP z)(hd (rl i) := Some a))(a := None)"
    "table ?z = (table z)[i := Some a]"
    using h i(1) a [OF i(2)] by (cases "rl i"; auto simp: link_node_def Let_def zh fun_eq_iff)+
  show g: "same_global z ?z"
    by (auto simp: link_node_def Let_def zh same_global_def fun_eq_iff split: option.split)
  show "rows_ok ?z (rl(i := a # rl i))"
  proof (rule rows_ok_upd [OF ok i(2)])
    show "dlseg (RN ?z) (RP ?z) (table ?z ! i) None (a # rl i) None"
      using dlseg_push [OF d(1,2) a [OF i(2)]] v d(3) i(2) by simp
    show "distinct (a # rl i)" using d(2) a i(2) by simp
    show "nrows ?z = nrows z" using g by (simp add: same_global_def)
    show "RN ?z b = RN z b \<and> RP ?z b = RP z b" if "j < nrows z" "j \<noteq> i" "b \<in> set (rl j)" for j b
      using that a [OF that(1)] d(4) [OF that(1)] fun_cong [OF v(1), of b] fun_cong [OF v(2), of b]
      by (cases "rl i") auto
    show "set (a # rl i) \<inter> set (rl j) = {}" if "j < nrows z" "j \<noteq> i" for j
      using that a d(4) by auto
  qed (rule v(3))
qed

lemma unlink_rows:
  assumes ok: "rows_ok z rl" and i: "i = rindex (heap z a)" "i < nrows z" and a: "rl i = ys @ a # zs"
  shows "rows_ok (unlink_node a z) (rl(i := ys @ zs))" "same_global z (unlink_node a z)"
proof -
  note d = rows_okD [OF ok i(2), unfolded a]
  note mid = dlseg_middle [OF d(1)]
  note h = dlseg_entry_ptr [OF d(1)]
  let ?z = "unlink_node a z"
  have ly: "ys \<noteq> [] \<Longrightarrow> last ys \<noteq> a" and hz: "zs \<noteq> [] \<Longrightarrow> hd zs \<noteq> a"
    and lh: "ys \<noteq> [] \<Longrightarrow> zs \<noteq> [] \<Longrightarrow> last ys \<noteq> hd zs"
    using d(2) by (auto dest: last_in_set hd_in_set)
  have z': "?z = (if ys = [] then
        (if zs = [] then set_row i None z else set_rprev (hd zs) None (set_row i (Some (hd zs)) z))
      else (if zs = [] then set_rnext (last ys) None z
        else set_rprev (hd zs) (Some (last ys)) (set_rnext (last ys) (Some (hd zs)) z)))"
    using mid h i(2) ly d(3) unfolding unlink_node_def i(1) [symmetric]
    by (cases "ys = []"; cases "zs = []") (simp_all add: Let_def zh lastp_def firstp_def)
  have v: "RN ?z = (if ys = [] then RN z else (RN z)(last ys := RN z a))"
    "RP ?z = (if zs = [] then RP z else (RP z)(hd zs := RP z a))"
    "table ?z = (table z)[i := if ys = [] then RN z a else table z ! i]"
    unfolding z' using mid lh
    by (cases "ys = []"; cases "zs = []"; simp add: zh fun_eq_iff lastp_def firstp_def)+
  show g: "same_global z ?z"
    by (auto simp: unlink_node_def Let_def zh same_global_def fun_eq_iff split: option.split)
  have ly': "ys \<noteq> [] \<Longrightarrow> last ys \<in> set (rl i)" and hz': "zs \<noteq> [] \<Longrightarrow> hd zs \<in> set (rl i)" using a by auto
  show "rows_ok ?z (rl(i := ys @ zs))"
  proof (rule rows_ok_upd [OF ok i(2)])
    show "dlseg (RN ?z) (RP ?z) (table ?z ! i) None (ys @ zs) None"
      using dlseg_remove [OF d(1,2)] d(3) i(2) unfolding v by simp
    show "distinct (ys @ zs)" using d(2) by simp
    show "nrows ?z = nrows z" using g by (simp add: same_global_def)
    show "RN ?z b = RN z b \<and> RP ?z b = RP z b" if "j < nrows z" "j \<noteq> i" "b \<in> set (rl j)" for j b
    proof -
      have "b \<notin> set (rl i)" using rows_okD(4) [OF ok i(2) that(1)] that(2,3) by auto
      then have "ys \<noteq> [] \<Longrightarrow> b \<noteq> last ys" "zs \<noteq> [] \<Longrightarrow> b \<noteq> hd zs" using ly' hz' by auto
      then show ?thesis using fun_cong [OF v(1), of b] fun_cong [OF v(2), of b] by auto
    qed
    show "set (ys @ zs) \<inter> set (rl j) = {}" if "j < nrows z" "j \<noteq> i" for j
      using rows_okD(4) [OF ok i(2) that(1)] that(2) a by auto
  qed (rule v(3))
qed

section \<open>The free list\<close>

lemma save_free_list:
  assumes "slseg (GN z) (fhead z) fl" and "a \<notin> set fl" and "ginv z gl" and "set fl \<inter> set gl = {}" and "a \<notin> set gl"
  shows "slseg (GN (save_free_node a z)) (fhead (save_free_node a z)) (a # fl)" "ginv (save_free_node a z) gl"
    "same_rows z (save_free_node a z)" "cursor (save_free_node a z) = cursor z"
proof -
  note h = slseg_entry_ptr [OF assms(1)]
  let ?z = "save_free_node a z"
  have v: "GN ?z = (GN z)(a := fhead z)" "fhead ?z = Some a" "ghead ?z = ghead z" "gtail ?z = gtail z"
    by (auto simp: save_free_node_def zh fun_eq_iff split: option.split)
  show "slseg (GN ?z) (fhead ?z) (a # fl)" unfolding v by (rule slseg_push [OF assms(1,2)])
  have gp: "GP ?z b = GP z b" if "b \<in> set gl" for b
    using that h assms(4,5) by (cases fl) (auto simp: save_free_node_def zh)
  have gn: "GN ?z b = GN z b" if "b \<in> set gl" for b
  proof -
    from that assms(5) have "b \<noteq> a" by auto
    with fun_cong [OF v(1), of b] show ?thesis by (simp only: fun_upd_apply if_False)
  qed
  have g: "dlseg (GN z) (GP z) (ghead z) None gl None" using assms(3) by (simp add: ginv_def)
  have "dlseg (GN ?z) (GP ?z) (ghead z) None gl None"
    by (rule dlseg_frame [OF g]) (intro conjI gn gp)
  then show "ginv ?z gl" using assms(3) v(3,4) by (simp add: ginv_def)
  show "same_rows z ?z" "cursor ?z = cursor z"
    by (auto simp: save_free_node_def zh same_rows_def fun_eq_iff split: option.split)
qed

lemma get_free_list:
  assumes "slseg (GN z) (fhead z) fl" and "ginv z gl" and "set fl \<inter> set gl = {}" and "distinct fl"
  shows "fl = [] \<Longrightarrow> get_free_node z = (None, z)"
    and "fl = a # fl' \<Longrightarrow> \<exists>z'. get_free_node z = (Some a, z') \<and> slseg (GN z') (fhead z') fl' \<and> ginv z' gl \<and>
      same_rows z z' \<and> cursor z' = cursor z"
proof -
  show "fl = [] \<Longrightarrow> get_free_node z = (None, z)" using assms(1) by (simp add: get_free_node_def)
  assume fl: "fl = a # fl'"
  with assms(1) have a: "fhead z = Some a" "slseg (GN z) (GN z a) fl'" by simp_all
  note h = slseg_entry_ptr [OF a(2)]
  define z' where "z' = snd (get_free_node z)"
  have v: "GN z' = GN z" "fhead z' = GN z a" "ghead z' = ghead z" "gtail z' = gtail z"
    "same_rows z z'" "cursor z' = cursor z"
    using a(1) by (auto simp: z'_def get_free_node_def Let_def zh fun_eq_iff same_rows_def split: option.split)
  have gp: "GP z' b = GP z b" if "b \<in> set gl" for b
    using that a(1) h assms(3) fl by (cases fl') (auto simp: z'_def get_free_node_def Let_def zh)
  have g: "dlseg (GN z) (GP z) (ghead z) None gl None" using assms(2) by (simp add: ginv_def)
  have "dlseg (GN z') (GP z') (ghead z) None gl None"
    by (rule dlseg_frame [OF g]) (intro conjI gp fun_cong [OF v(1)])
  then have "ginv z' gl" using assms(2) v(3,4) by (simp add: ginv_def)
  moreover have "get_free_node z = (Some a, z')" using a(1) by (simp add: z'_def get_free_node_def Let_def)
  ultimately show "\<exists>z'. get_free_node z = (Some a, z') \<and> slseg (GN z') (fhead z') fl' \<and> ginv z' gl \<and>
      same_rows z z' \<and> cursor z' = cursor z" using a(2) v by auto
qed

end
