(* ===== verification/Simulation.thy ===== *)
theory Simulation
  imports Snort_Prelude
begin

text \<open>
  Runs of a machine against a specification. The machine's steps may fail to return (\<open>None\<close>) and may carry a
  condition on the state they start in; the specification is total. One law, proved step by step by a component,
  gives that every run that keeps the conditions returns and answers what the specification answers.
\<close>

fun run :: "('o \<Rightarrow> 'c \<Rightarrow> ('r \<times> 'c) option) \<Rightarrow> 'o list \<Rightarrow> 'c \<Rightarrow> ('r list \<times> 'c) option" where
  "run step [] c = Some ([], c)"
| "run step (x # xs) c =
     (case step x c of
        None \<Rightarrow> None
      | Some (r, c') \<Rightarrow> (case run step xs c' of None \<Rightarrow> None | Some (rs, c'') \<Rightarrow> Some (r # rs, c'')))"

fun spec_run :: "('o \<Rightarrow> 'a \<Rightarrow> 'r \<times> 'a) \<Rightarrow> 'o list \<Rightarrow> 'a \<Rightarrow> 'r list \<times> 'a" where
  "spec_run astep [] s = ([], s)"
| "spec_run astep (x # xs) s =
     (case astep x s of (r, s') \<Rightarrow> (case spec_run astep xs s' of (rs, s'') \<Rightarrow> (r # rs, s'')))"

fun allowed :: "('o \<Rightarrow> 'c \<Rightarrow> ('r \<times> 'c) option) \<Rightarrow> ('o \<Rightarrow> 'c \<Rightarrow> bool) \<Rightarrow> 'o list \<Rightarrow> 'c \<Rightarrow> bool" where
  "allowed step ok [] c \<longleftrightarrow> True"
| "allowed step ok (x # xs) c \<longleftrightarrow>
     ok x c \<and> (case step x c of None \<Rightarrow> True | Some (r, c') \<Rightarrow> allowed step ok xs c')"

locale simulation =
  fixes step :: "'o \<Rightarrow> 'c \<Rightarrow> ('r \<times> 'c) option" and astep :: "'o \<Rightarrow> 'a \<Rightarrow> 'r \<times> 'a"
    and R :: "'c \<Rightarrow> 'a \<Rightarrow> bool" and ok :: "'o \<Rightarrow> 'c \<Rightarrow> bool"
  assumes step_sim: "R c s \<Longrightarrow> ok x c \<Longrightarrow> \<exists>c'. step x c = Some (fst (astep x s), c') \<and> R c' (snd (astep x s))"
begin

lemma run_sim:
  "R c s \<Longrightarrow> allowed step ok xs c \<Longrightarrow>
    \<exists>c'. run step xs c = Some (fst (spec_run astep xs s), c') \<and> R c' (snd (spec_run astep xs s))"
proof (induction xs arbitrary: c s)
  case (Cons x xs)
  obtain r s' where a: "astep x s = (r, s')" by fastforce
  from Cons.prems(2) have "ok x c" by simp
  with step_sim [OF Cons.prems(1)] a obtain c' where c: "step x c = Some (r, c')" "R c' s'" by force
  with Cons.prems(2) have "allowed step ok xs c'" by simp
  from Cons.IH [OF c(2) this] obtain c'' where
    "run step xs c' = Some (fst (spec_run astep xs s'), c'')" "R c'' (snd (spec_run astep xs s'))" by blast
  with a c show ?case by (cases "spec_run astep xs s'") simp
qed simp

end

end
