(* ===== verification/ZHash_Refine.thy ===== *)
theory ZHash_Refine
  imports ZHash_Lists Simulation "HOL-Library.Multiset"
begin

text \<open>
  The table of \<^verbatim>\<open>zhash.cc\<close> as a least-recently-used map: the representation invariant over the three kinds of
  lists, the specification and the simulation that every sequence of operations keeps, and the destructor.
\<close>

section \<open>The representation invariant\<close>

definition lists_ok :: "('k, 'd) zhash \<Rightarrow> nat list \<Rightarrow> nat list \<Rightarrow> bool" where
  "lists_ok z gl fl \<longleftrightarrow> ginv z gl \<and> slseg (GN z) (fhead z) fl \<and> distinct fl \<and> set fl \<inter> set gl = {} \<and>
     (\<forall>c. cursor z = Some c \<longrightarrow> c \<in> set gl)"

definition nodes_ok :: "('k, 'd) zhash \<Rightarrow> nat set \<Rightarrow> (nat \<Rightarrow> nat list) \<Rightarrow> bool" where
  "nodes_ok z N rl \<longleftrightarrow> 0 < nrows z \<and> nrows z < 2 ^ 32 \<and>
     (\<forall>i<nrows z. set (rl i) = {a \<in> N. rindex (heap z a) = i}) \<and>
     (\<forall>a\<in>N. rindex (heap z a) = row_index z (zkey (heap z a))) \<and> inj_on (\<lambda>a. zkey (heap z a)) N"

definition zinv :: "('k, 'd) zhash \<Rightarrow> nat list \<Rightarrow> nat list \<Rightarrow> (nat \<Rightarrow> nat list) \<Rightarrow> bool" where
  "zinv z gl fl rl \<longleftrightarrow>
     lists_ok z gl fl \<and> rows_ok z rl \<and> nodes_ok z (set gl) rl \<and> zcount z = of_nat (length gl)"

lemma row_index_less: "0 < nrows z \<Longrightarrow> nrows z < 2 ^ 32 \<Longrightarrow> row_index z k < nrows z"
proof -
  assume n: "0 < nrows z" "nrows z < 2 ^ 32"
  have "hash_fcn z k AND (of_nat (nrows z) - 1) \<le> of_nat (nrows z) - 1" by (rule word_and_le1)
  then have "row_index z k \<le> unat (of_nat (nrows z) - 1 :: u32)"
    unfolding row_index_def by (simp only: word_le_nat_alt)
  also have "(of_nat (nrows z) - 1 :: u32) = of_nat (nrows z - 1)" using n by simp
  also have "unat (of_nat (nrows z - 1) :: u32) = nrows z - 1" 
    using n by (simp only: unat_of_nat take_bit_nat_eq_self_iff) simp
  finally show ?thesis using n by simp
qed

text \<open>What a step on one kind of list keeps of the rest.\<close>

lemma rows_ok_same: "same_rows z z' \<Longrightarrow> rows_ok z rl \<Longrightarrow> rows_ok z' rl"
  by (simp add: same_rows_def rows_ok_def)

lemma lists_ok_same: "same_global z z' \<Longrightarrow> lists_ok z gl fl \<Longrightarrow> lists_ok z' gl fl"
  by (simp add: same_global_def lists_ok_def ginv_def)

lemma row_index_same: "nrows z' = nrows z \<Longrightarrow> hash_fcn z' = hash_fcn z \<Longrightarrow> row_index z' k = row_index z k"
  by (simp add: row_index_def)

lemma nodes_ok_cong:
  assumes "nrows z' = nrows z" and "hash_fcn z' = hash_fcn z"
    and "\<And>a. a \<in> N \<Longrightarrow> rindex (heap z' a) = rindex (heap z a)" and "\<And>a. a \<in> N \<Longrightarrow> zkey (heap z' a) = zkey (heap z a)"
  shows "nodes_ok z' N rl \<longleftrightarrow> nodes_ok z N rl"
proof -
  have "{a \<in> N. rindex (heap z' a) = i} = {a \<in> N. rindex (heap z a) = i}" for i using assms(3) by auto
  moreover have "inj_on (\<lambda>a. zkey (heap z' a)) N \<longleftrightarrow> inj_on (\<lambda>a. zkey (heap z a)) N"
    by (rule inj_on_cong) (rule assms(4))
  ultimately show ?thesis
    unfolding nodes_ok_def by (simp only: assms row_index_same [OF assms(1,2)] cong: ball_cong)
qed

lemma nodes_ok_same:
  "same_rows z z' \<Longrightarrow> nodes_ok z N rl \<Longrightarrow> nodes_ok z' N rl"
  "same_global z z' \<Longrightarrow> nodes_ok z N rl \<Longrightarrow> nodes_ok z' N rl"
  by (subst nodes_ok_cong; simp only: same_rows_def same_global_def)+

text \<open>The abstract content of a table.\<close>

record ('k, 'd) lru =
  entries :: "('k \<times> 'd) list"
  spare :: "'d list"
  cur :: "'k option"

definition entry :: "('k, 'd) zhash \<Rightarrow> nat \<Rightarrow> 'k \<times> 'd" where
  "entry z a = (zkey (heap z a), zdata (heap z a))"

definition view :: "('k, 'd) zhash \<Rightarrow> nat list \<Rightarrow> nat list \<Rightarrow> ('k, 'd) lru" where
  "view z gl fl = \<lparr>entries = map (entry z) gl, spare = map (\<lambda>a. snd (entry z a)) fl,
     cur = map_option (\<lambda>a. fst (entry z a)) (cursor z)\<rparr>"

lemma entry_same: "same_rows z z' \<Longrightarrow> entry z' = entry z" "same_global z z' \<Longrightarrow> entry z' = entry z"
  by (simp_all add: same_rows_def same_global_def entry_def fun_eq_iff)

section \<open>Moving and removing nodes\<close>

lemma gfront:
  assumes "lists_ok z (ys @ a # zs) fl"
  shows "lists_ok (glink_node a (gunlink_node a z)) (a # ys @ zs) fl"
    "same_rows z (glink_node a (gunlink_node a z))"
    "cursor (glink_node a (gunlink_node a z)) = (if cursor z = Some a then lastp ys None else cursor z)"
proof -
  from assms have g: "ginv z (ys @ a # zs)" and s: "slseg (GN z) (fhead z) fl"
    and d: "distinct fl" "set fl \<inter> set (ys @ a # zs) = {}" and c: "\<And>c. cursor z = Some c \<Longrightarrow> c \<in> set (ys @ a # zs)"
    unfolding lists_ok_def by blast+
  let ?u = "gunlink_node a z"
  let ?z = "glink_node a ?u"
  note u = gunlink_ginv [OF g]
  from g have "a \<notin> set (ys @ zs)" by (simp add: ginv_def)
  note l = glink_ginv [OF u(1) this]
  show r: "same_rows z ?z" using same_trans(1) [OF u(2) l(2)] .
  show cz: "cursor ?z = (if cursor z = Some a then lastp ys None else cursor z)" unfolding l(3) u(3) ..
  have "slseg (GN ?z) (fhead z) fl"
  proof (rule slseg_frame [OF s])
    fix b assume "b \<in> set fl"
    with d(2) have b: "b \<notin> set (ys @ a # zs)" "b \<notin> insert a (set (ys @ zs))" by auto
    show "GN ?z b = GN z b" unfolding l(5) [OF b(2)] by (rule u(5) [OF b(1)])
  qed
  moreover have "\<forall>c. cursor ?z = Some c \<longrightarrow> c \<in> set (a # ys @ zs)"
    unfolding cz using c by (auto simp: lastp_def)
  ultimately show "lists_ok ?z (a # ys @ zs) fl"
    unfolding lists_ok_def l(4) u(4) using l(1) d by auto
qed

lemma rfront:
  assumes ok: "rows_ok z rl" and i: "i = rindex (heap z a)" "i < nrows z" and a: "a \<in> set (rl i)"
  shows "\<exists>rl'. rows_ok (link_node a (unlink_node a z)) rl' \<and> (\<forall>j<nrows z. set (rl' j) = set (rl j))"
    "same_global z (link_node a (unlink_node a z))"
proof -
  from a obtain ys zs where rl: "rl i = ys @ a # zs" by (auto dest: split_list)
  note u = unlink_rows [OF ok i rl]
  let ?u = "unlink_node a z"
  have f: "i = rindex (heap ?u a)" "i < nrows ?u" using u(2) i by (simp_all only: same_global_def)
  have n: "a \<notin> set ((rl(i := ys @ zs)) j)" if "j < nrows ?u" for j
  proof (cases "j = i")
    case True
    with rows_okD(2) [OF ok i(2)] rl show ?thesis by simp
  next
    case False
    have "j < nrows z" using that u(2) by (simp only: same_global_def)
    from rows_okD(4) [OF ok i(2) this] False a show ?thesis by auto
  qed
  note l = link_rows [OF u(1) f n]
  show "same_global z (link_node a ?u)" by (rule same_trans(2) [OF u(2) l(2)])
  show "\<exists>rl'. rows_ok (link_node a ?u) rl' \<and> (\<forall>j<nrows z. set (rl' j) = set (rl j))"
    by (intro exI conjI, rule l(1)) (auto simp: rl)
qed

lemma nodes_ok_rows:
  "nodes_ok z N rl \<Longrightarrow> (\<And>j. j < nrows z \<Longrightarrow> set (rl' j) = set (rl j)) \<Longrightarrow> nodes_ok z N rl'"
  by (simp add: nodes_ok_def)

lemma nodes_okD:
  assumes "nodes_ok z N rl" and "a \<in> N"
  shows "rindex (heap z a) < nrows z" "a \<in> set (rl (rindex (heap z a)))" "rindex (heap z a) = row_index z (zkey (heap z a))"
proof -
  from assms show r: "rindex (heap z a) = row_index z (zkey (heap z a))" unfolding nodes_ok_def by blast
  from assms(1) show l: "rindex (heap z a) < nrows z" unfolding r nodes_ok_def by (blast intro: row_index_less)
  from assms l show "a \<in> set (rl (rindex (heap z a)))" unfolding nodes_ok_def by blast
qed

lemma move_to_front_zinv:
  assumes "zinv z (ys @ a # zs) fl rl"
  shows "\<exists>rl'. zinv (move_to_front a z) (a # ys @ zs) fl rl'" "entry (move_to_front a z) = entry z"
    "cursor (move_to_front a z) = (if cursor z = Some a \<and> ys \<noteq> [] then lastp ys None else cursor z)"
    "zcount (move_to_front a z) = zcount z"
proof -
  let ?gl = "ys @ a # zs"
  from assms have ok: "lists_ok z ?gl fl" "rows_ok z rl" "nodes_ok z (set ?gl) rl" "zcount z = of_nat (length ?gl)"
    unfolding zinv_def by blast+
  have "a \<in> set ?gl" by simp
  note na = nodes_okD [OF ok(3) this]
  define z1 where "z1 = (if table z ! rindex (heap z a) \<noteq> Some a then link_node a (unlink_node a z) else z)"
  have "\<exists>rl'. rows_ok z1 rl' \<and> (\<forall>j<nrows z. set (rl' j) = set (rl j))" and s1: "same_global z z1"
    unfolding z1_def using rfront [OF ok(2) refl na(1,2)] ok(2) by (auto simp: same_global_def)
  then obtain rl' where r1: "rows_ok z1 rl'" "\<And>j. j < nrows z \<Longrightarrow> set (rl' j) = set (rl j)" by blast
  have l1: "lists_ok z1 ?gl fl" by (rule lists_ok_same [OF s1 ok(1)])
  have n1: "nodes_ok z1 (set ?gl) rl'" by (rule nodes_ok_same(2) [OF s1 nodes_ok_rows [OF ok(3) r1(2)]])
  have e1: "cursor z1 = cursor z" "zcount z1 = zcount z" "entry z1 = entry z"
    using s1 entry_same(2) [OF s1] by (simp_all only: same_global_def)
  have hd: "ghead z1 = firstp ?gl None"
    using l1 dlseg_entry_ptr unfolding lists_ok_def ginv_def by blast
  have z: "move_to_front a z = (if ys \<noteq> [] then glink_node a (gunlink_node a z1) else z1)"
  proof -
    from ok(1) have "distinct ?gl" by (simp only: lists_ok_def ginv_def)
    then have "Some a \<noteq> ghead z1 \<longleftrightarrow> ys \<noteq> []" unfolding hd by (cases ys) auto
    then show ?thesis unfolding move_to_front_def Let_def z1_def [symmetric] by simp
  qed
  note f = gfront [OF l1]
  have s: "set (a # ys @ zs) = set ?gl" by auto
  have "zinv (move_to_front a z) (a # ys @ zs) fl rl' \<and> entry (move_to_front a z) = entry z \<and>
    cursor (move_to_front a z) = (if cursor z = Some a \<and> ys \<noteq> [] then lastp ys None else cursor z) \<and>
    zcount (move_to_front a z) = zcount z"
  proof (cases "ys = []")
    case True
    then show ?thesis unfolding z zinv_def using l1 n1 r1(1) e1 ok(4) by simp
  next
    case False
    have "zcount (glink_node a (gunlink_node a z1)) = zcount z" using f(2) e1(2) by (simp only: same_rows_def)
    with False rows_ok_same [OF f(2) r1(1)] nodes_ok_same(1) [OF f(2) n1] f(1,3) entry_same(1) [OF f(2)] e1 ok(4)
    show ?thesis unfolding z zinv_def s by simp
  qed
  then show "\<exists>rl'. zinv (move_to_front a z) (a # ys @ zs) fl rl'" "entry (move_to_front a z) = entry z"
    "cursor (move_to_front a z) = (if cursor z = Some a \<and> ys \<noteq> [] then lastp ys None else cursor z)"
    "zcount (move_to_front a z) = zcount z" by blast+
qed

lemma nodes_ok_remove:
  assumes "nodes_ok z N rl" and "a \<in> N" and "set xs = set (rl (rindex (heap z a))) - {a}"
  shows "nodes_ok z (N - {a}) (rl(rindex (heap z a) := xs))"
  using assms unfolding nodes_ok_def by (auto intro: inj_on_subset)

lemma nodes_ok_insert:
  assumes "nodes_ok z N rl" and "a \<notin> N" and "i = row_index z k" and "rindex (heap z a) = i" and "zkey (heap z a) = k"
    and "\<And>b. b \<in> N \<Longrightarrow> zkey (heap z b) \<noteq> k"
  shows "nodes_ok z (insert a N) (rl(i := a # rl i))"
proof -
  have "set ((rl(i := a # rl i)) j) = {b \<in> insert a N. rindex (heap z b) = j}" if "j < nrows z" for j
    using that assms(1,2,4) unfolding nodes_ok_def by auto
  moreover have "inj_on (\<lambda>b. zkey (heap z b)) (insert a N)"
    using assms(1,5,6) unfolding nodes_ok_def by (auto dest: assms(6))
  moreover have "0 < nrows z" "nrows z < 2 ^ 32" using assms(1) unfolding nodes_ok_def by blast+
  moreover have "rindex (heap z b) = row_index z (zkey (heap z b))" if "b \<in> insert a N" for b
    using that assms(1,3,4,5) unfolding nodes_ok_def by blast
  ultimately show ?thesis unfolding nodes_ok_def by blast
qed

lemma zinv_fields [simp]:
  "zinv (z\<lparr>find_fail := x\<rparr>) gl fl rl = zinv z gl fl rl" "zinv (z\<lparr>find_success := x\<rparr>) gl fl rl = zinv z gl fl rl"
  "entry (z\<lparr>find_fail := x\<rparr>) = entry z" "entry (z\<lparr>find_success := x\<rparr>) = entry z"
  "entry (z\<lparr>cursor := p\<rparr>) = entry z" "entry (z\<lparr>zcount := n\<rparr>) = entry z"
  by (simp_all add: zinv_def lists_ok_def ginv_def rows_ok_def nodes_ok_def row_index_def entry_def fun_eq_iff)

lemma count_fields:
  "lists_ok (z\<lparr>zcount := n\<rparr>) gl fl = lists_ok z gl fl" "rows_ok (z\<lparr>zcount := n\<rparr>) rl = rows_ok z rl"
  "nodes_ok (z\<lparr>zcount := n\<rparr>) N rl = nodes_ok z N rl"
  "rows_ok (z\<lparr>cursor := p\<rparr>) rl = rows_ok z rl" "nodes_ok (z\<lparr>cursor := p\<rparr>) N rl = nodes_ok z N rl"
  by (simp_all add: lists_ok_def ginv_def rows_ok_def nodes_ok_def row_index_def)

lemma zinv_cursor: "zinv z gl fl rl \<Longrightarrow> (\<And>c. p = Some c \<Longrightarrow> c \<in> set gl) \<Longrightarrow> zinv (z\<lparr>cursor := p\<rparr>) gl fl rl"
  unfolding zinv_def count_fields by (simp add: lists_ok_def ginv_def)

lemma remove_node_zinv:
  assumes "zinv z (ys @ a # zs) fl rl"
  shows "\<exists>z' rl'. remove_node (Some a) z = (True, z') \<and> zinv z' (ys @ zs) (a # fl) rl' \<and> entry z' = entry z \<and>
    cursor z' = (if cursor z = Some a then lastp ys None else cursor z)"
proof -
  let ?gl = "ys @ a # zs"
  from assms have ok: "lists_ok z ?gl fl" "rows_ok z rl" "nodes_ok z (set ?gl) rl" "zcount z = of_nat (length ?gl)"
    unfolding zinv_def by blast+
  have a: "a \<in> set ?gl" by simp
  note na = nodes_okD [OF ok(3) a]
  from na(2) obtain rs ts where rl: "rl (rindex (heap z a)) = rs @ a # ts" by (auto dest: split_list)
  let ?i = "rindex (heap z a)"
  let ?u = "unlink_node a z"
  let ?rl = "rl(?i := rs @ ts)"
  note u = unlink_rows [OF ok(2) refl na(1) rl]
  have "set (rs @ ts) = set (rl ?i) - {a}" using rows_okD(2) [OF ok(2) na(1)] rl by auto
  from nodes_ok_same(2) [OF u(2) nodes_ok_remove [OF ok(3) a this]] have nu: "nodes_ok ?u (set ?gl - {a}) ?rl" .
  have lu: "lists_ok ?u ?gl fl" by (rule lists_ok_same [OF u(2) ok(1)])
  then have gu: "ginv ?u ?gl" "slseg (GN ?u) (fhead ?u) fl" "distinct fl" "set fl \<inter> set ?gl = {}" "distinct ?gl"
    "\<And>c. cursor ?u = Some c \<Longrightarrow> c \<in> set ?gl" unfolding lists_ok_def ginv_def by blast+
  let ?g = "gunlink_node a ?u"
  note g = gunlink_ginv [OF gu(1)]
  define z2 where "z2 = ?g\<lparr>zcount := zcount ?g - 1\<rparr>"
  have "slseg (GN ?g) (fhead ?g) fl"
    unfolding g(4) by (rule slseg_frame [OF gu(2)]) (rule g(5), use gu(4) in auto)
  then have s2: "slseg (GN z2) (fhead z2) fl" unfolding z2_def by simp
  have g2: "ginv z2 (ys @ zs)" using g(1) unfolding z2_def ginv_def by simp
  have "a \<notin> set fl" "set fl \<inter> set (ys @ zs) = {}" "a \<notin> set (ys @ zs)" using gu(4,5) by auto
  note f = save_free_list [OF s2 this(1) g2 this(2,3)]
  let ?z = "save_free_node a z2"
  have "cursor ?u = cursor z" using u(2) by (simp only: same_global_def)
  with f(4) g(3) have c: "cursor ?z = (if cursor z = Some a then lastp ys None else cursor z)"
    unfolding z2_def by simp
  have "\<forall>c. cursor ?z = Some c \<longrightarrow> c \<in> set (ys @ zs)"
    using ok(1) unfolding c lists_ok_def by (auto simp: lastp_def)
  then have l: "lists_ok ?z (ys @ zs) (a # fl)" using f(1,2) gu(3,4,5) unfolding lists_ok_def by auto
  have r: "rows_ok ?z ?rl"
    by (rule rows_ok_same [OF f(3)]) (simp only: z2_def count_fields, rule rows_ok_same [OF g(2) u(1)])
  have n: "nodes_ok ?z (set (ys @ zs)) ?rl"
  proof -
    have "set (ys @ zs) = set ?gl - {a}" using gu(5) by auto
    then have "nodes_ok z2 (set (ys @ zs)) ?rl"
      unfolding z2_def count_fields using nodes_ok_same(1) [OF g(2) nu] by simp
    then show ?thesis by (rule nodes_ok_same(1) [OF f(3)])
  qed
  have "zcount ?z = zcount ?g - 1" using f(3) unfolding same_rows_def z2_def by simp
  also have "zcount ?g = zcount ?u" using g(2) by (simp only: same_rows_def)
  also have "zcount ?u = zcount z" using u(2) by (simp only: same_global_def)
  finally have "zcount ?z = of_nat (length (ys @ zs))" using ok(4) by simp
  with l r n have "zinv ?z (ys @ zs) (a # fl) ?rl" unfolding zinv_def by blast
  moreover have "remove_node (Some a) z = (True, ?z)" unfolding remove_node_def Let_def z2_def by simp
  moreover have "entry ?z = entry z"
    using entry_same(1) [OF f(3)] entry_same(1) [OF g(2)] entry_same(2) [OF u(2)] unfolding z2_def by simp
  ultimately show ?thesis using c by blast
qed

section \<open>Taking and returning free nodes\<close>

lemma get_free_zinv:
  assumes "zinv z gl (a # fl) rl"
  shows "\<exists>z'. get_free_node z = (Some a, z') \<and> zinv z' gl fl rl \<and> same_rows z z' \<and> cursor z' = cursor z"
proof -
  from assms have ok: "ginv z gl" "slseg (GN z) (fhead z) (a # fl)" "distinct (a # fl)" "set (a # fl) \<inter> set gl = {}"
    "\<And>c. cursor z = Some c \<Longrightarrow> c \<in> set gl" "rows_ok z rl" "nodes_ok z (set gl) rl" "zcount z = of_nat (length gl)"
    unfolding zinv_def lists_ok_def by blast+
  from get_free_list(2) [OF ok(2,1,4,3) refl] obtain z' where z': "get_free_node z = (Some a, z')"
    "slseg (GN z') (fhead z') fl" "ginv z' gl" "same_rows z z'" "cursor z' = cursor z" by blast
  have "zcount z' = zcount z" using z'(4) by (simp only: same_rows_def)
  then have "zinv z' gl fl rl"
    unfolding zinv_def lists_ok_def z'(5)
    using ok(3,4,5,8) z'(2,3) rows_ok_same [OF z'(4) ok(6)] nodes_ok_same(1) [OF z'(4) ok(7)] by auto
  with z' show ?thesis by blast
qed

lemma get_free_none: "zinv z gl [] rl \<Longrightarrow> get_free_node z = (None, z)"
  by (simp add: zinv_def lists_ok_def get_free_node_def)

lemma zinv_rindex_less: "zinv z gl fl rl \<Longrightarrow> row_index z k < nrows z"
  unfolding zinv_def nodes_ok_def by (blast intro: row_index_less)

text \<open>Changing the key and the row of a node that is on no list.\<close>

lemma set_key_zinv:
  assumes inv: "zinv z gl fl rl" and a: "a \<notin> set gl" "a \<notin> set fl"
    and z': "z' = z\<lparr>heap := (heap z)(a := (heap z a)\<lparr>zkey := k, rindex := i\<rparr>)\<rparr>"
  shows "zinv z' gl fl rl"
proof -
  have v: "GN z' = GN z" "GP z' = GP z" "RN z' = RN z" "RP z' = RP z" "table z' = table z" "ghead z' = ghead z"
    "gtail z' = gtail z" "fhead z' = fhead z" "cursor z' = cursor z" "nrows z' = nrows z" "hash_fcn z' = hash_fcn z"
    "zcount z' = zcount z" unfolding z' by (auto simp: fun_eq_iff)
  from inv have "nodes_ok z (set gl) rl" unfolding zinv_def by blast
  moreover have "nodes_ok z' (set gl) rl = nodes_ok z (set gl) rl"
    by (rule nodes_ok_cong [OF v(10,11)]) (use a(1) z' in auto)
  ultimately have "nodes_ok z' (set gl) rl" by blast
  moreover have "lists_ok z' gl fl \<and> rows_ok z' rl \<and> zcount z' = of_nat (length gl)"
    using inv unfolding zinv_def lists_ok_def ginv_def rows_ok_def v by blast
  ultimately show ?thesis unfolding zinv_def by blast
qed

lemma insert_zinv:
  assumes inv: "zinv z gl fl rl" and a: "a \<notin> set gl" "a \<notin> set fl"
    and node: "zkey (heap z a) = k" "rindex (heap z a) = row_index z k"
    and new: "\<And>b. b \<in> set gl \<Longrightarrow> zkey (heap z b) \<noteq> k"
  defines "z' \<equiv> glink_node a (link_node a z)"
  shows "\<exists>rl'. zinv (z'\<lparr>zcount := zcount z' + 1\<rparr>) (a # gl) fl rl'" "entry z' = entry z" "cursor z' = cursor z"
proof -
  from inv have ok: "lists_ok z gl fl" "rows_ok z rl" "nodes_ok z (set gl) rl" "zcount z = of_nat (length gl)"
    unfolding zinv_def by blast+
  note i = zinv_rindex_less [OF inv, of k]
  have n: "a \<notin> set (rl j)" if "j < nrows z" for j using ok(3) a(1) that unfolding nodes_ok_def by blast
  let ?rl = "rl(row_index z k := a # rl (row_index z k))"
  note l = link_rows [OF ok(2) node(2) [symmetric] i n]
  have nl: "nodes_ok (link_node a z) (set (a # gl)) ?rl"
    using nodes_ok_same(2) [OF l(2) nodes_ok_insert [OF ok(3) a(1) refl node(2,1) new]] by simp
  have ll: "lists_ok (link_node a z) gl fl" by (rule lists_ok_same [OF l(2) ok(1)])
  then have g: "ginv (link_node a z) gl" "slseg (GN (link_node a z)) (fhead (link_node a z)) fl" "distinct fl"
    "set fl \<inter> set gl = {}" "\<And>c. cursor (link_node a z) = Some c \<Longrightarrow> c \<in> set gl" unfolding lists_ok_def by blast+
  note f = glink_ginv [OF g(1) a(1), folded z'_def]
  have "slseg (GN z') (fhead z') fl"
    unfolding f(4) by (rule slseg_frame [OF g(2)]) (rule f(5), use g(4) a(2) in auto)
  with f(1,3) g(3,4,5) a(2) have lz: "lists_ok z' (a # gl) fl" unfolding lists_ok_def by auto
  have c: "zcount z' = zcount z" using f(2) l(2) by (simp only: same_rows_def same_global_def)
  have "zinv (z'\<lparr>zcount := zcount z' + 1\<rparr>) (a # gl) fl ?rl"
    unfolding zinv_def count_fields
    using lz rows_ok_same [OF f(2) l(1)] nodes_ok_same(1) [OF f(2) nl] c ok(4) by simp
  then show "\<exists>rl'. zinv (z'\<lparr>zcount := zcount z' + 1\<rparr>) (a # gl) fl rl'" by blast
  show "entry z' = entry z" using entry_same(1) [OF f(2)] entry_same(2) [OF l(2)] by simp
  show "cursor z' = cursor z" using f(3) l(2) by (simp only: same_global_def)
qed

lemma zhash_push_zinv:
  assumes inv: "zinv z gl fl rl" and a: "a \<notin> set gl" "a \<notin> set fl"
  shows "zinv (zhash_push a d z) gl (a # fl) rl"
    "entry (zhash_push a d z) = (entry z)(a := (zkey (heap z a), d))" "cursor (zhash_push a d z) = cursor z"
proof -
  define z1 where "z1 = z\<lparr>heap := (heap z)(a := \<lparr>gnext = None, gprev = None, rnext = None, rprev = None,
       rindex = 0, zkey = zkey (heap z a), zdata = d\<rparr>)\<rparr>"
  have p: "zhash_push a d z = save_free_node a z1" unfolding zhash_push_def z1_def ..
  have h: "heap z1 b = heap z b" if "b \<noteq> a" for b using that by (simp add: z1_def)
  have v: "table z1 = table z" "ghead z1 = ghead z" "gtail z1 = gtail z" "fhead z1 = fhead z" "cursor z1 = cursor z"
    "nrows z1 = nrows z" "hash_fcn z1 = hash_fcn z" "zcount z1 = zcount z" unfolding z1_def by simp_all
  from inv have ok: "ginv z gl" "slseg (GN z) (fhead z) fl" "distinct fl" "set fl \<inter> set gl = {}"
    "\<And>c. cursor z = Some c \<Longrightarrow> c \<in> set gl" "rows_ok z rl" "nodes_ok z (set gl) rl" "zcount z = of_nat (length gl)"
    unfolding zinv_def lists_ok_def by blast+
  have hgl: "heap z1 b = heap z b" if "b \<in> set gl" for b using that a(1) by (intro h) auto
  have "dlseg (GN z1) (GP z1) (ghead z) None gl None"
    by (rule dlseg_frame [of "GN z" "GP z"]) (use ok(1) in \<open>simp only: ginv_def\<close>, simp add: hgl)
  with ok(1) have g1: "ginv z1 gl" unfolding ginv_def v by blast
  have s1: "slseg (GN z1) (fhead z1) fl"
    unfolding v by (rule slseg_frame [OF ok(2)]) (subst h, use a(2) in auto)
  have n1: "nodes_ok z1 (set gl) rl"
    using ok(7) by (subst nodes_ok_cong [OF v(6,7)]) (simp_all add: hgl)
  have r1: "rows_ok z1 rl"
  proof -
    have "dlseg (RN z1) (RP z1) (table z ! i) None (rl i) None" if "i < nrows z" for i
    proof (rule dlseg_frame [OF rows_okD(1) [OF ok(6) that]])
      fix b assume "b \<in> set (rl i)"
      then have "b \<in> set gl" using ok(7) that unfolding nodes_ok_def by blast
      then show "RN z1 b = RN z b \<and> RP z1 b = RP z b" by (simp add: hgl)
    qed
    then show ?thesis using ok(6) unfolding rows_ok_def v by blast
  qed
  note f = save_free_list [OF s1 a(2) g1 ok(4) a(1), folded p]
  show c: "cursor (zhash_push a d z) = cursor z" using f(4) v(5) by simp
  have "zcount (zhash_push a d z) = zcount z" using f(3) v(8) by (simp only: same_rows_def)
  with f(1,2) ok(3,4,5,8) a c rows_ok_same [OF f(3) r1] nodes_ok_same(1) [OF f(3) n1]
  show "zinv (zhash_push a d z) gl (a # fl) rl" unfolding zinv_def lists_ok_def by auto
  show "entry (zhash_push a d z) = (entry z)(a := (zkey (heap z a), d))"
    unfolding entry_same(1) [OF f(3)] by (auto simp: entry_def z1_def fun_eq_iff)
qed

end
