(* ===== verification/ZHash_Lru.thy ===== *)
theory ZHash_Lru
  imports ZHash_Refine
begin

text \<open>
  The contract of \<^verbatim>\<open>zhash.cc\<close>: a map that keeps its entries in order of use, with a cursor that walks from the
  least recently used entry towards the most recent one, and a stock of spare data. Every sequence of operations on the
  pointer structure returns, answers what the specification answers, and frees each node once.
\<close>

section \<open>Specification\<close>

definition before :: "'k \<Rightarrow> ('k \<times> 'd) list \<Rightarrow> 'k option" where
  "before k es = (let ys = takeWhile (\<lambda>e. fst e \<noteq> k) es in if ys = [] then None else Some (fst (last ys)))"

definition lru_front :: "'k \<Rightarrow> 'd \<Rightarrow> ('k, 'd) lru \<Rightarrow> ('k, 'd) lru" where
  "lru_front k d s = s\<lparr>entries := (k, d) # filter (\<lambda>e. fst e \<noteq> k) (entries s),
     cur := if cur s = Some k \<and> before k (entries s) \<noteq> None then before k (entries s) else cur s\<rparr>"

definition lru_drop :: "'k \<Rightarrow> 'd \<Rightarrow> ('k, 'd) lru \<Rightarrow> ('k, 'd) lru" where
  "lru_drop k d s = s\<lparr>entries := filter (\<lambda>e. fst e \<noteq> k) (entries s), spare := d # spare s,
     cur := if cur s = Some k then before k (entries s) else cur s\<rparr>"

definition lru_data :: "('k, 'd) lru \<Rightarrow> 'd option" where
  "lru_data s = Option.bind (cur s) (map_of (entries s))"

datatype ('k, 'd) zop =
  Push nat 'd | Pop | Get 'k | Find 'k | First | Next | Current | Touch | RemoveCursor | Remove 'k | Count

datatype 'd zres = Unit | Data "'d option" | Fetched "'d option" bool | Done bool | Total u32

fun lru_step :: "('k, 'd) zop \<Rightarrow> ('k, 'd) lru \<Rightarrow> 'd zres \<times> ('k, 'd) lru" where
  "lru_step (Push a d) s = (Unit, s\<lparr>spare := d # spare s\<rparr>)"
| "lru_step Pop s = (case spare s of [] \<Rightarrow> (Data None, s) | d # ds \<Rightarrow> (Data (Some d), s\<lparr>spare := ds\<rparr>))"
| "lru_step (Get k) s =
     (case map_of (entries s) k of
        Some d \<Rightarrow> (Fetched (Some d) False, lru_front k d s)
      | None \<Rightarrow>
          (case spare s of
             [] \<Rightarrow> (Fetched None False, s)
           | d # ds \<Rightarrow> (Fetched (Some d) True, s\<lparr>entries := (k, d) # entries s, spare := ds\<rparr>)))"
| "lru_step (Find k) s =
     (case map_of (entries s) k of Some d \<Rightarrow> (Data (Some d), lru_front k d s) | None \<Rightarrow> (Data None, s))"
| "lru_step First s =
     (let s' = s\<lparr>cur := if entries s = [] then None else Some (fst (last (entries s)))\<rparr> in (Data (lru_data s'), s'))"
| "lru_step Next s =
     (let s' = s\<lparr>cur := Option.bind (cur s) (\<lambda>k. before k (entries s))\<rparr> in (Data (lru_data s'), s'))"
| "lru_step Current s = (Data (lru_data s), s)"
| "lru_step Touch s =
     (case cur s of
        None \<Rightarrow> (Done False, s)
      | Some k \<Rightarrow>
          (let s' = s\<lparr>cur := before k (entries s)\<rparr>
           in if before k (entries s) = None then (Done False, s')
              else (Done True, lru_front k (the (map_of (entries s) k)) s')))"
| "lru_step RemoveCursor s =
     (case cur s of
        None \<Rightarrow> (Done False, s)
      | Some k \<Rightarrow> (Done True, lru_drop k (the (map_of (entries s) k)) (s\<lparr>cur := None\<rparr>)))"
| "lru_step (Remove k) s =
     (case map_of (entries s) k of
        Some d \<Rightarrow> (Done True, lru_drop k d (lru_front k d s))
      | None \<Rightarrow> (Done False, s))"
| "lru_step Count s = (Total (of_nat (length (entries s))), s)"

definition lru_empty :: "('k, 'd) lru" where "lru_empty = \<lparr>entries = [], spare = [], cur = None\<rparr>"

section \<open>The machine\<close>

text \<open>The table with the addresses that \<^verbatim>\<open>new\<close> has returned and the ones that have been deleted.\<close>

record ('k, 'd) zsys =
  tab :: "('k, 'd) zhash"
  news :: "nat list"
  deletes :: "nat list"

definition with_tab :: "('r \<times> ('k, 'd) zhash) \<Rightarrow> ('k, 'd) zsys \<Rightarrow> 'r \<times> ('k, 'd) zsys" where
  "with_tab p c = (fst p, c\<lparr>tab := snd p\<rparr>)"

fun zstep :: "('k, 'd) zop \<Rightarrow> ('k, 'd) zsys \<Rightarrow> ('d zres \<times> ('k, 'd) zsys) option" where
  "zstep (Push a d) c = Some (Unit, c\<lparr>tab := zhash_push a d (tab c), news := a # news c\<rparr>)"
| "zstep Pop c =
     Some (with_tab (map_prod Data id (zhash_pop (tab c)))
       (c\<lparr>deletes := (case fhead (tab c) of Some a \<Rightarrow> a # deletes c | None \<Rightarrow> deletes c)\<rparr>))"
| "zstep (Get k) c = map_option (\<lambda>(d, new, z). with_tab (Fetched d new, z) c) (zhash_get k (tab c))"
| "zstep (Find k) c = map_option (\<lambda>p. with_tab (map_prod Data id p) c) (zhash_find k (tab c))"
| "zstep First c = Some (with_tab (map_prod Data id (zhash_first (tab c))) c)"
| "zstep Next c = Some (with_tab (map_prod Data id (zhash_next (tab c))) c)"
| "zstep Current c = Some (Data (zhash_current (tab c)), c)"
| "zstep Touch c = Some (with_tab (map_prod Done id (zhash_touch (tab c))) c)"
| "zstep RemoveCursor c = Some (with_tab (map_prod Done id (zhash_remove_cursor (tab c))) c)"
| "zstep (Remove k) c = map_option (\<lambda>p. with_tab (map_prod Done id p) c) (zhash_remove k (tab c))"
| "zstep Count c = Some (Total (zcount (tab c)), c)"

fun fresh_op :: "('k, 'd) zop \<Rightarrow> ('k, 'd) zsys \<Rightarrow> bool" where
  "fresh_op (Push a d) c \<longleftrightarrow> a \<notin> set (news c)"
| "fresh_op _ c \<longleftrightarrow> True"

definition push_addrs :: "('k, 'd) zop list \<Rightarrow> nat list" where
  "push_addrs ops = concat (map (\<lambda>x. case x of Push a d \<Rightarrow> [a] | _ \<Rightarrow> []) ops)"

text \<open>The destructor: the nodes it deletes, rows first, then the free list.\<close>

partial_function (option) delete_row :: "('k, 'd) zhash \<Rightarrow> ptr \<Rightarrow> nat list option" where
  "delete_row z p =
     (case p of
        None \<Rightarrow> Some []
      | Some a \<Rightarrow> Option.bind (delete_row z (rnext (heap z a))) (\<lambda>as. Some (a # as)))"

partial_function (option) delete_free_list :: "('k, 'd) zhash \<Rightarrow> ptr \<Rightarrow> nat list option" where
  "delete_free_list z p =
     (case p of
        None \<Rightarrow> Some []
      | Some a \<Rightarrow> Option.bind (delete_free_list z (gnext (heap z a))) (\<lambda>as. Some (a # as)))"

definition zhash_delete :: "('k, 'd) zhash \<Rightarrow> nat list option" where
  "zhash_delete z =
     Option.bind (those (map (delete_row z) (table z)))
       (\<lambda>rs. Option.bind (delete_free_list z (fhead z)) (\<lambda>fs. Some (concat rs @ fs)))"

section \<open>Keys and positions\<close>

lemma split_entries:
  assumes "inj_on (\<lambda>a. fst (f a)) (set (ys @ a # zs))" and "distinct (ys @ a # zs)"
  shows "takeWhile (\<lambda>e. fst e \<noteq> fst (f a)) (map f (ys @ a # zs)) = map f ys"
    "filter (\<lambda>e. fst e \<noteq> fst (f a)) (map f (ys @ a # zs)) = map f (ys @ zs)"
    "map_of (map f (ys @ a # zs)) (fst (f a)) = Some (snd (f a))"
proof -
  have n: "fst (f b) \<noteq> fst (f a)" if "b \<in> set (ys @ zs)" for b
  proof
    assume "fst (f b) = fst (f a)"
    with that have "b = a" by (intro inj_onD [OF assms(1)]) auto
    with that assms(2) show False by auto
  qed
  then show "takeWhile (\<lambda>e. fst e \<noteq> fst (f a)) (map f (ys @ a # zs)) = map f ys"
    by (subst map_append, subst takeWhile_append2) (auto simp: takeWhile_append)
  show "filter (\<lambda>e. fst e \<noteq> fst (f a)) (map f (ys @ a # zs)) = map f (ys @ zs)"
    using n by (auto simp: filter_id_conv)
  have "fst (f a) \<notin> fst ` set (map f ys)" using n by (auto simp: image_iff) metis
  then have "map_of (map f ys) (fst (f a)) = None" by (simp only: map_of_eq_None_iff) simp
  then show "map_of (map f (ys @ a # zs)) (fst (f a)) = Some (snd (f a))"
    by (cases "f a") (simp add: map_add_def)
qed

lemma before_split:
  assumes "inj_on (\<lambda>a. fst (f a)) (set (ys @ a # zs))" and "distinct (ys @ a # zs)"
  shows "before (fst (f a)) (map f (ys @ a # zs)) = map_option (\<lambda>b. fst (f b)) (lastp ys None)"
  using split_entries(1) [OF assms] by (simp add: before_def lastp_def last_map)

lemma zinv_keys:
  assumes "zinv z gl fl rl"
  shows "inj_on (\<lambda>a. fst (entry z a)) (set gl)" "distinct gl" "\<And>c. cursor z = Some c \<Longrightarrow> c \<in> set gl"
  using assms by (simp_all add: zinv_def nodes_ok_def lists_ok_def ginv_def entry_def)

lemma cur_view:
  assumes "zinv z gl fl rl" and "a \<in> set gl"
  shows "cur (view z gl fl) = Some (fst (entry z a)) \<longleftrightarrow> cursor z = Some a"
  using zinv_keys [OF assms(1)] assms(2) by (auto simp: view_def dest: inj_onD)

lemma front_view:
  assumes "zinv z (ys @ a # zs) fl rl" and "entry z' = entry z"
    and "cursor z' = (if cursor z = Some a \<and> ys \<noteq> [] then lastp ys None else cursor z)"
  shows "view z' (a # ys @ zs) fl = lru_front (fst (entry z a)) (snd (entry z a)) (view z (ys @ a # zs) fl)"
proof -
  note k = zinv_keys [OF assms(1)]
  have b: "before (fst (entry z a)) (entries (view z (ys @ a # zs) fl)) = map_option (\<lambda>b. fst (entry z b)) (lastp ys None)"
    unfolding view_def lru.simps by (rule before_split [OF k(1,2)])
  have c: "cur (view z (ys @ a # zs) fl) = Some (fst (entry z a)) \<longleftrightarrow> cursor z = Some a"
    by (rule cur_view [OF assms(1)]) simp
  have f: "filter (\<lambda>e. fst e \<noteq> fst (entry z a)) (entries (view z (ys @ a # zs) fl)) = map (entry z) (ys @ zs)"
    unfolding view_def lru.simps by (rule split_entries(2) [OF k(1,2)])
  have n: "map_option (\<lambda>b. fst (entry z b)) (lastp ys None) \<noteq> None \<longleftrightarrow> ys \<noteq> []" by (simp add: lastp_def)
  show ?thesis
    unfolding lru_front_def b c f n unfolding view_def assms(2,3) by (cases "cursor z = Some a \<and> ys \<noteq> []") auto
qed

lemma drop_view:
  assumes "zinv z (ys @ a # zs) fl rl" and "entry z' = entry z"
    and "cursor z' = (if cursor z = Some a then lastp ys None else cursor z)"
  shows "view z' (ys @ zs) (a # fl) = lru_drop (fst (entry z a)) (snd (entry z a)) (view z (ys @ a # zs) fl)"
proof -
  note k = zinv_keys [OF assms(1)]
  have b: "before (fst (entry z a)) (entries (view z (ys @ a # zs) fl)) = map_option (\<lambda>b. fst (entry z b)) (lastp ys None)"
    unfolding view_def lru.simps by (rule before_split [OF k(1,2)])
  have c: "cur (view z (ys @ a # zs) fl) = Some (fst (entry z a)) \<longleftrightarrow> cursor z = Some a"
    by (rule cur_view [OF assms(1)]) simp
  have f: "filter (\<lambda>e. fst e \<noteq> fst (entry z a)) (entries (view z (ys @ a # zs) fl)) = map (entry z) (ys @ zs)"
    unfolding view_def lru.simps by (rule split_entries(2) [OF k(1,2)])
  show ?thesis
    unfolding lru_drop_def b c f unfolding view_def assms(2,3) by (cases "cursor z = Some a") auto
qed

section \<open>Lookup\<close>

lemma row_search_find:
  "dlseg (RN z) q p pv xs None \<Longrightarrow> row_search z k p = Some (List.find (\<lambda>a. zkey (heap z a) = k) xs)"
proof (induction xs arbitrary: p pv)
  case Nil
  then show ?case by (simp add: row_search.simps)
next
  case (Cons a xs)
  then have p: "p = Some a" "dlseg (RN z) q (RN z a) (Some a) xs None" by simp_all
  show ?case using Cons.IH [OF p(2)] unfolding p(1) by (subst row_search.simps) simp
qed

lemma row_search_spec:
  assumes "zinv z gl fl rl"
  shows "\<exists>p. row_search z k (table z ! row_index z k) = Some p \<and>
    (case p of None \<Rightarrow> \<forall>b\<in>set gl. zkey (heap z b) \<noteq> k | Some a \<Rightarrow> a \<in> set gl \<and> zkey (heap z a) = k)"
proof -
  let ?i = "row_index z k"
  from assms have ok: "rows_ok z rl" "nodes_ok z (set gl) rl" unfolding zinv_def by blast+
  note i = zinv_rindex_less [OF assms, of k]
  have row: "set (rl ?i) = {a \<in> set gl. rindex (heap z a) = ?i}" using ok(2) i unfolding nodes_ok_def by blast
  note s = row_search_find [OF rows_okD(1) [OF ok(1) i], of k]
  show ?thesis
  proof (cases "List.find (\<lambda>a. zkey (heap z a) = k) (rl ?i)")
    case None
    have "zkey (heap z b) \<noteq> k" if "b \<in> set gl" for b
    proof
      assume e: "zkey (heap z b) = k"
      with nodes_okD(3) [OF ok(2) that] that row have "b \<in> set (rl ?i)" by simp
      with None e show False by (simp add: find_None_iff)
    qed
    with s None show ?thesis by simp
  next
    case (Some a)
    then have "a \<in> set (rl ?i)" "zkey (heap z a) = k" by (auto simp: find_Some_iff)
    with s Some row show ?thesis by simp
  qed
qed

lemma map_of_view_None:
  "\<forall>b\<in>set gl. zkey (heap z b) \<noteq> k \<Longrightarrow> map_of (entries (view z gl fl)) k = None"
  by (auto simp: view_def map_of_eq_None_iff entry_def)

lemma find_node_row_spec:
  assumes "zinv z gl fl rl"
  shows "(map_of (entries (view z gl fl)) k = None \<and> (\<forall>b\<in>set gl. zkey (heap z b) \<noteq> k) \<and>
      find_node_row k z = Some (None, row_index z k, z\<lparr>find_fail := find_fail z + 1\<rparr>)) \<or>
    (\<exists>ys a zs z' rl'. gl = ys @ a # zs \<and> fst (entry z a) = k \<and>
      map_of (entries (view z gl fl)) k = Some (snd (entry z a)) \<and>
      find_node_row k z = Some (Some a, row_index z k, z') \<and> zinv z' (a # ys @ zs) fl rl' \<and> entry z' = entry z \<and>
      view z' (a # ys @ zs) fl = lru_front k (snd (entry z a)) (view z gl fl))"
proof -
  from row_search_spec [OF assms, of k] obtain p where p: "row_search z k (table z ! row_index z k) = Some p"
    "case p of None \<Rightarrow> \<forall>b\<in>set gl. zkey (heap z b) \<noteq> k | Some a \<Rightarrow> a \<in> set gl \<and> zkey (heap z a) = k" by blast
  show ?thesis
  proof (cases p)
    case None
    with p have n: "\<forall>b\<in>set gl. zkey (heap z b) \<noteq> k" by simp
    have f: "find_node_row k z = Some (None, row_index z k, z\<lparr>find_fail := find_fail z + 1\<rparr>)"
      unfolding find_node_row_def Let_def p(1) None by simp
    show ?thesis by (intro disjI1 conjI map_of_view_None n f)
  next
    case (Some a)
    with p(2) have a: "a \<in> set gl" "fst (entry z a) = k" by (simp_all add: entry_def)
    then obtain ys zs where gl: "gl = ys @ a # zs" by (auto dest: split_list)
    note inv = assms [unfolded gl]
    note k = zinv_keys [OF inv]
    define z' where "z' = (move_to_front a z)\<lparr>find_success := find_success (move_to_front a z) + 1\<rparr>"
    have f: "find_node_row k z = Some (Some a, row_index z k, z')"
      unfolding find_node_row_def Let_def p(1) Some z'_def by simp
    note m = move_to_front_zinv [OF inv]
    from m(1) obtain rl' where i: "zinv z' (a # ys @ zs) fl rl'" unfolding z'_def by auto
    have e: "entry z' = entry z" "cursor z' = (if cursor z = Some a \<and> ys \<noteq> [] then lastp ys None else cursor z)"
      using m(2,3) unfolding z'_def by simp_all
    have m: "map_of (entries (view z gl fl)) k = Some (snd (entry z a))"
      using split_entries(3) [OF k(1,2)] unfolding gl a(2) [symmetric] view_def by simp
    have v: "view z' (a # ys @ zs) fl = lru_front k (snd (entry z a)) (view z gl fl)"
      using front_view [OF inv e] unfolding a(2) gl .
    show ?thesis by (intro disjI2 exI conjI) (fact gl a(2) m f i e(1) v)+
  qed
qed

section \<open>The operations implement the specification\<close>

text \<open>The table, whose nodes are at the addresses \<open>A\<close>, represents \<open>s\<close>.\<close>

definition repr :: "('k, 'd) zhash \<Rightarrow> nat multiset \<Rightarrow> ('k, 'd) lru \<Rightarrow> bool" where
  "repr z A s \<longleftrightarrow> (\<exists>gl fl rl. zinv z gl fl rl \<and> s = view z gl fl \<and> A = mset (gl @ fl))"

lemma reprI: "zinv z gl fl rl \<Longrightarrow> s = view z gl fl \<Longrightarrow> A = mset (gl @ fl) \<Longrightarrow> repr z A s"
  unfolding repr_def by blast

lemma reprE:
  assumes "repr z A s"
  obtains gl fl rl where "zinv z gl fl rl" "s = view z gl fl" "A = mset (gl @ fl)"
  using assms unfolding repr_def by blast

lemma view_fields:
  "view (z\<lparr>find_fail := x\<rparr>) gl fl = view z gl fl" "view (z\<lparr>zcount := n\<rparr>) gl fl = view z gl fl"
  "view (z\<lparr>cursor := p\<rparr>) gl fl = (view z gl fl)\<lparr>cur := map_option (\<lambda>a. fst (entry z a)) p\<rparr>"
  by (simp_all add: view_def)

text \<open>Every operation on a key starts with the lookup.\<close>

lemma find_node_row_cases:
  assumes "repr z A s"
  obtains
    (absent) gl fl rl where "map_of (entries s) k = None" "zinv z gl fl rl" "s = view z gl fl" "A = mset (gl @ fl)"
      "\<And>b. b \<in> set gl \<Longrightarrow> zkey (heap z b) \<noteq> k"
      "find_node_row k z = Some (None, row_index z k, z\<lparr>find_fail := find_fail z + 1\<rparr>)"
  | (present) a gl fl z' rl where "map_of (entries s) k = Some (snd (entry z' a))" "fst (entry z' a) = k"
      "find_node_row k z = Some (Some a, row_index z k, z')" "zinv z' (a # gl) fl rl"
      "view z' (a # gl) fl = lru_front k (snd (entry z' a)) s" "A = mset ((a # gl) @ fl)"
proof -
  from assms obtain gl fl rl where z: "zinv z gl fl rl" "s = view z gl fl" "A = mset (gl @ fl)" by (rule reprE)
  from find_node_row_spec [OF z(1), of k] show thesis
  proof (elim disjE conjE exE)
    assume n: "\<forall>b\<in>set gl. zkey (heap z b) \<noteq> k" "map_of (entries (view z gl fl)) k = None"
      "find_node_row k z = Some (None, row_index z k, z\<lparr>find_fail := find_fail z + 1\<rparr>)"
    show thesis by (rule absent [OF _ z _ n(3)]) (use n z(2) in auto)
  next
    fix ys a zs z' rl'
    assume p: "gl = ys @ a # zs" "fst (entry z a) = k" "map_of (entries (view z gl fl)) k = Some (snd (entry z a))"
      "find_node_row k z = Some (Some a, row_index z k, z')" "zinv z' (a # ys @ zs) fl rl'" "entry z' = entry z"
      "view z' (a # ys @ zs) fl = lru_front k (snd (entry z a)) (view z gl fl)"
    show thesis by (rule present [of z' a "ys @ zs" fl rl']) (use p z(2,3) in simp_all)
  qed
qed

lemma zhash_find_repr:
  assumes "repr z A s"
  shows "\<exists>z'. map_option (map_prod Data id) (zhash_find k z) = Some (fst (lru_step (Find k) s), z') \<and>
    repr z' A (snd (lru_step (Find k) s))"
  using assms
proof (cases rule: find_node_row_cases [of _ _ _ k])
  case (absent gl fl rl)
  then have "repr (z\<lparr>find_fail := find_fail z + 1\<rparr>) A s" by (intro reprI [of _ gl fl rl]) (simp_all add: view_fields)
  with absent(1,6) show ?thesis by (simp add: zhash_find_def)
next
  case (present a gl fl z' rl)
  have "repr z' A (lru_front k (snd (entry z' a)) s)" by (rule reprI [OF present(4) present(5) [symmetric] present(6)])
  with present(1,3) show ?thesis by (simp add: zhash_find_def entry_def)
qed

lemma zhash_remove_repr:
  assumes "repr z A s"
  shows "\<exists>z'. map_option (map_prod Done id) (zhash_remove k z) = Some (fst (lru_step (Remove k) s), z') \<and>
    repr z' A (snd (lru_step (Remove k) s))"
  using assms
proof (cases rule: find_node_row_cases [of _ _ _ k])
  case (absent gl fl rl)
  then have "repr (z\<lparr>find_fail := find_fail z + 1\<rparr>) A s" by (intro reprI [of _ gl fl rl]) (simp_all add: view_fields)
  with absent(1,6) show ?thesis by (simp add: zhash_remove_def remove_node_def)
next
  case (present a gl fl z' rl)
  from present(4) have i: "zinv z' ([] @ a # gl) fl rl" by simp
  from remove_node_zinv [OF i] obtain z2 rl2 where r: "remove_node (Some a) z' = (True, z2)" "zinv z2 ([] @ gl) (a # fl) rl2"
    "entry z2 = entry z'" "cursor z2 = (if cursor z' = Some a then lastp [] None else cursor z')" by blast
  have "view z2 ([] @ gl) (a # fl) = lru_drop k (snd (entry z' a)) (lru_front k (snd (entry z' a)) s)"
    using drop_view [OF i r(3,4)] present(2,5) by simp
  then have "repr z2 A (lru_drop k (snd (entry z' a)) (lru_front k (snd (entry z' a)) s))"
    using present(6) by (intro reprI [OF r(2)]) simp_all
  with present(1,3) r(1) show ?thesis by (simp add: zhash_remove_def)
qed

lemma zhash_get_repr:
  assumes "repr z A s"
  shows "\<exists>d new z'. zhash_get k z = Some (d, new, z') \<and> fst (lru_step (Get k) s) = Fetched d new \<and>
    repr z' A (snd (lru_step (Get k) s))"
  using assms
proof (cases rule: find_node_row_cases [of _ _ _ k])
  case (present a gl fl z' rl)
  have "repr z' A (lru_front k (snd (entry z' a)) s)" by (rule reprI [OF present(4) present(5) [symmetric] present(6)])
  with present(1,3) show ?thesis by (auto simp: zhash_get_def entry_def)
next
  case (absent gl fl rl)
  let ?z = "z\<lparr>find_fail := find_fail z + 1\<rparr>"
  have i: "zinv ?z gl fl rl" using absent(2) by simp
  show ?thesis
  proof (cases fl)
    case Nil
    have "repr ?z A s" using i absent(3,4) by (intro reprI [of _ gl fl rl]) (simp_all add: view_fields)
    moreover have "get_free_node ?z = (None, ?z)" by (rule get_free_none [OF i [unfolded Nil]])
    ultimately show ?thesis using absent(1,3,6) Nil by (auto simp: zhash_get_def view_def)
  next
    case (Cons a fl')
    from get_free_zinv [OF i [unfolded Cons]] obtain z2 where z2: "get_free_node ?z = (Some a, z2)" "zinv z2 gl fl' rl"
      "same_rows ?z z2" "cursor z2 = cursor ?z" by blast
    have n: "a \<notin> set gl" "a \<notin> set fl'" using absent(2) Cons unfolding zinv_def lists_ok_def by auto
    define z3 where "z3 = z2\<lparr>heap := (heap z2)(a := (heap z2 a)\<lparr>zkey := k, rindex := row_index z k\<rparr>)\<rparr>"
    have i3: "zinv z3 gl fl' rl" by (rule set_key_zinv [OF z2(2) n z3_def])
    have h3: "zkey (heap z3 a) = k" "rindex (heap z3 a) = row_index z3 k"
      using z2(3) by (simp_all add: z3_def row_index_def same_rows_def)
    have "zkey (heap z3 b) \<noteq> k" if "b \<in> set gl" for b
      using that n(1) absent(5) [OF that] z2(3) by (auto simp: z3_def same_rows_def)
    note l = insert_zinv [OF i3 n h3 this]
    let ?z4 = "glink_node a (link_node a z3)"
    let ?z5 = "?z4\<lparr>zcount := zcount ?z4 + 1\<rparr>"
    from l(1) obtain rl5 where i5: "zinv ?z5 (a # gl) fl' rl5" by blast
    have e3: "entry z3 = (entry z)(a := (k, snd (entry z a)))"
      using entry_same(1) [OF z2(3)] by (auto simp: z3_def entry_def fun_eq_iff)
    have "view ?z5 (a # gl) fl' = s\<lparr>entries := (k, snd (entry z a)) # entries s, spare := map (\<lambda>b. snd (entry z b)) fl'\<rparr>"
      using n l(2,3) e3 z2(4) zinv_keys(3) [OF absent(2)] absent(3) z3_def
      by (auto simp: view_fields view_def map_eq_conv option.map_comp intro!: option.map_cong)
    then have "repr ?z5 A (s\<lparr>entries := (k, snd (entry z a)) # entries s, spare := map (\<lambda>b. snd (entry z b)) fl'\<rparr>)"
      using absent(4) Cons by (intro reprI [OF i5]) simp_all
    moreover have "zdata (heap ?z5 a) = snd (entry z a)" using fun_cong [OF l(2), of a] e3 by (simp add: entry_def)
    moreover have "spare s = snd (entry z a) # map (\<lambda>b. snd (entry z b)) fl'" using absent(3) Cons by (simp add: view_def)
    ultimately show ?thesis
      using absent(1,6) z2(1) by (auto simp: zhash_get_def Let_def z3_def [symmetric])
  qed
qed

lemma zhash_push_repr:
  assumes "repr z A s" and "a \<notin># A"
  shows "repr (zhash_push a d z) (add_mset a A) (s\<lparr>spare := d # spare s\<rparr>)"
proof -
  from assms(1) obtain gl fl rl where z: "zinv z gl fl rl" "s = view z gl fl" "A = mset (gl @ fl)" by (rule reprE)
  from assms(2) z(3) have n: "a \<notin> set gl" "a \<notin> set fl" by auto
  note p = zhash_push_zinv [OF z(1) n]
  have "view (zhash_push a d z) gl (a # fl) = s\<lparr>spare := d # spare s\<rparr>"
    using n p(2,3) zinv_keys(3) [OF z(1)] z(2) by (auto simp: view_def intro!: option.map_cong)
  then show ?thesis using z(3) by (intro reprI [OF p(1)]) simp_all
qed

lemma zhash_pop_repr:
  assumes "repr z A s"
  shows "map_prod Data id (zhash_pop z) = (fst (lru_step Pop s), snd (zhash_pop z)) \<and>
    repr (snd (zhash_pop z)) (case fhead z of Some a \<Rightarrow> A - {#a#} | None \<Rightarrow> A) (snd (lru_step Pop s)) \<and>
    (\<forall>a. fhead z = Some a \<longrightarrow> a \<in># A)"
proof -
  from assms obtain gl fl rl where z: "zinv z gl fl rl" "s = view z gl fl" "A = mset (gl @ fl)" by (rule reprE)
  from z(1) have "slseg (GN z) (fhead z) fl" unfolding zinv_def lists_ok_def by blast
  note h = slseg_entry_ptr [OF this]
  show ?thesis
  proof (cases fl)
    case Nil
    with get_free_none z(1) have "get_free_node z = (None, z)" by blast
    then show ?thesis using Nil h assms z(2) by (simp add: zhash_pop_def view_def)
  next
    case (Cons a fl')
    from get_free_zinv [OF z(1) [unfolded Cons]] obtain z' where z': "get_free_node z = (Some a, z')" "zinv z' gl fl' rl"
      "same_rows z z'" "cursor z' = cursor z" by blast
    have e: "entry z' = entry z" by (rule entry_same(1) [OF z'(3)])
    have "view z' gl fl' = s\<lparr>spare := map (\<lambda>a. snd (entry z a)) fl'\<rparr>" using e z'(4) z(2) by (simp add: view_def)
    then have "repr z' (A - {#a#}) (s\<lparr>spare := map (\<lambda>a. snd (entry z a)) fl'\<rparr>)"
      using z(3) Cons by (intro reprI [OF z'(2)]) simp_all
    moreover have "zdata (heap z' a) = snd (entry z a)" using fun_cong [OF e, of a] by (simp add: entry_def)
    moreover have "spare s = snd (entry z a) # map (\<lambda>a. snd (entry z a)) fl'" using z(2) Cons by (simp add: view_def)
    ultimately show ?thesis using z'(1) h Cons z(3) by (simp add: zhash_pop_def)
  qed
qed

lemma current_view:
  assumes "zinv z gl fl rl"
  shows "zhash_current z = lru_data (view z gl fl)"
proof (cases "cursor z")
  case None
  then show ?thesis by (simp add: zhash_current_def lru_data_def view_def)
next
  case (Some c)
  note k = zinv_keys [OF assms]
  from k(3) [OF Some] obtain ys zs where gl: "gl = ys @ c # zs" by (auto dest: split_list)
  from split_entries(3) [OF k(1,2) [unfolded gl]] Some show ?thesis
    by (simp add: zhash_current_def lru_data_def view_def gl) (simp add: entry_def)
qed

text \<open>Moving the cursor along the list.\<close>

lemma zinv_gprev:
  assumes "zinv z gl fl rl" and "c \<in> set gl"
  shows "map_option (\<lambda>a. fst (entry z a)) (GP z c) = before (fst (entry z c)) (entries (view z gl fl))"
    "\<And>b. GP z c = Some b \<Longrightarrow> b \<in> set gl"
proof -
  note k = zinv_keys [OF assms(1)]
  from assms(2) obtain ys zs where gl: "gl = ys @ c # zs" by (auto dest: split_list)
  have d: "dlseg (GN z) (GP z) (ghead z) None (ys @ c # zs) None"
    using assms(1) unfolding zinv_def lists_ok_def ginv_def gl by blast
  note m = dlseg_middle(1) [OF d]
  show "map_option (\<lambda>a. fst (entry z a)) (GP z c) = before (fst (entry z c)) (entries (view z gl fl))"
    unfolding m view_def lru.simps gl by (rule before_split [OF k(1,2) [unfolded gl], symmetric])
  show "b \<in> set gl" if "GP z c = Some b" for b
    using that unfolding m gl lastp_def by (auto split: if_splits)
qed

lemma zhash_first_repr:
  assumes "repr z A s"
  shows "map_prod Data id (zhash_first z) = (fst (lru_step First s), snd (zhash_first z)) \<and>
    repr (snd (zhash_first z)) A (snd (lru_step First s))"
proof -
  from assms obtain gl fl rl where z: "zinv z gl fl rl" "s = view z gl fl" "A = mset (gl @ fl)" by (rule reprE)
  let ?z = "z\<lparr>cursor := gtail z\<rparr>"
  have t: "gtail z = lastp gl None" using z(1) unfolding zinv_def lists_ok_def ginv_def by blast
  have i: "zinv ?z gl fl rl" by (rule zinv_cursor [OF z(1)]) (auto simp: t lastp_def split: if_splits)
  have v: "view ?z gl fl = s\<lparr>cur := if entries s = [] then None else Some (fst (last (entries s)))\<rparr>"
    unfolding view_fields t z(2) by (simp add: view_def lastp_def last_map)
  with current_view [OF i] reprI [OF i v [symmetric] z(3)] show ?thesis
    by (simp add: zhash_first_def Let_def)
qed

lemma zhash_next_repr:
  assumes "repr z A s"
  shows "map_prod Data id (zhash_next z) = (fst (lru_step Next s), snd (zhash_next z)) \<and>
    repr (snd (zhash_next z)) A (snd (lru_step Next s))"
proof (cases "cursor z")
  case None
  with assms show ?thesis by (auto elim!: reprE intro!: reprI simp: zhash_next_def view_def lru_data_def Let_def)
next
  case (Some c)
  from assms obtain gl fl rl where z: "zinv z gl fl rl" "s = view z gl fl" "A = mset (gl @ fl)" by (rule reprE)
  note c = zinv_keys(3) [OF z(1) Some]
  let ?z = "z\<lparr>cursor := gprev (heap z c)\<rparr>"
  note g = zinv_gprev [OF z(1) c]
  have i: "zinv ?z gl fl rl" by (rule zinv_cursor [OF z(1)]) (rule g(2))
  have "cur s = Some (fst (entry z c))" using Some z(2) by (simp add: view_def)
  then have v: "view ?z gl fl = s\<lparr>cur := Option.bind (cur s) (\<lambda>k. before k (entries s))\<rparr>"
    using g(1) z(2) by (simp add: view_fields)
  with Some current_view [OF i] reprI [OF i v [symmetric] z(3)] show ?thesis
    by (simp add: zhash_next_def Let_def)
qed

lemma zhash_touch_repr:
  assumes "repr z A s"
  shows "map_prod Done id (zhash_touch z) = (fst (lru_step Touch s), snd (zhash_touch z)) \<and>
    repr (snd (zhash_touch z)) A (snd (lru_step Touch s))"
proof (cases "cursor z")
  case None
  with assms show ?thesis by (auto elim!: reprE intro!: reprI simp: zhash_touch_def view_def)
next
  case (Some c)
  from assms obtain gl fl rl where z: "zinv z gl fl rl" "s = view z gl fl" "A = mset (gl @ fl)" by (rule reprE)
  note c = zinv_keys(3) [OF z(1) Some]
  then obtain ys zs where gl: "gl = ys @ c # zs" by (auto dest: split_list)
  note k = zinv_keys [OF z(1), unfolded gl]
  let ?z = "z\<lparr>cursor := gprev (heap z c)\<rparr>"
  note g = zinv_gprev [OF z(1) c]
  have i: "zinv ?z (ys @ c # zs) fl rl" unfolding gl [symmetric] by (rule zinv_cursor [OF z(1)]) (rule g(2))
  have ck: "cur s = Some (fst (entry z c))" using Some z(2) by (simp add: view_def)
  have v: "view ?z (ys @ c # zs) fl = s\<lparr>cur := before (fst (entry z c)) (entries s)\<rparr>"
    using g(1) z(2) gl by (simp add: view_fields)
  have b: "before (fst (entry z c)) (entries s) = map_option (\<lambda>b. fst (entry z b)) (lastp ys None)"
    unfolding z(2) view_def lru.simps gl by (rule before_split [OF k(1,2)])
  have d: "map_of (entries s) (fst (entry z c)) = Some (snd (entry z c))"
    using split_entries(3) [OF k(1,2)] unfolding z(2) gl view_def by simp
  have "dlseg (GN z) (GP z) (ghead z) None (ys @ c # zs) None"
    using z(1) unfolding zinv_def lists_ok_def ginv_def gl by blast
  note h = dlseg_entry_ptr [OF this] and m = dlseg_middle(1) [OF this]
  show ?thesis
  proof (cases "ys = []")
    case True
    then have t: "zhash_touch z = (False, ?z)" using Some h by (simp add: zhash_touch_def)
    have "before (fst (entry z c)) (entries s) = None" using b True by simp
    then have l: "lru_step Touch s = (Done False, s\<lparr>cur := before (fst (entry z c)) (entries s)\<rparr>)" using ck by simp
    show ?thesis unfolding t l using reprI [OF i v [symmetric]] z(3) gl by simp
  next
    case False
    let ?z' = "glink_node c (gunlink_node c ?z)"
    have hd: "Some c \<noteq> ghead ?z" using False h k(2) by (cases ys) auto
    then have t: "zhash_touch z = (True, ?z')" using Some by (simp add: zhash_touch_def Let_def)
    have bn: "before (fst (entry z c)) (entries s) \<noteq> None" using b False by (simp add: lastp_def)
    have l: "lru_step Touch s = (Done True, lru_front (fst (entry z c)) (snd (entry z c)) (view ?z (ys @ c # zs) fl))"
      unfolding v using ck d bn by (simp add: Let_def)
    from i have ok: "lists_ok ?z (ys @ c # zs) fl" "rows_ok ?z rl" "nodes_ok ?z (set (ys @ c # zs)) rl"
      "zcount ?z = of_nat (length (ys @ c # zs))" unfolding zinv_def by blast+
    note f = gfront [OF ok(1)]
    have st: "set (c # ys @ zs) = set (ys @ c # zs)" by auto
    have zc: "zcount ?z' = zcount ?z" using f(2) by (simp only: same_rows_def)
    have i': "zinv ?z' (c # ys @ zs) fl rl"
      unfolding zinv_def zc st using f(1) rows_ok_same [OF f(2) ok(2)] nodes_ok_same(1) [OF f(2) ok(3)] ok(4) by simp
    have "cursor ?z' = (if cursor ?z = Some c \<and> ys \<noteq> [] then lastp ys None else cursor ?z)" using f(3) False by simp
    from front_view [OF i entry_same(1) [OF f(2)] this]
    have "view ?z' (c # ys @ zs) fl = lru_front (fst (entry z c)) (snd (entry z c)) (view ?z (ys @ c # zs) fl)" by simp
    then show ?thesis unfolding t l using reprI [OF i' _ ] z(3) gl by simp
  qed
qed

lemma zhash_remove_cursor_repr:
  assumes "repr z A s"
  shows "map_prod Done id (zhash_remove_cursor z) = (fst (lru_step RemoveCursor s), snd (zhash_remove_cursor z)) \<and>
    repr (snd (zhash_remove_cursor z)) A (snd (lru_step RemoveCursor s))"
proof -
  from assms obtain gl fl rl where z: "zinv z gl fl rl" "s = view z gl fl" "A = mset (gl @ fl)" by (rule reprE)
  let ?z = "z\<lparr>cursor := None\<rparr>"
  have i: "zinv ?z gl fl rl" by (rule zinv_cursor [OF z(1)]) simp
  have v: "view ?z gl fl = s\<lparr>cur := None\<rparr>" unfolding view_fields z(2) by simp
  show ?thesis
  proof (cases "cursor z")
    case None
    then have n: "cur s = None" using z(2) by (simp add: view_def)
    then have "s = view ?z gl fl" unfolding v by (cases s) simp
    from reprI [OF i this z(3)] None n show ?thesis by (simp add: zhash_remove_cursor_def remove_node_def)
  next
    case (Some c)
    from zinv_keys(3) [OF z(1) Some] obtain ys zs where gl: "gl = ys @ c # zs" by (auto dest: split_list)
    note k = zinv_keys [OF z(1), unfolded gl]
    note i' = i [unfolded gl]
    from remove_node_zinv [OF i'] obtain z' rl' where r: "remove_node (Some c) ?z = (True, z')"
      "zinv z' (ys @ zs) (c # fl) rl'" "entry z' = entry ?z"
      "cursor z' = (if cursor ?z = Some c then lastp ys None else cursor ?z)" by blast
    have "map_of (entries s) (fst (entry z c)) = Some (snd (entry z c))"
      using split_entries(3) [OF k(1,2)] unfolding z(2) gl view_def by simp
    moreover have "cur s = Some (fst (entry z c))" using Some z(2) by (simp add: view_def)
    ultimately have "lru_step RemoveCursor s = (Done True, lru_drop (fst (entry z c)) (snd (entry z c)) (s\<lparr>cur := None\<rparr>))"
      by simp
    moreover have "view z' (ys @ zs) (c # fl) = lru_drop (fst (entry z c)) (snd (entry z c)) (s\<lparr>cur := None\<rparr>)"
      using drop_view [OF i' r(3,4)] v gl by simp
    moreover have "A = mset ((ys @ zs) @ c # fl)" using z(3) gl by simp
    ultimately show ?thesis using reprI [OF r(2)] r(1) Some by (simp add: zhash_remove_cursor_def)
  qed
qed

section \<open>Runs\<close>

definition zrel :: "('k, 'd) zsys \<Rightarrow> ('k, 'd) lru \<Rightarrow> bool" where
  "zrel c s \<longleftrightarrow> (\<exists>A. repr (tab c) A s \<and> distinct (news c) \<and> mset (news c) = A + mset (deletes c))"

lemma zrelI: "repr (tab c) A s \<Longrightarrow> distinct (news c) \<Longrightarrow> mset (news c) = A + mset (deletes c) \<Longrightarrow> zrel c s"
  unfolding zrel_def by blast

lemma zstep_zrel:
  assumes "zrel c s" and "fresh_op x c"
  shows "\<exists>c'. zstep x c = Some (fst (lru_step x s), c') \<and> zrel c' (snd (lru_step x s))"
proof -
  from assms(1) obtain A where r: "repr (tab c) A s" "distinct (news c)" "mset (news c) = A + mset (deletes c)"
    unfolding zrel_def by blast
  have keep: "zrel (c\<lparr>tab := z'\<rparr>) s'" if "repr z' A s'" for z' s' using that r(2,3) by (intro zrelI) simp_all
  show ?thesis
  proof (cases x)
    case (Push a d)
    with assms(2) have "a \<notin> set (news c)" by simp
    then have "a \<notin># A" using r(3) by (metis set_mset_mset union_iff)
    from zhash_push_repr [OF r(1) this, of d] \<open>a \<notin> set (news c)\<close> r(2,3) Push show ?thesis
      by (auto intro!: zrelI)
  next
    case Pop
    note p = zhash_pop_repr [OF r(1)]
    let ?c = "c\<lparr>deletes := (case fhead (tab c) of Some a \<Rightarrow> a # deletes c | None \<Rightarrow> deletes c), tab := snd (zhash_pop (tab c))\<rparr>"
    have "zrel ?c (snd (lru_step Pop s))"
    proof (rule zrelI)
      show "repr (tab ?c) (case fhead (tab c) of Some a \<Rightarrow> A - {#a#} | None \<Rightarrow> A) (snd (lru_step Pop s))" using p by simp
      show "distinct (news ?c)" using r(2) by simp
      show "mset (news ?c) = (case fhead (tab c) of Some a \<Rightarrow> A - {#a#} | None \<Rightarrow> A) + mset (deletes ?c)"
        using r(3) p by (auto split: option.split)
    qed
    moreover have "zstep Pop c = Some (fst (lru_step Pop s), ?c)"
      using conjunct1 [OF p] by (simp only: zstep.simps with_tab_def fst_conv snd_conv)
    ultimately show ?thesis unfolding Pop by blast
  next
    case (Get k)
    from zhash_get_repr [OF r(1), of k] obtain d n z' where "zhash_get k (tab c) = Some (d, n, z')"
      "fst (lru_step (Get k) s) = Fetched d n" "repr z' A (snd (lru_step (Get k) s))" by blast
    with keep Get show ?thesis by (auto simp: with_tab_def simp del: lru_step.simps)
  next
    case (Find k)
    from zhash_find_repr [OF r(1), of k] keep Find show ?thesis by (auto simp: with_tab_def simp del: lru_step.simps)
  next
    case First
    from zhash_first_repr [OF r(1)] keep First show ?thesis by (simp add: with_tab_def del: lru_step.simps)
  next
    case Next
    from zhash_next_repr [OF r(1)] keep Next show ?thesis by (simp add: with_tab_def del: lru_step.simps)
  next
    case Current
    from r(1) have "zhash_current (tab c) = lru_data s" by (auto elim!: reprE simp: current_view)
    with assms(1) Current show ?thesis by simp
  next
    case Touch
    from zhash_touch_repr [OF r(1)] keep Touch show ?thesis by (simp add: with_tab_def del: lru_step.simps)
  next
    case RemoveCursor
    from zhash_remove_cursor_repr [OF r(1)] keep RemoveCursor show ?thesis
      by (simp add: with_tab_def del: lru_step.simps)
  next
    case (Remove k)
    from zhash_remove_repr [OF r(1), of k] keep Remove show ?thesis
      by (auto simp: with_tab_def simp del: lru_step.simps)
  next
    case Count
    from r(1) have "zcount (tab c) = of_nat (length (entries s))" by (auto elim!: reprE simp: zinv_def view_def)
    with assms(1) Count show ?thesis by simp
  qed
qed

interpretation lru: simulation zstep lru_step zrel fresh_op
  by unfold_locales (rule zstep_zrel)

text \<open>The empty table.\<close>

definition zsys_new :: "int \<Rightarrow> ('k \<Rightarrow> u32) \<Rightarrow> (nat \<Rightarrow> ('k, 'd) znode) \<Rightarrow> ('k, 'd) zsys" where
  "zsys_new rows hf mem = \<lparr>tab = zhash_new rows hf mem, news = [], deletes = []\<rparr>"

lemma zhash_new_nrows:
  assumes "rows \<noteq> 0" and "\<bar>rows\<bar> \<le> 2 ^ 30"
  shows "0 < nrows (zhash_new rows hf mem)" "nrows (zhash_new rows hf mem) < 2 ^ 32"
proof -
  let ?n = "if rows > 0 then nearest_powerof2 rows else - rows"
  have "0 < ?n \<and> ?n < 2 ^ 32"
  proof (cases "1 < rows")
    case True
    with assms(2) nearest_powerof2_ivl obtain k where k: "k < 30" "nearest_powerof2 rows = 2 ^ Suc k" by auto
    have "(2 :: int) ^ Suc k < 2 ^ 32" using k(1) by (intro power_strict_increasing) simp_all
    with k(2) True show ?thesis by simp
  next
    case False
    have "nearest_powerof2 1 = 1" by (simp add: nearest_powerof2_def)
    with False assms show ?thesis by (cases "rows = 1") auto
  qed
  then show "0 < nrows (zhash_new rows hf mem)" "nrows (zhash_new rows hf mem) < 2 ^ 32"
    by (auto simp: zhash_new_def Let_def)
qed

lemma zsys_new_zrel:
  assumes "rows \<noteq> 0" and "\<bar>rows\<bar> \<le> 2 ^ 30"
  shows "zrel (zsys_new rows hf mem) lru_empty"
proof -
  let ?z = "zhash_new rows hf mem"
  have "length (table ?z) = nrows ?z" "\<And>i. i < nrows ?z \<Longrightarrow> table ?z ! i = None" "ghead ?z = None" "gtail ?z = None"
    "fhead ?z = None" "cursor ?z = None" "zcount ?z = 0" by (simp_all add: zhash_new_def Let_def)
  with zhash_new_nrows [OF assms, of hf mem] have "zinv ?z [] [] (\<lambda>_. [])"
    by (simp add: zinv_def lists_ok_def ginv_def rows_ok_def nodes_ok_def)
  moreover have "lru_empty = view ?z [] []" by (simp add: lru_empty_def view_def zhash_new_def Let_def)
  ultimately have "repr ?z {#} lru_empty" by (rule reprI) simp
  then show ?thesis by (intro zrelI [of _ "{#}"]) (simp_all add: zsys_new_def)
qed

lemma zstep_news: "zstep x c = Some (r, c') \<Longrightarrow> news c' = rev (push_addrs [x]) @ news c"
  by (cases x) (auto simp: push_addrs_def with_tab_def)

lemma run_news: "run zstep ops c = Some (rs, c') \<Longrightarrow> news c' = rev (push_addrs ops) @ news c"
proof (induction ops arbitrary: c rs)
  case (Cons x ops)
  then obtain r c1 rs1 where s: "zstep x c = Some (r, c1)" "run zstep ops c1 = Some (rs1, c')"
    by (auto split: option.splits)
  from Cons.IH [OF s(2)] zstep_news [OF s(1)] show ?case by (simp add: push_addrs_def)
qed (simp add: push_addrs_def)

lemma allowed_fresh: "distinct (push_addrs ops @ news c) \<Longrightarrow> allowed zstep fresh_op ops c"
proof (induction ops arbitrary: c)
  case (Cons x ops)
  have p: "push_addrs (x # ops) = push_addrs [x] @ push_addrs ops" by (simp add: push_addrs_def)
  have "fresh_op x c" using Cons.prems by (cases x) (auto simp: push_addrs_def)
  moreover have "allowed zstep fresh_op ops c'" if "zstep x c = Some (r, c')" for r c'
    using Cons.prems unfolding p by (intro Cons.IH) (auto simp: zstep_news [OF that])
  ultimately show ?case by (auto split: option.split)
qed simp

lemmas zhash_run = lru.run_sim [OF zsys_new_zrel allowed_fresh]

section \<open>The destructor\<close>

lemma delete_row_list: "dlseg (RN z) q p pv xs None \<Longrightarrow> delete_row z p = Some xs"
proof (induction xs arbitrary: p pv)
  case (Cons a xs)
  then have p: "p = Some a" "dlseg (RN z) q (RN z a) (Some a) xs None" by simp_all
  show ?case using Cons.IH [OF p(2)] unfolding p(1) by (subst delete_row.simps) simp
qed (simp add: delete_row.simps)

lemma delete_free_list_list: "slseg (GN z) p xs \<Longrightarrow> delete_free_list z p = Some xs"
proof (induction xs arbitrary: p)
  case (Cons a xs)
  then have p: "p = Some a" "slseg (GN z) (GN z a) xs" by simp_all
  show ?case using Cons.IH [OF p(2)] unfolding p(1) by (subst delete_free_list.simps) simp
qed (simp add: delete_free_list.simps)

lemma those_map_Some: "(\<And>x. x \<in> set xs \<Longrightarrow> f x = Some (g x)) \<Longrightarrow> those (map f xs) = Some (map g xs)"
  by (induction xs) auto

lemma distinct_concat_rows:
  assumes "rows_ok z rl"
  shows "n \<le> nrows z \<Longrightarrow> distinct (concat (map rl [0..<n]))"
proof (induction n)
  case (Suc n)
  have "x \<notin> set (rl n)" if "i < n" "x \<in> set (rl i)" for i x
    using rows_okD(4) [OF assms, of i n] that Suc.prems by auto
  with Suc rows_okD(2) [OF assms, of n] show ?case by auto
qed simp

lemma zhash_delete_repr:
  assumes "repr z A s"
  shows "\<exists>fs. zhash_delete z = Some fs \<and> mset fs = A"
proof -
  from assms obtain gl fl rl where z: "zinv z gl fl rl" "A = mset (gl @ fl)" by (rule reprE)
  from z(1) have ok: "rows_ok z rl" "nodes_ok z (set gl) rl" "slseg (GN z) (fhead z) fl" "distinct gl"
    unfolding zinv_def lists_ok_def ginv_def by blast+
  have len: "length (table z) = nrows z" using ok(1) by (simp add: rows_ok_def)
  have "those (map (\<lambda>i. delete_row z (table z ! i)) [0..<nrows z]) = Some (map rl [0..<nrows z])"
    by (rule those_map_Some) (auto intro: delete_row_list rows_okD(1) [OF ok(1)])
  moreover have "map (\<lambda>i. delete_row z (table z ! i)) [0..<nrows z] = map (delete_row z) (table z)"
    using len by (intro nth_equalityI) simp_all
  ultimately have d: "zhash_delete z = Some (concat (map rl [0..<nrows z]) @ fl)"
    unfolding zhash_delete_def by (simp add: delete_free_list_list [OF ok(3)])
  have "set (concat (map rl [0..<nrows z])) = set gl"
  proof
    show "set (concat (map rl [0..<nrows z])) \<subseteq> set gl" using ok(2) unfolding nodes_ok_def by auto
    show "set gl \<subseteq> set (concat (map rl [0..<nrows z]))"
    proof
      fix a assume "a \<in> set gl"
      from nodes_okD(1,2) [OF ok(2) this] show "a \<in> set (concat (map rl [0..<nrows z]))" by auto
    qed
  qed
  then have "mset (concat (map rl [0..<nrows z])) = mset gl"
    using set_eq_iff_mset_eq_distinct [OF distinct_concat_rows [OF ok(1) le_refl] ok(4)] by simp
  with d z(2) show ?thesis by simp
qed

section \<open>Properties\<close>

text \<open>
  C32. The hash table is a least-recently-used map. On a table with at least one row, every sequence of operations
  whose new nodes get addresses of their own returns, in particular no walk along a row runs forever, and every answer
  (data, whether a node is new, success, count) is that of the list of entries in order of use with its cursor.
\<close>

theorem zhash_refines_lru:
  assumes "rows \<noteq> 0" and "\<bar>rows\<bar> \<le> 2 ^ 30" and "distinct (push_addrs ops)"
  shows "map_option fst (run zstep ops (zsys_new rows hf mem)) = Some (fst (spec_run lru_step ops lru_empty))"
proof -
  from assms(3) have "distinct (push_addrs ops @ news (zsys_new rows hf mem))" by (simp add: zsys_new_def)
  from zhash_run [OF assms(1,2) this] show ?thesis by auto
qed

theorem zhash_refines_lru_witness:
  "map_option fst (run zstep [Push 7 (10 :: nat), Push 8 11, Get (1 :: nat), Get 2, Find 1, First, Touch, Remove 2, Count]
      (zsys_new 4 of_nat (\<lambda>_. undefined))) =
    Some [Unit, Unit, Fetched (Some 11) True, Fetched (Some 10) True, Data (Some 11), Data (Some 10), Done True,
      Done True, Total 1]"
proof -
  have "(4 :: int) \<noteq> 0" "\<bar>4 :: int\<bar> \<le> 2 ^ 30"
    "distinct (push_addrs [Push 7 (10 :: nat), Push 8 11, Get (1 :: nat), Get 2, Find 1, First, Touch, Remove 2, Count])"
    by (simp_all add: push_addrs_def)
  from zhash_refines_lru [OF this, of of_nat "\<lambda>_. undefined"] show ?thesis
    by (simp add: lru_empty_def lru_front_def lru_drop_def before_def lru_data_def Let_def)
qed

text \<open>
  C34. Nodes are deleted once. After every such sequence of operations the destructor returns, and the nodes that
  \<^verbatim>\<open>pop\<close> has deleted and those that the destructor deletes, from the rows and the free list, are together the nodes
  that \<^verbatim>\<open>push\<close> allocated, each exactly once.
\<close>

theorem zhash_deletes_once:
  assumes "rows \<noteq> 0" and "\<bar>rows\<bar> \<le> 2 ^ 30" and "distinct (push_addrs ops)"
  shows "\<exists>rs c fs. run zstep ops (zsys_new rows hf mem) = Some (rs, c) \<and> zhash_delete (tab c) = Some fs \<and>
    mset (deletes c @ fs) = mset (push_addrs ops)"
proof -
  from assms(3) have "distinct (push_addrs ops @ news (zsys_new rows hf mem))" by (simp add: zsys_new_def)
  from zhash_run [OF assms(1,2) this] obtain rs c s where r: "run zstep ops (zsys_new rows hf mem) = Some (rs, c)"
    and z: "zrel c s" by auto
  from z obtain A where a: "repr (tab c) A s" "mset (news c) = A + mset (deletes c)" unfolding zrel_def by blast
  from zhash_delete_repr [OF a(1)] obtain fs where f: "zhash_delete (tab c) = Some fs" "mset fs = A" by blast
  from run_news [OF r] have "mset (news c) = mset (push_addrs ops)" by (simp add: zsys_new_def)
  with a(2) f(2) have "mset (deletes c @ fs) = mset (push_addrs ops)" by simp
  with r f(1) show ?thesis by blast
qed

theorem zhash_deletes_once_witness:
  "\<exists>rs c fs. run zstep [Push 7 (0 :: nat), Push 8 1, Get (1 :: nat), Pop, Push 9 2] (zsys_new (- 2) of_nat (\<lambda>_. undefined)) = Some (rs, c) \<and>
    zhash_delete (tab c) = Some fs \<and> mset (deletes c @ fs) = {#7, 8, 9#}"
proof -
  have "(- 2 :: int) \<noteq> 0" "\<bar>- 2 :: int\<bar> \<le> 2 ^ 30"
    "distinct (push_addrs [Push 7 (0 :: nat), Push 8 1, Get (1 :: nat), Pop, Push 9 2])"
    by (simp_all add: push_addrs_def)
  moreover have "mset (push_addrs [Push 7 (0 :: nat), Push 8 1, Get (1 :: nat), Pop, Push 9 2]) = {#7, 8, 9#}"
    by (simp add: push_addrs_def)
  ultimately show ?thesis using zhash_deletes_once [of "- 2"] by metis
qed

end
