(* ===== verification/Http_Cutter.thy ===== *)
theory Http_Cutter
  imports Snort_Prelude
begin

text \<open>
  The message cutters of the HTTP inspector, \<^verbatim>\<open>service_inspectors/http_inspect/http_cutter.cc\<close>: they find the end of the
  next message section in a stream that arrives in segments. A cutter is a record that extends the base class; the
  infraction and event bit sets are sets. \<^verbatim>\<open>scan\<close> passes at most \<open>MAX_OCTETS - octets_seen\<close> octets, so the octet
  counters stay below \<open>MAX_OCTETS\<close> and are natural numbers; the chunk size and the data counter of chunked bodies,
  which can wrap, are 32-bit words.
\<close>

section \<open>Character tables\<close>

definition as_hex :: "u8 \<Rightarrow> int" where
  "as_hex c = (if 48 \<le> c \<and> c \<le> 57 then uint c - 48
     else if 65 \<le> c \<and> c \<le> 70 then uint c - 55
     else if 97 \<le> c \<and> c \<le> 102 then uint c - 87 else - 1)"

definition token_char :: "u8 \<Rightarrow> bool" where
  "token_char c \<longleftrightarrow> c \<in> {33, 35, 36, 37, 38, 39, 42, 43, 45, 46, 94, 95, 96, 124, 126} \<or>
     48 \<le> c \<and> c \<le> 57 \<or> 65 \<le> c \<and> c \<le> 90 \<or> 97 \<le> c \<and> c \<le> 122"

definition is_sp_tab :: "u8 \<Rightarrow> bool" where "is_sp_tab c \<longleftrightarrow> c = 32 \<or> c = 9"

definition is_cr_lf :: "u8 \<Rightarrow> bool" where "is_cr_lf c \<longleftrightarrow> c = 13 \<or> c = 10"

definition is_sp_tab_cr_lf :: "u8 \<Rightarrow> bool" where
  "is_sp_tab_cr_lf c \<longleftrightarrow> c = 32 \<or> c = 9 \<or> c = 13 \<or> c = 10"

definition is_sp_tab_cr_lf_vt_ff :: "u8 \<Rightarrow> bool" where
  "is_sp_tab_cr_lf_vt_ff c \<longleftrightarrow> c = 32 \<or> c = 9 \<or> c = 10 \<or> c = 11 \<or> c = 12 \<or> c = 13"

section \<open>Results, infractions and events\<close>

definition MAX_OCTETS :: nat where "MAX_OCTETS = 63780"
definition MAX_SECTION_STRETCH :: nat where "MAX_SECTION_STRETCH = 1460"

datatype scan_result =
  SCAN_NOT_FOUND | SCAN_FOUND | SCAN_FOUND_PIECE | SCAN_DISCARD | SCAN_DISCARD_PIECE | SCAN_ABORT

datatype infraction =
    INF_WS_BETWEEN_MSGS | INF_TOO_MUCH_LEADING_WS | INF_NOT_HTTP | INF_LF_WITHOUT_CR | INF_CR_WITHOUT_LF
  | INF_VERSION_NOT_UPPERCASE | INF_CHUNK_BAD_SEP | INF_CHUNK_LEADING_WS | INF_CHUNK_ZEROS | INF_CHUNK_BARE_LF
  | INF_CHUNK_WHITESPACE | INF_CHUNK_OPTIONS | INF_CHUNK_BAD_CHAR | INF_CHUNK_TOO_LARGE | INF_CHUNK_LONE_CR
  | INF_CHUNK_NO_LENGTH | INF_CHUNK_BAD_END | INF_ENDLESS_HEADER | INF_PARTIAL_START | INF_GZIP_OVERRUN
  | INF_GZIP_FAILURE | INF_GZIP_EARLY_END

datatype http_event =
    EVENT_WS_BETWEEN_MSGS | EVENT_MISFORMATTED_HTTP | EVENT_LOSS_OF_SYNC | EVENT_LF_WITHOUT_CR | EVENT_CR_WITHOUT_LF
  | EVENT_VERSION_NOT_UPPERCASE | EVENT_CHUNK_BAD_SEP | EVENT_CHUNK_WHITESPACE | EVENT_BROKEN_CHUNK
  | EVENT_CHUNK_ZEROS | EVENT_CHUNK_BARE_LF | EVENT_CHUNK_OPTIONS | EVENT_GZIP_OVERRUN | EVENT_GZIP_FAILURE
  | EVENT_GZIP_EARLY_END

record http_log =
  infractions :: "infraction set"
  events :: "http_event set"

definition infraction :: "infraction \<Rightarrow> http_log \<Rightarrow> http_log" where
  "infraction i lg = lg\<lparr>infractions := insert i (infractions lg)\<rparr>"

definition create_event :: "http_event \<Rightarrow> http_log \<Rightarrow> http_log" where
  "create_event e lg = lg\<lparr>events := insert e (events lg)\<rparr>"

text \<open>\<^verbatim>\<open>SnortStrnStr\<close> for the pattern \<^verbatim>\<open>HTTP/\<close>.\<close>

definition http_slash :: bytes where "http_slash = [72, 84, 84, 80, 47]"

fun contains :: "bytes \<Rightarrow> bytes \<Rightarrow> bool" where
  "contains pat [] \<longleftrightarrow> pat = []"
| "contains pat (c # cs) \<longleftrightarrow> take (length pat) (c # cs) = pat \<or> contains pat cs"

definition generate_misformatted_http :: "bytes \<Rightarrow> http_log \<Rightarrow> http_log" where
  "generate_misformatted_http buffer lg =
     create_event (if contains http_slash buffer then EVENT_MISFORMATTED_HTTP else EVENT_LOSS_OF_SYNC) lg"

text \<open>What one turn of a cutter's loop does: return, or go on after some octets (\<open>0\<close>: look at the same octet again).\<close>

datatype 's turn = Return scan_result 's | Go nat 's

fun scan_octets :: "(nat \<Rightarrow> u8 \<Rightarrow> 's \<Rightarrow> 's turn) \<Rightarrow> nat \<Rightarrow> bytes \<Rightarrow> 's \<Rightarrow> scan_result \<times> 's" where
  "scan_octets turn k [] s = (SCAN_NOT_FOUND, s)"
| "scan_octets turn k (c # cs) s =
     (case turn k c s of Return r s' \<Rightarrow> (r, s') | Go n s' \<Rightarrow> scan_octets turn (Suc k) cs s')"

text \<open>What follows a loop that did not return.\<close>

definition at_end :: "scan_result \<times> 's \<Rightarrow> ('s \<Rightarrow> scan_result \<times> 's) \<Rightarrow> scan_result \<times> 's" where
  "at_end p f = (if fst p = SCAN_NOT_FOUND then f (snd p) else p)"

section \<open>Cutters\<close>

record http_cutter =
  octets_seen :: nat
  num_crlf :: nat
  num_flush :: nat

subsection \<open>Start lines\<close>

datatype start_kind = Request | Status

datatype validation_result = V_GOOD | V_BAD | V_TBD

record start_cutter = http_cutter +
  validated :: bool
  octets_checked :: nat

definition MAX_LEADING_WHITESPACE :: nat where "MAX_LEADING_WHITESPACE = 20"

definition request_validate :: "u8 \<Rightarrow> start_cutter \<Rightarrow> validation_result \<times> start_cutter" where
  "request_validate octet s =
     (if octet = 32 \<or> octet = 9 then (V_GOOD, s)
      else if \<not> token_char octet then (V_BAD, s)
      else let s' = s\<lparr>octets_checked := octets_checked s + 1\<rparr>
           in (if octets_checked s' > 80 then V_BAD else V_TBD, s'))"

definition status_validate :: "u8 \<Rightarrow> start_cutter \<Rightarrow> http_log \<Rightarrow> validation_result \<times> start_cutter \<times> http_log" where
  "status_validate octet s lg =
     (let primary = [72, 84, 84, 80, 47]; secondary = [104, 116, 116, 112, 47];
          upper = (octet = primary ! octets_checked s); lower = (octet = secondary ! octets_checked s);
          lg' = (if \<not> upper \<and> lower then create_event EVENT_VERSION_NOT_UPPERCASE (infraction INF_VERSION_NOT_UPPERCASE lg)
                 else lg)
      in if \<not> upper \<and> \<not> lower then (V_BAD, s, lg)
         else let s' = s\<lparr>octets_checked := octets_checked s + 1\<rparr>
              in (if octets_checked s' \<ge> 5 then V_GOOD else V_TBD, s', lg'))"

definition validate :: "start_kind \<Rightarrow> u8 \<Rightarrow> start_cutter \<Rightarrow> http_log \<Rightarrow> validation_result \<times> start_cutter \<times> http_log" where
  "validate kind octet s lg =
     (case kind of
        Request \<Rightarrow> (case request_validate octet s of (v, s') \<Rightarrow> (v, s', lg))
      | Status \<Rightarrow> status_validate octet s lg)"

text \<open>The part of the loop body after the leading white space.\<close>

definition start_line_octet :: "start_kind \<Rightarrow> bytes \<Rightarrow> nat \<Rightarrow> u8 \<Rightarrow> start_cutter \<times> http_log \<Rightarrow> (start_cutter \<times> http_log) turn" where
  "start_line_octet kind buffer k c = (\<lambda>(s0, lg0).
     case (if validated s0 then (V_TBD, s0, lg0) else validate kind c s0 lg0) of
       (V_BAD, s, lg) \<Rightarrow> Return SCAN_ABORT (s, generate_misformatted_http buffer (infraction INF_NOT_HTTP lg))
     | (v, s1, lg) \<Rightarrow>
         (let s = (if v = V_GOOD then s1\<lparr>validated := True\<rparr> else s1)
          in if c = 10 then
               Return SCAN_FOUND (s\<lparr>num_crlf := num_crlf s + 1, num_flush := k + 1\<rparr>,
                 if num_crlf s + 1 = 1 then create_event EVENT_LF_WITHOUT_CR (infraction INF_LF_WITHOUT_CR lg) else lg)
             else if num_crlf s = 1 then
               Return SCAN_FOUND (s\<lparr>num_flush := k\<rparr>, create_event EVENT_CR_WITHOUT_LF (infraction INF_CR_WITHOUT_LF lg))
             else if c = 13 then Go 1 (s\<lparr>num_crlf := 1\<rparr>, lg)
             else Go 1 (s, lg)))"

definition start_octet :: "start_kind \<Rightarrow> bytes \<Rightarrow> nat \<Rightarrow> u8 \<Rightarrow> start_cutter \<times> http_log \<Rightarrow> (start_cutter \<times> http_log) turn" where
  "start_octet kind buffer k c = (\<lambda>(s, lg).
     if num_crlf s = octets_seen s + k then
       (if is_sp_tab_cr_lf_vt_ff c then
          (let lg1 = (if is_cr_lf c then lg else create_event EVENT_WS_BETWEEN_MSGS (infraction INF_WS_BETWEEN_MSGS lg))
           in if num_crlf s < MAX_LEADING_WHITESPACE then Go 1 (s\<lparr>num_crlf := num_crlf s + 1\<rparr>, lg1)
              else Return SCAN_ABORT (s, generate_misformatted_http buffer (infraction INF_TOO_MUCH_LEADING_WS lg1)))
        else if num_crlf s > 0 then Return SCAN_DISCARD (s\<lparr>num_flush := k\<rparr>, lg)
        else start_line_octet kind buffer k c (s, lg))
     else start_line_octet kind buffer k c (s, lg))"

definition add_octets :: "nat \<Rightarrow> 'a http_cutter_scheme \<Rightarrow> 'a http_cutter_scheme" where
  "add_octets n s = s\<lparr>octets_seen := octets_seen s + n\<rparr>"

definition start_cut :: "start_kind \<Rightarrow> bytes \<Rightarrow> start_cutter \<times> http_log \<Rightarrow> scan_result \<times> start_cutter \<times> http_log" where
  "start_cut kind buffer x =
     at_end (scan_octets (start_octet kind buffer) 0 buffer x)
       (\<lambda>(s, lg). (SCAN_NOT_FOUND, add_octets (length buffer) s, lg))"

definition start_new :: start_cutter where
  "start_new = \<lparr>octets_seen = 0, num_crlf = 0, num_flush = 0, validated = False, octets_checked = 0\<rparr>"

subsection \<open>Headers\<close>

datatype line_end_state = ZERO | HALF | ONE | THREEHALF

record header_cutter = http_cutter +
  hstate :: line_end_state
  num_head_lines :: nat

definition lf_without_cr :: "http_log \<Rightarrow> http_log" where
  "lf_without_cr lg = create_event EVENT_LF_WITHOUT_CR (infraction INF_LF_WITHOUT_CR lg)"

definition cr_without_lf :: "http_log \<Rightarrow> http_log" where
  "cr_without_lf lg = create_event EVENT_CR_WITHOUT_LF (infraction INF_CR_WITHOUT_LF lg)"

definition header_octet :: "nat \<Rightarrow> u8 \<Rightarrow> header_cutter \<times> http_log \<Rightarrow> (header_cutter \<times> http_log) turn" where
  "header_octet k c = (\<lambda>(s, lg).
     let crlf = s\<lparr>num_crlf := num_crlf s + 1\<rparr>;
         line = s\<lparr>hstate := ZERO, num_crlf := 0, num_head_lines := num_head_lines s + 1\<rparr>
     in case hstate s of
          ZERO \<Rightarrow>
            (if c = 13 then Go 1 (crlf\<lparr>hstate := HALF\<rparr>, lg)
             else if c = 10 then Go 1 (crlf\<lparr>hstate := ONE\<rparr>, lf_without_cr lg)
             else Go 1 (s, lg))
        | HALF \<Rightarrow>
            (if c = 13 then Go 1 (crlf\<lparr>hstate := THREEHALF\<rparr>, cr_without_lf lg)
             else if c = 10 then Go 1 (crlf\<lparr>hstate := ONE\<rparr>, lg)
             else Go 1 (line, cr_without_lf lg))
        | ONE \<Rightarrow>
            (if c = 13 then Go 1 (crlf\<lparr>hstate := THREEHALF\<rparr>, lg)
             else if c = 10 then Return SCAN_FOUND (crlf\<lparr>num_flush := k + 1\<rparr>, lf_without_cr lg)
             else Go 1 (line, lg))
        | THREEHALF \<Rightarrow>
            (if c = 13 then Go 1 (crlf, cr_without_lf lg)
             else if c = 10 then Return SCAN_FOUND (crlf\<lparr>num_flush := k + 1\<rparr>, lg)
             else Go 1 (line, cr_without_lf lg)))"

definition header_cut :: "bytes \<Rightarrow> header_cutter \<times> http_log \<Rightarrow> scan_result \<times> header_cutter \<times> http_log" where
  "header_cut buffer x =
     at_end (scan_octets header_octet 0 buffer x)
       (\<lambda>(s, lg). (SCAN_NOT_FOUND, add_octets (length buffer) s, lg))"

definition header_new :: header_cutter where
  "header_new = \<lparr>octets_seen = 0, num_crlf = 0, num_flush = 0, hstate = ONE, num_head_lines = 0\<rparr>"

subsection \<open>Bodies with a content length and bodies that run to the end of the connection\<close>

record cl_cutter = http_cutter +
  remaining :: nat

definition cl_cut :: "nat \<Rightarrow> bool \<Rightarrow> bytes \<Rightarrow> cl_cutter \<Rightarrow> scan_result \<times> cl_cutter" where
  "cl_cut flow_target0 stretch0 buffer s =
     (let len = length buffer in
      if flow_target0 = 0 then
        (if remaining s \<le> len then (SCAN_DISCARD, s\<lparr>num_flush := remaining s, remaining := 0\<rparr>)
         else (SCAN_DISCARD_PIECE, s\<lparr>num_flush := len, remaining := remaining s - len\<rparr>))
      else
        (let flow_target = (if remaining s \<le> flow_target0 then remaining s else flow_target0);
             stretch = (if remaining s \<le> flow_target0 then False else stretch0)
         in if \<not> stretch then
              (if flow_target < remaining s then
                 (SCAN_FOUND_PIECE, s\<lparr>num_flush := flow_target, remaining := remaining s - flow_target\<rparr>)
               else (SCAN_FOUND, s\<lparr>num_flush := flow_target, remaining := 0\<rparr>))
            else if octets_seen s + len < flow_target then (SCAN_NOT_FOUND, add_octets len s)
            else if octets_seen s + len < remaining s then
              (let n = (if octets_seen s + len \<le> flow_target + MAX_SECTION_STRETCH then len
                        else flow_target - octets_seen s)
               in (SCAN_FOUND_PIECE, s\<lparr>num_flush := n, remaining := remaining s - (octets_seen s + n)\<rparr>))
            else if remaining s - flow_target \<le> MAX_SECTION_STRETCH then
              (SCAN_FOUND, s\<lparr>num_flush := remaining s - octets_seen s, remaining := 0\<rparr>)
            else (SCAN_FOUND_PIECE, s\<lparr>num_flush := flow_target - octets_seen s, remaining := remaining s - flow_target\<rparr>)))"

definition cl_new :: "nat \<Rightarrow> cl_cutter" where
  "cl_new n = \<lparr>octets_seen = 0, num_crlf = 0, num_flush = 0, remaining = n\<rparr>"

definition old_cut :: "nat \<Rightarrow> bool \<Rightarrow> bytes \<Rightarrow> http_cutter \<Rightarrow> scan_result \<times> http_cutter" where
  "old_cut flow_target stretch buffer s =
     (let len = length buffer in
      if flow_target = 0 then (SCAN_DISCARD_PIECE, s\<lparr>num_flush := len\<rparr>)
      else if octets_seen s + len < flow_target then (SCAN_NOT_FOUND, add_octets len s)
      else if stretch \<and> octets_seen s + len \<le> flow_target + MAX_SECTION_STRETCH then
        (SCAN_FOUND_PIECE, s\<lparr>num_flush := len\<rparr>)
      else (SCAN_FOUND_PIECE, s\<lparr>num_flush := flow_target - octets_seen s\<rparr>))"

definition soft_reset :: "'a http_cutter_scheme \<Rightarrow> 'a http_cutter_scheme" where
  "soft_reset s = s\<lparr>octets_seen := 0\<rparr>"

subsection \<open>Chunked bodies\<close>

datatype chunk_state =
    CHUNK_NEWLINES | CHUNK_ZEROS | CHUNK_LEADING_WS | CHUNK_NUMBER | CHUNK_TRAILING_WS | CHUNK_OPTIONS | CHUNK_HCRLF
  | CHUNK_DATA | CHUNK_DCRLF1 | CHUNK_DCRLF2 | CHUNK_BAD

record chunk_cutter = http_cutter +
  data_seen :: u32
  curr_state :: chunk_state
  expected :: u32
  num_leading_ws :: nat
  num_zeros :: nat
  digits_seen :: nat
  num_good_chunks :: nat

definition broken :: "infraction option \<Rightarrow> chunk_cutter \<times> http_log \<Rightarrow> (chunk_cutter \<times> http_log) turn" where
  "broken i x = Go 0 ((fst x)\<lparr>curr_state := CHUNK_BAD\<rparr>,
     create_event EVENT_BROKEN_CHUNK (case i of None \<Rightarrow> snd x | Some i' \<Rightarrow> infraction i' (snd x)))"

definition chunk_event :: "infraction \<Rightarrow> http_event \<Rightarrow> http_log \<Rightarrow> http_log" where
  "chunk_event i e lg = create_event e (infraction i lg)"

definition chunk_header_turn :: "u8 \<Rightarrow> chunk_cutter \<times> http_log \<Rightarrow> (chunk_cutter \<times> http_log) turn" where
  "chunk_header_turn c = (\<lambda>(s, lg).
     case curr_state s of
       CHUNK_NEWLINES \<Rightarrow>
         (if is_cr_lf c then Go 1 (s, chunk_event INF_CHUNK_BAD_SEP EVENT_CHUNK_BAD_SEP lg)
          else Go 0 (s\<lparr>curr_state := CHUNK_LEADING_WS\<rparr>, lg))
     | CHUNK_LEADING_WS \<Rightarrow>
         (if is_sp_tab c then
            (let s' = s\<lparr>num_leading_ws := num_leading_ws s + 1\<rparr>;
                 lg' = chunk_event INF_CHUNK_LEADING_WS EVENT_CHUNK_WHITESPACE lg
             in if num_leading_ws s' = 5 then broken None (s', lg') else Go 1 (s', lg'))
          else Go 0 (s\<lparr>curr_state := CHUNK_ZEROS\<rparr>, lg))
     | CHUNK_ZEROS \<Rightarrow>
         (if c = 48 then
            (let s' = s\<lparr>num_zeros := num_zeros s + 1\<rparr>
             in Go 1 (s', if num_zeros s' = 5 then chunk_event INF_CHUNK_ZEROS EVENT_CHUNK_ZEROS lg else lg))
          else Go 0 (s\<lparr>curr_state := CHUNK_NUMBER\<rparr>, lg))
     | CHUNK_NUMBER \<Rightarrow>
         (if c = 13 then Go 1 (s\<lparr>curr_state := CHUNK_HCRLF\<rparr>, lg)
          else if c = 10 then Go 0 (s\<lparr>curr_state := CHUNK_HCRLF\<rparr>, chunk_event INF_CHUNK_BARE_LF EVENT_CHUNK_BARE_LF lg)
          else if is_sp_tab c then
            Go 1 (s\<lparr>curr_state := CHUNK_TRAILING_WS\<rparr>, chunk_event INF_CHUNK_WHITESPACE EVENT_CHUNK_WHITESPACE lg)
          else if c = 59 then
            Go 1 (s\<lparr>curr_state := CHUNK_OPTIONS\<rparr>, chunk_event INF_CHUNK_OPTIONS EVENT_CHUNK_OPTIONS lg)
          else if as_hex c = - 1 then broken (Some INF_CHUNK_BAD_CHAR) (s, lg)
          else
            (let s' = s\<lparr>expected := expected s * 16 + word_of_int (as_hex c), digits_seen := digits_seen s + 1\<rparr>
             in if digits_seen s' > 8 then broken (Some INF_CHUNK_TOO_LARGE) (s', lg) else Go 1 (s', lg)))
     | CHUNK_TRAILING_WS \<Rightarrow>
         (if c = 13 then Go 1 (s\<lparr>curr_state := CHUNK_HCRLF\<rparr>, lg)
          else if c = 10 then Go 0 (s\<lparr>curr_state := CHUNK_HCRLF\<rparr>, chunk_event INF_CHUNK_BARE_LF EVENT_CHUNK_BARE_LF lg)
          else if c = 59 then
            Go 1 (s\<lparr>curr_state := CHUNK_OPTIONS\<rparr>, chunk_event INF_CHUNK_OPTIONS EVENT_CHUNK_OPTIONS lg)
          else if \<not> is_sp_tab c then broken (Some INF_CHUNK_BAD_CHAR) (s, lg)
          else Go 1 (s, lg))
     | _ \<Rightarrow> \<comment> \<open>\<open>CHUNK_OPTIONS\<close>\<close>
         (if c = 13 then Go 1 (s\<lparr>curr_state := CHUNK_HCRLF\<rparr>, lg)
          else if c = 10 then Go 0 (s\<lparr>curr_state := CHUNK_HCRLF\<rparr>, chunk_event INF_CHUNK_BARE_LF EVENT_CHUNK_BARE_LF lg)
          else Go 1 (s, lg)))"

definition chunk_hcrlf_turn :: "bool \<Rightarrow> nat \<Rightarrow> u8 \<Rightarrow> chunk_cutter \<times> http_log \<Rightarrow> (chunk_cutter \<times> http_log) turn" where
  "chunk_hcrlf_turn discard_mode k c = (\<lambda>(s, lg).
     if c \<noteq> 10 then broken (Some INF_CHUNK_LONE_CR) (s, lg)
     else if expected s > 0 then Go 1 (s\<lparr>curr_state := CHUNK_DATA\<rparr>, lg)
     else if num_zeros s > 0 then
       Return (if \<not> discard_mode then SCAN_FOUND else SCAN_DISCARD)
         (s\<lparr>num_good_chunks := num_good_chunks s + 1, num_flush := k + 1\<rparr>, lg)
     else broken (Some INF_CHUNK_NO_LENGTH) (s, lg))"

text \<open>The octets of a chunk: \<open>left\<close> octets of the buffer are left at \<open>k\<close>.\<close>

definition chunk_data_turn ::
    "bool \<Rightarrow> u32 \<Rightarrow> nat \<Rightarrow> nat \<Rightarrow> chunk_cutter \<times> http_log \<Rightarrow> (chunk_cutter \<times> http_log) turn" where
  "chunk_data_turn discard_mode adjusted_target k left = (\<lambda>(s, lg).
     let skip0 = (if left \<le> unat (expected s) then left else unat (expected s));
         skip_amount = (if \<not> discard_mode \<and> skip0 > unat (adjusted_target - data_seen s)
                        then unat (adjusted_target - data_seen s) else skip0);
         s1 = s\<lparr>expected := expected s - of_nat skip_amount\<rparr>;
         s2 = (if expected s1 = 0 then s1\<lparr>curr_state := CHUNK_DCRLF1\<rparr> else s1);
         s3 = s2\<lparr>data_seen := data_seen s2 + of_nat skip_amount\<rparr>
     in if data_seen s3 = adjusted_target then
          Return SCAN_FOUND_PIECE (s3\<lparr>data_seen := 0, num_flush := k + skip_amount\<rparr>, lg)
        else Go skip_amount (s3, lg))"

definition chunk_dcrlf_turn :: "u8 \<Rightarrow> chunk_cutter \<times> http_log \<Rightarrow> (chunk_cutter \<times> http_log) turn" where
  "chunk_dcrlf_turn c = (\<lambda>(s, lg).
     if curr_state s = CHUNK_DCRLF1 then
       (if c = 13 then Go 1 (s\<lparr>curr_state := CHUNK_DCRLF2\<rparr>, lg)
        else if c = 10 then Go 0 (s\<lparr>curr_state := CHUNK_DCRLF2\<rparr>, chunk_event INF_CHUNK_BAD_SEP EVENT_CHUNK_BAD_SEP lg)
        else broken (Some INF_CHUNK_BAD_END) (s, lg))
     else
       (let s' = s\<lparr>num_good_chunks := num_good_chunks s + 1, num_leading_ws := 0, num_zeros := 0, expected := 0,
                   digits_seen := 0, curr_state := CHUNK_NEWLINES\<rparr>
        in if c = 10 then Go 1 (s', lg)
           else Go (if c \<noteq> 13 then 0 else 1) (s', chunk_event INF_CHUNK_BAD_SEP EVENT_CHUNK_BAD_SEP lg)))"

definition chunk_bad_turn ::
    "bool \<Rightarrow> u32 \<Rightarrow> nat \<Rightarrow> nat \<Rightarrow> chunk_cutter \<times> http_log \<Rightarrow> (chunk_cutter \<times> http_log) turn" where
  "chunk_bad_turn discard_mode adjusted_target k left = (\<lambda>(s, lg).
     if discard_mode then Return SCAN_DISCARD_PIECE (s\<lparr>num_flush := k + left\<rparr>, lg)
     else
       (let skip_amount = (if left \<le> unat (adjusted_target - data_seen s) then left
                           else unat (adjusted_target - data_seen s));
            s' = s\<lparr>data_seen := data_seen s + of_nat skip_amount\<rparr>
        in if data_seen s' = adjusted_target then
             Return SCAN_FOUND_PIECE (s'\<lparr>data_seen := 0, num_flush := k + skip_amount\<rparr>, lg)
           else Go skip_amount (s', lg)))"

definition chunk_turn ::
    "bool \<Rightarrow> u32 \<Rightarrow> nat \<Rightarrow> u8 \<Rightarrow> nat \<Rightarrow> chunk_cutter \<times> http_log \<Rightarrow> (chunk_cutter \<times> http_log) turn" where
  "chunk_turn discard_mode adjusted_target k c left x =
     (case curr_state (fst x) of
        CHUNK_HCRLF \<Rightarrow> chunk_hcrlf_turn discard_mode k c x
      | CHUNK_DATA \<Rightarrow> chunk_data_turn discard_mode adjusted_target k left x
      | CHUNK_DCRLF1 \<Rightarrow> chunk_dcrlf_turn c x
      | CHUNK_DCRLF2 \<Rightarrow> chunk_dcrlf_turn c x
      | CHUNK_BAD \<Rightarrow> chunk_bad_turn discard_mode adjusted_target k left x
      | _ \<Rightarrow> chunk_header_turn c x)"

text \<open>
  The loop runs over the rest of the buffer. A turn that looks at the same octet again moves on in the order of
  the states below, so the loop ends.
\<close>

fun chunk_rank :: "chunk_state \<Rightarrow> u32 \<Rightarrow> nat" where
  "chunk_rank CHUNK_DATA e = (if e = 0 then 9 else 0)"
| "chunk_rank CHUNK_DCRLF1 e = 8"
| "chunk_rank CHUNK_DCRLF2 e = 7"
| "chunk_rank CHUNK_NEWLINES e = 6"
| "chunk_rank CHUNK_LEADING_WS e = 5"
| "chunk_rank CHUNK_ZEROS e = 4"
| "chunk_rank CHUNK_HCRLF e = 1"
| "chunk_rank CHUNK_BAD e = 0"
| "chunk_rank _ e = 3"

lemma chunk_turn_progress:
  assumes "chunk_turn d adj k c (Suc n) x = Go m y"
  shows "m \<le> Suc n \<and>
    (m = 0 \<longrightarrow> chunk_rank (curr_state (fst y)) (expected (fst y)) < chunk_rank (curr_state (fst x)) (expected (fst x)))"
proof (cases x)
  case (Pair s lg)
  show ?thesis
    using assms unfolding Pair
    by (cases "curr_state s")
      (auto simp: chunk_turn_def chunk_header_turn_def chunk_hcrlf_turn_def chunk_data_turn_def chunk_dcrlf_turn_def
        chunk_bad_turn_def broken_def Let_def unat_eq_0 intro!: gr0I split: if_splits)
qed

function chunk_loop :: "bool \<Rightarrow> u32 \<Rightarrow> nat \<Rightarrow> bytes \<Rightarrow> chunk_cutter \<times> http_log \<Rightarrow> scan_result \<times> chunk_cutter \<times> http_log" where
  "chunk_loop d adj k [] x = (SCAN_NOT_FOUND, x)"
| "chunk_loop d adj k (c # cs) x =
     (case chunk_turn d adj k c (length (c # cs)) x of
        Return r y \<Rightarrow> (r, y)
      | Go n y \<Rightarrow> chunk_loop d adj (k + n) (drop n (c # cs)) y)"
  by pat_completeness auto

termination
proof (relation "measures [\<lambda>(d, adj, k, cs, x). length cs, \<lambda>(d, adj, k, cs, x). chunk_rank (curr_state (fst x)) (expected (fst x))]")
  fix d adj k c cs and x y :: "chunk_cutter \<times> http_log" and n
  assume "chunk_turn d adj k c (length (c # cs)) x = Go n y"
  from chunk_turn_progress [OF this [simplified]]
  show "((d, adj, k + n, drop n (c # cs), y), (d, adj, k, c # cs, x)) \<in>
    measures [\<lambda>(d, adj, k, cs, x). length cs, \<lambda>(d, adj, k, cs, x). chunk_rank (curr_state (fst x)) (expected (fst x))]"
    by (cases n) auto
qed simp

definition chunk_cut ::
    "u32 \<Rightarrow> bool \<Rightarrow> bytes \<Rightarrow> chunk_cutter \<times> http_log \<Rightarrow> scan_result \<times> chunk_cutter \<times> http_log" where
  "chunk_cut flow_target stretch buffer x =
     (let discard_mode = (flow_target = 0);
          adjusted_target = (if stretch then of_nat MAX_SECTION_STRETCH + flow_target else flow_target)
      in at_end (chunk_loop discard_mode adjusted_target 0 buffer x)
           (\<lambda>(s, lg).
              if discard_mode then (SCAN_DISCARD_PIECE, s\<lparr>num_flush := length buffer\<rparr>, lg)
              else if data_seen s \<ge> flow_target then
                (SCAN_FOUND_PIECE, s\<lparr>data_seen := 0, num_flush := length buffer\<rparr>, lg)
              else (SCAN_NOT_FOUND, add_octets (length buffer) s, lg)))"

definition chunk_new :: chunk_cutter where
  "chunk_new = \<lparr>octets_seen = 0, num_crlf = 0, num_flush = 0, data_seen = 0, curr_state = CHUNK_NEWLINES, expected = 0,
     num_leading_ws = 0, num_zeros = 0, digits_seen = 0, num_good_chunks = 0\<rparr>"

definition chunk_soft_reset :: "chunk_cutter \<Rightarrow> chunk_cutter" where
  "chunk_soft_reset s = s\<lparr>octets_seen := 0, num_good_chunks := 0\<rparr>"

end
