(* ===== verification/Http_Stream.thy ===== *)
theory Http_Stream
  imports Http_Cutter
begin

text \<open>
  The cutters that look at single octets do not depend on how the stream was cut into segments: the contract that
  one turn of their loops keeps, the consequence for every sequence of segments, and the place where the header
  cutter ends the header block.
\<close>

section \<open>Independence of the segmentation\<close>

text \<open>Segments are passed to the cutter until it decides.\<close>

fun feed :: "(bytes \<Rightarrow> 's \<Rightarrow> scan_result \<times> 's) \<Rightarrow> bytes list \<Rightarrow> 's \<Rightarrow> scan_result \<times> 's" where
  "feed ct [] s = (SCAN_NOT_FOUND, s)"
| "feed ct (x # xs) s = at_end (ct x s) (feed ct xs)"

text \<open>The position in the stream that a result stands for.\<close>

definition position :: "scan_result \<Rightarrow> 'a http_cutter_scheme \<Rightarrow> nat" where
  "position r s =
     (case r of SCAN_ABORT \<Rightarrow> 0 | SCAN_NOT_FOUND \<Rightarrow> octets_seen s | _ \<Rightarrow> octets_seen s + num_flush s)"

locale octet_cutter =
  fixes turn :: "bytes \<Rightarrow> nat \<Rightarrow> u8 \<Rightarrow> 's \<Rightarrow> 's turn" and adv :: "nat \<Rightarrow> 's \<Rightarrow> 's" and obs :: "scan_result \<Rightarrow> 's \<Rightarrow> 'o"
  assumes returns: "turn b k c s = Return r s' \<Longrightarrow> r \<noteq> SCAN_NOT_FOUND"
    and go_shift: "turn b (k + n) c s = Go m s' \<Longrightarrow> turn b' k c (adv n s) = Go m (adv n s')"
    and return_shift: "turn b (k + n) c s = Return r s' \<Longrightarrow> \<exists>t. turn b' k c (adv n s) = Return r t \<and> obs r t = obs r s'"
    and adv_adv: "adv n (adv m s) = adv (m + n) s"
    and adv_0: "adv 0 s = s"
begin

definition seg_cut :: "bytes \<Rightarrow> 's \<Rightarrow> scan_result \<times> 's" where
  "seg_cut b s = at_end (scan_octets (turn b) 0 b s) (\<lambda>s'. (SCAN_NOT_FOUND, adv (length b) s'))"

definition out :: "scan_result \<times> 's \<Rightarrow> scan_result \<times> 'o" where
  "out p = (fst p, obs (fst p) (snd p))"

lemma scan_append:
  "scan_octets (turn b) k (xs @ ys) s =
    at_end (scan_octets (turn b) k xs s) (scan_octets (turn b) (k + length xs) ys)"
proof (induction xs arbitrary: k s)
  case (Cons c xs)
  show ?case
  proof (cases "turn b k c s")
    case (Return r s')
    with returns [OF this] show ?thesis by (simp add: at_end_def)
  next
    case (Go n s')
    with Cons show ?thesis by simp
  qed
qed (simp add: at_end_def)

lemma scan_shift:
  "(\<exists>s'. scan_octets (turn b) (k + n) ys s = (SCAN_NOT_FOUND, s') \<and>
      scan_octets (turn b') k ys (adv n s) = (SCAN_NOT_FOUND, adv n s')) \<or>
    (fst (scan_octets (turn b) (k + n) ys s) \<noteq> SCAN_NOT_FOUND \<and>
      out (scan_octets (turn b) (k + n) ys s) = out (scan_octets (turn b') k ys (adv n s)))"
proof (induction ys arbitrary: k s)
  case (Cons c ys)
  show ?case
  proof (cases "turn b (k + n) c s")
    case (Return r s')
    from return_shift [OF this, of b'] obtain t where "turn b' k c (adv n s) = Return r t" "obs r t = obs r s'" by blast
    with Return returns [OF Return] show ?thesis by (simp add: out_def)
  next
    case (Go m s')
    from go_shift [OF this, of b'] Go Cons [of "Suc k" s'] show ?thesis by simp
  qed
qed simp

lemma feed_cut: "out (feed seg_cut segs s) = out (seg_cut (concat segs) s)"
proof (induction segs arbitrary: s)
  case Nil
  show ?case by (simp add: seg_cut_def adv_0 at_end_def)
next
  case (Cons x segs)
  let ?y = "concat segs"
  have app: "scan_octets (turn (x @ ?y)) 0 (x @ ?y) s =
      at_end (scan_octets (turn (x @ ?y)) 0 x s) (scan_octets (turn (x @ ?y)) (length x) ?y)"
    using scan_append [of "x @ ?y" 0 x ?y s] by simp
  from scan_shift [of "x @ ?y" 0 0 x s x] show ?case
  proof (elim disjE exE conjE)
    fix s' assume a: "scan_octets (turn (x @ ?y)) (0 + 0) x s = (SCAN_NOT_FOUND, s')"
      and "scan_octets (turn x) 0 x (adv 0 s) = (SCAN_NOT_FOUND, adv 0 s')"
    then have b: "seg_cut x s = (SCAN_NOT_FOUND, adv (length x) s')" by (simp add: seg_cut_def adv_0 at_end_def)
    have "out (feed seg_cut (x # segs) s) = out (seg_cut ?y (adv (length x) s'))" using Cons b by (simp add: at_end_def)
    also have "\<dots> = out (seg_cut (x @ ?y) s)"
    proof -
      from scan_shift [of "x @ ?y" 0 "length x" ?y s' ?y] show ?thesis
        unfolding seg_cut_def app by (elim disjE exE conjE) (use a in \<open>auto simp: at_end_def adv_adv out_def\<close>)
    qed
    finally show ?thesis by simp
  next
    assume a: "fst (scan_octets (turn (x @ ?y)) (0 + 0) x s) \<noteq> SCAN_NOT_FOUND"
      "out (scan_octets (turn (x @ ?y)) (0 + 0) x s) = out (scan_octets (turn x) 0 x (adv 0 s))"
    then have n: "fst (scan_octets (turn x) 0 x s) \<noteq> SCAN_NOT_FOUND" by (simp add: out_def adv_0)
    have "out (feed seg_cut (x # segs) s) = out (seg_cut x s)"
      using n unfolding seg_cut_def by (simp add: at_end_def)
    also have "\<dots> = out (scan_octets (turn x) 0 x s)" using n unfolding seg_cut_def by (simp add: at_end_def)
    also have "\<dots> = out (scan_octets (turn (x @ ?y)) 0 x s)" using a(2) by (simp add: adv_0)
    also have "\<dots> = out (seg_cut (x @ ?y) s)" using a(1) unfolding seg_cut_def app by (simp add: at_end_def)
    finally show ?thesis by simp
  qed
qed

end

subsection \<open>Start lines\<close>

text \<open>
  Everything the cutter of start lines reports, except which of the two events for a malformed message it raises: that
  choice looks for \<^verbatim>\<open>HTTP/\<close> in the last segment only.
\<close>

definition start_obs :: "scan_result \<Rightarrow> start_cutter \<times> http_log \<Rightarrow> nat \<times> nat \<times> bool \<times> nat \<times> infraction set \<times> http_event set" where
  "start_obs r x = (position r (fst x), num_crlf (fst x), validated (fst x), octets_checked (fst x),
     infractions (snd x), events (snd x) - {EVENT_MISFORMATTED_HTTP, EVENT_LOSS_OF_SYNC})"

lemma validate_add_octets:
  "validate kind c (add_octets n s) lg = (case validate kind c s lg of (v, s', lg') \<Rightarrow> (v, add_octets n s', lg'))"
  by (auto simp: validate_def request_validate_def status_validate_def add_octets_def Let_def split: start_kind.split)

lemma validate_keeps:
  "validate kind c s lg = (v, s', lg') \<Longrightarrow> octets_seen s' = octets_seen s \<and> num_crlf s' = num_crlf s \<and> validated s' = validated s"
  by (auto simp: validate_def request_validate_def status_validate_def Let_def split: start_kind.splits if_splits)

lemma misformatted_events:
  "events (generate_misformatted_http b lg) - {EVENT_MISFORMATTED_HTTP, EVENT_LOSS_OF_SYNC} =
    events lg - {EVENT_MISFORMATTED_HTTP, EVENT_LOSS_OF_SYNC}"
  "infractions (generate_misformatted_http b lg) = infractions lg"
  by (auto simp: generate_misformatted_http_def create_event_def)

lemma add_octets_fields [simp]:
  "octets_seen (add_octets n s) = octets_seen s + n" "num_crlf (add_octets n s) = num_crlf s"
  "num_flush (add_octets n s) = num_flush s" "validated (add_octets n t) = validated t"
  "octets_checked (add_octets n t) = octets_checked t"
  by (simp_all add: add_octets_def)

lemma start_line_shift:
  assumes "start_line_octet kind b (k + n) c (s, lg) = y"
  shows "case y of
      Go m (s', lg') \<Rightarrow> start_line_octet kind b' k c (add_octets n s, lg) = Go m (add_octets n s', lg')
    | Return r x \<Rightarrow> r \<noteq> SCAN_NOT_FOUND \<and>
        (\<exists>t. start_line_octet kind b' k c (add_octets n s, lg) = Return r t \<and> start_obs r t = start_obs r x)"
proof -
  define p where "p = (if validated s then (V_TBD, s, lg) else validate kind c s lg)"
  obtain v s1 lg1 where p: "p = (v, s1, lg1)" by (cases p) auto
  have q: "(if validated (add_octets n s) then (V_TBD, add_octets n s, lg) else validate kind c (add_octets n s) lg) =
    (v, add_octets n s1, lg1)"
    using p unfolding p_def by (auto simp: validate_add_octets split: if_splits)
  show ?thesis
    using assms p unfolding start_line_octet_def p_def prod.case q
    by (cases v)
      (auto simp: Let_def start_obs_def position_def misformatted_events add_octets_def split: if_splits)
qed

lemma start_octet_shift:
  assumes "start_octet kind b (k + n) c (s, lg) = y"
  shows "case y of
      Go m (s', lg') \<Rightarrow> start_octet kind b' k c (add_octets n s, lg) = Go m (add_octets n s', lg')
    | Return r x \<Rightarrow> r \<noteq> SCAN_NOT_FOUND \<and>
        (\<exists>t. start_octet kind b' k c (add_octets n s, lg) = Return r t \<and> start_obs r t = start_obs r x)"
proof -
  have e: "num_crlf (add_octets n s) = octets_seen (add_octets n s) + k \<longleftrightarrow> num_crlf s = octets_seen s + (k + n)" by auto
  show ?thesis
    using assms start_line_shift [OF refl, where kind = kind and b = b and k = k and n = n and c = c and s = s and lg = lg and b' = b'] unfolding start_octet_def prod.case e
    by (auto simp: Let_def start_obs_def position_def misformatted_events add_octets_def split: if_splits)
qed

definition adv_start :: "nat \<Rightarrow> start_cutter \<times> http_log \<Rightarrow> start_cutter \<times> http_log" where
  "adv_start n x = (add_octets n (fst x), snd x)"

interpretation start: octet_cutter "start_octet kind" adv_start start_obs
proof
  fix b b' k c n m r and s s' :: "start_cutter \<times> http_log"
  show "start_octet kind b k c s = Return r s' \<Longrightarrow> r \<noteq> SCAN_NOT_FOUND"
    using start_octet_shift [of kind b k 0 c "fst s" "snd s"] by fastforce
  show "start_octet kind b (k + n) c s = Go m s' \<Longrightarrow> start_octet kind b' k c (adv_start n s) = Go m (adv_start n s')"
    using start_octet_shift [of kind b k n c "fst s" "snd s"] by (fastforce simp: adv_start_def)
  show "start_octet kind b (k + n) c s = Return r s' \<Longrightarrow>
      \<exists>t. start_octet kind b' k c (adv_start n s) = Return r t \<and> start_obs r t = start_obs r s'"
    using start_octet_shift [of kind b k n c "fst s" "snd s"] by (fastforce simp: adv_start_def)
qed (simp_all add: adv_start_def add_octets_def)

lemma start_cut_eq: "start.seg_cut kind = start_cut kind"
  by (auto simp: start.seg_cut_def start_cut_def at_end_def adv_start_def fun_eq_iff split: prod.split)

subsection \<open>Headers\<close>

definition header_obs :: "scan_result \<Rightarrow> header_cutter \<times> http_log \<Rightarrow> nat \<times> nat \<times> line_end_state \<times> nat \<times> http_log" where
  "header_obs r x = (position r (fst x), num_crlf (fst x), hstate (fst x), num_head_lines (fst x), snd x)"

definition adv_header :: "nat \<Rightarrow> header_cutter \<times> http_log \<Rightarrow> header_cutter \<times> http_log" where
  "adv_header n x = (add_octets n (fst x), snd x)"

interpretation header: octet_cutter "\<lambda>b. header_octet" adv_header header_obs
proof
  fix b b' k c n m r and s s' :: "header_cutter \<times> http_log"
  obtain h lg where s: "s = (h, lg)" by fastforce
  show "header_octet k c s = Return r s' \<Longrightarrow> r \<noteq> SCAN_NOT_FOUND"
    unfolding s by (auto simp: header_octet_def Let_def split: line_end_state.splits if_splits)
  show "header_octet (k + n) c s = Go m s' \<Longrightarrow> header_octet k c (adv_header n s) = Go m (adv_header n s')"
    unfolding s by (cases "hstate h")
      (auto simp: header_octet_def Let_def adv_header_def add_octets_def split: if_splits)
  show "header_octet (k + n) c s = Return r s' \<Longrightarrow>
      \<exists>t. header_octet k c (adv_header n s) = Return r t \<and> header_obs r t = header_obs r s'"
    unfolding s by (cases "hstate h")
      (auto simp: header_octet_def Let_def adv_header_def add_octets_def header_obs_def position_def split: if_splits)
qed (simp_all add: adv_header_def add_octets_def)

lemma header_cut_eq: "header.seg_cut = header_cut"
  by (auto simp: header.seg_cut_def header_cut_def at_end_def adv_header_def fun_eq_iff split: prod.split)

section \<open>The end of the header block\<close>

text \<open>
  A line feed after \<open>xs\<close> ends the header block: the carriage returns before it follow the start of the block or another
  line feed, or there are at least two of them.
\<close>

definition blank_line :: "bytes \<Rightarrow> bool" where
  "blank_line xs = (let rest = dropWhile (\<lambda>c. c = 13) (rev xs)
     in rest = [] \<or> hd rest = 10 \<or> length rest + 2 \<le> length xs)"

definition header_end :: "bytes \<Rightarrow> nat option" where
  "header_end xs = List.find (\<lambda>i. xs ! i = 10 \<and> blank_line (take i xs)) [0..<length xs]"

text \<open>The length of the run of carriage returns and line feeds at the end.\<close>

definition trailing_crlf :: "bytes \<Rightarrow> nat" where
  "trailing_crlf xs = length (takeWhile is_cr_lf (rev xs))"

lemma trailing_crlf_snoc [simp]: "trailing_crlf (xs @ [c]) = (if is_cr_lf c then Suc (trailing_crlf xs) else 0)"
  by (simp add: trailing_crlf_def)

lemma blank_line_snoc [simp]:
  "blank_line (xs @ [c]) \<longleftrightarrow> c = 10 \<or> c = 13 \<and> (blank_line xs \<or> xs \<noteq> [] \<and> last xs = 13)"
proof (cases xs rule: rev_cases)
  case (snoc ys d)
  have "length (dropWhile (\<lambda>c. c = 13) (rev ys)) \<le> length ys" using length_dropWhile_le [of _ "rev ys"] by simp
  then show ?thesis unfolding snoc by (auto simp: blank_line_def Let_def)
qed (simp add: blank_line_def)

lemma header_start [simp]:
  "blank_line []" "blank_line [c] \<longleftrightarrow> c = 10 \<or> c = 13" "trailing_crlf [] = 0" "trailing_crlf [c] = (if is_cr_lf c then 1 else 0)"
  by (simp_all add: blank_line_def trailing_crlf_def)

text \<open>What the state of the header cutter says about the octets so far.\<close>

definition header_state_of :: "bytes \<Rightarrow> line_end_state" where
  "header_state_of xs =
     (if blank_line xs then (if xs = [] \<or> last xs = 10 then ONE else THREEHALF)
      else if last xs = 13 then HALF else ZERO)"

lemma not_blank_line:
  assumes "\<not> blank_line xs"
  shows "xs \<noteq> []" "last xs \<noteq> 10" "last xs \<noteq> 13 \<Longrightarrow> trailing_crlf xs = 0"
  using assms by (cases xs rule: rev_cases; simp add: is_cr_lf_def)+

lemma header_scan:
  assumes "hstate h = header_state_of pre" and "num_crlf h = trailing_crlf pre"
  shows "case List.find (\<lambda>i. (pre @ rest) ! i = 10 \<and> blank_line (take i (pre @ rest))) [length pre..<length (pre @ rest)] of
      Some i \<Rightarrow> \<exists>s lg'. scan_octets header_octet (length pre) rest (h, lg) = (SCAN_FOUND, s, lg') \<and>
        num_flush s = Suc i \<and> num_crlf s = trailing_crlf (take (Suc i) (pre @ rest))
    | None \<Rightarrow> fst (scan_octets header_octet (length pre) rest (h, lg)) = SCAN_NOT_FOUND"
  using assms
proof (induction rest arbitrary: pre h lg)
  case (Cons c rest)
  have upt: "[length pre..<length (pre @ c # rest)] = length pre # [length (pre @ [c])..<length ((pre @ [c]) @ rest)]"
    by (simp add: upt_conv_Cons del: upt_Suc)
  note state = header_octet_def header_state_of_def Let_def is_cr_lf_def
  show ?case
  proof (cases "c = 10 \<and> blank_line pre")
    case True
    then have "\<exists>s lg'. header_octet (length pre) c (h, lg) = Return SCAN_FOUND (s, lg') \<and>
        num_flush s = Suc (length pre) \<and> num_crlf s = trailing_crlf (pre @ [c])"
      using Cons.prems by (cases "pre = [] \<or> last pre = 10") (auto simp: state)
    with True show ?thesis unfolding upt by auto
  next
    case False
    then have "\<exists>h' lg'. header_octet (length pre) c (h, lg) = Go 1 (h', lg') \<and>
        hstate h' = header_state_of (pre @ [c]) \<and> num_crlf h' = trailing_crlf (pre @ [c])"
    proof (cases "blank_line pre")
      case True
      with False Cons.prems show ?thesis
        by (cases "c = 13"; cases "pre = [] \<or> last pre = 10") (auto simp: state)
    next
      case n: False
      note nb = not_blank_line [OF n]
      with n Cons.prems show ?thesis
        by (cases "c = 13"; cases "c = 10"; cases "last pre = 13") (simp_all add: state)
    qed
    then obtain h' lg' where h: "header_octet (length pre) c (h, lg) = Go 1 (h', lg')"
      "hstate h' = header_state_of (pre @ [c])" "num_crlf h' = trailing_crlf (pre @ [c])" by blast
    let ?P = "\<lambda>i. ((pre @ [c]) @ rest) ! i = 10 \<and> blank_line (take i ((pre @ [c]) @ rest))"
    have app: "pre @ c # rest = (pre @ [c]) @ rest" by simp
    have "\<not> ?P (length pre)" using False by simp
    then have f: "List.find ?P [length pre..<length ((pre @ [c]) @ rest)] =
        List.find ?P [length (pre @ [c])..<length ((pre @ [c]) @ rest)]"
      using upt unfolding app by (simp only: find.simps if_False)
    have s: "scan_octets header_octet (length pre) (c # rest) (h, lg) =
        scan_octets header_octet (length (pre @ [c])) rest (h', lg')" using h(1) by simp
    show ?thesis unfolding app f s by (rule Cons.IH [OF h(2,3)])
  qed
qed simp

section \<open>Properties\<close>

text \<open>
  C35. The start line cutter is independent of the segmentation. However the stream is cut into segments, the cutter of
  request and status lines takes the same decision at the same position, with the same infractions and the same events up to
  the choice between the two events for a malformed message, as on the whole stream in one segment.
\<close>

theorem start_cut_segments:
  "map_prod id (start_obs (fst (feed (start_cut kind) segs x))) (feed (start_cut kind) segs x) =
    map_prod id (start_obs (fst (start_cut kind (concat segs) x))) (start_cut kind (concat segs) x)"
  using start.feed_cut [of kind segs x] by (auto simp: start_cut_eq start.out_def map_prod_def split_beta)

text \<open>
  The header cutter is independent of the segmentation: the same decision, position, separator length, number of
  header lines, infractions and events for every way to cut the stream into segments.
\<close>

theorem header_cut_segments:
  "map_prod id (header_obs (fst (feed header_cut segs x))) (feed header_cut segs x) =
    map_prod id (header_obs (fst (header_cut (concat segs) x))) (header_cut (concat segs) x)"
  using header.feed_cut [of segs x] by (auto simp: header_cut_eq header.out_def map_prod_def split_beta)

text \<open>
  Where the header block ends. A fresh header cutter finds the first line feed that closes an empty line, where an empty
  line is any number of carriage returns after the start or after a line feed, or two or more carriage returns; it
  flushes up to and including that line feed and reports the whole run of carriage returns and line feeds as the separator.
  Without such a line feed it asks for more data.
\<close>

theorem header_cut_end:
  "case header_end xs of
     Some i \<Rightarrow> \<exists>s lg'. header_cut xs (header_new, lg) = (SCAN_FOUND, s, lg') \<and>
       num_flush s = Suc i \<and> num_crlf s = trailing_crlf (take (Suc i) xs)
   | None \<Rightarrow> fst (header_cut xs (header_new, lg)) = SCAN_NOT_FOUND"
proof -
  have "hstate header_new = header_state_of []" "num_crlf header_new = trailing_crlf []"
    by (simp_all add: header_new_def header_state_of_def)
  from header_scan [OF this, of xs lg] show ?thesis
    by (auto simp: header_end_def header_cut_def at_end_def split: option.splits prod.splits)
qed

end
