(* ===== verification/Http_Body.thy ===== *)
theory Http_Body
  imports Http_Stream
begin

text \<open>
  Message bodies: the sections that the cutter of bodies with a content length takes add up to the content length, the
  section sizes stay within the target, and the cutter of chunked bodies can be stopped and resumed at any octet.
\<close>

section \<open>Bodies with a content length\<close>

text \<open>Within one section the target and the stretching do not change; this is what a section keeps.\<close>

definition cl_inv :: "nat \<Rightarrow> bool \<Rightarrow> cl_cutter \<Rightarrow> bool" where
  "cl_inv t st s \<longleftrightarrow> 0 < remaining s \<and> (octets_seen s = 0 \<or> st \<and> octets_seen s < t \<and> t < remaining s)"

text \<open>What one call, or a whole section, has done to the cutter when it returns \<open>r\<close>; \<open>n\<close> octets were passed.\<close>

definition cl_post :: "nat \<Rightarrow> bool \<Rightarrow> nat \<Rightarrow> cl_cutter \<Rightarrow> scan_result \<Rightarrow> cl_cutter \<Rightarrow> bool" where
  "cl_post t st n s r s' \<longleftrightarrow>
     (if r = SCAN_NOT_FOUND then
        cl_inv t st s' \<and> remaining s' = remaining s \<and> octets_seen s' = octets_seen s + n
      else
        position r s' + remaining s' = remaining s \<and> (r \<in> {SCAN_FOUND, SCAN_DISCARD} \<longleftrightarrow> remaining s' = 0) \<and>
        (0 < t \<longrightarrow> 0 < position r s' \<and> position r s' \<le> t + MAX_SECTION_STRETCH))"

lemma cl_cut_post: "cl_inv t st s \<Longrightarrow> cl_cut t st b s = (r, s') \<Longrightarrow> cl_post t st (length b) s r s'"
  by (auto simp: cl_post_def cl_cut_def Let_def cl_inv_def add_octets_def position_def MAX_SECTION_STRETCH_def
      split: if_splits)

lemma cl_section: "cl_inv t st s \<Longrightarrow> feed (cl_cut t st) segs s = (r, s') \<Longrightarrow> cl_post t st (length (concat segs)) s r s'"
proof (induction segs arbitrary: s)
  case Nil
  then show ?case by (simp add: cl_post_def)
next
  case (Cons b segs)
  obtain q u where c: "cl_cut t st b s = (q, u)" by fastforce
  note turn = cl_cut_post [OF Cons.prems(1) c]
  show ?case
  proof (cases "q = SCAN_NOT_FOUND")
    case True
    with turn have u: "cl_inv t st u" "remaining u = remaining s" "octets_seen u = octets_seen s + length b"
      by (simp_all add: cl_post_def)
    from Cons.prems(2) c True have "feed (cl_cut t st) segs u = (r, s')" by (simp add: at_end_def)
    from Cons.IH [OF u(1) this] u(2,3) show ?thesis by (auto simp: cl_post_def split: if_splits)
  next
    case False
    with Cons.prems(2) c turn show ?thesis by (simp add: at_end_def cl_post_def)
  qed
qed

text \<open>
  A whole body: for each section the target and the stretching in force and the segments that arrive. \<open>None\<close>: a
  section is still waiting for data, or the body was over before.
\<close>

fun cl_body :: "(nat \<times> bool \<times> bytes list) list \<Rightarrow> cl_cutter \<Rightarrow> (nat list \<times> scan_result \<times> cl_cutter) option" where
  "cl_body [] s = Some ([], SCAN_FOUND_PIECE, s)"
| "cl_body ((t, st, segs) # secs) s =
     (case feed (cl_cut t st) segs s of
        (r, s') \<Rightarrow>
          if r = SCAN_NOT_FOUND then None
          else if r \<in> {SCAN_FOUND, SCAN_DISCARD} then (if secs = [] then Some ([position r s'], r, s') else None)
          else map_option (\<lambda>(ns, q). (position r s' # ns, q)) (cl_body secs (soft_reset s')))"

definition section_size_ok :: "nat \<times> bool \<times> bytes list \<Rightarrow> nat \<Rightarrow> bool" where
  "section_size_ok sec n \<longleftrightarrow> (0 < fst sec \<longrightarrow> 0 < n \<and> n \<le> fst sec + MAX_SECTION_STRETCH)"

lemma cl_body_sum:
  "cl_body secs s = Some (ns, r, s') \<Longrightarrow> octets_seen s = 0 \<Longrightarrow> 0 < remaining s \<Longrightarrow>
    sum_list ns + remaining s' = remaining s \<and> (r \<in> {SCAN_FOUND, SCAN_DISCARD} \<longleftrightarrow> remaining s' = 0) \<and>
    list_all2 section_size_ok secs ns"
proof (induction secs arbitrary: s ns)
  case (Cons sec secs)
  obtain t st segs where sec: "sec = (t, st, segs)" by (cases sec)
  obtain q u where f: "feed (cl_cut t st) segs s = (q, u)" by fastforce
  have "cl_inv t st s" using Cons.prems(2,3) by (simp add: cl_inv_def)
  note post = cl_section [OF this f]
  from Cons.prems(1) sec f have nf: "q \<noteq> SCAN_NOT_FOUND" by auto
  with post have p: "position q u + remaining u = remaining s" "q \<in> {SCAN_FOUND, SCAN_DISCARD} \<longleftrightarrow> remaining u = 0"
    "section_size_ok sec (position q u)" by (simp_all add: cl_post_def section_size_ok_def sec)
  show ?case
  proof (cases "q \<in> {SCAN_FOUND, SCAN_DISCARD}")
    case True
    with Cons.prems(1) sec f p nf show ?thesis by (auto split: if_splits)
  next
    case False
    with Cons.prems(1) sec f nf obtain ms where m: "cl_body secs (soft_reset u) = Some (ms, r, s')" "ns = position q u # ms"
      by auto
    from Cons.IH [OF m(1)] False p m(2) show ?thesis by (auto simp: soft_reset_def)
  qed
qed auto

text \<open>
  C37. Sections of a body with a content length. However the body arrives in segments and whatever targets and stretching the
  inspector chooses for the sections, the octets of the sections add up to the content length when the cutter reports the
  end (found or discarded), to less before, and the sections that are not discarded have at least one octet and at most
  \<^verbatim>\<open>MAX_SECTION_STRETCH\<close> octets more than the target.
\<close>

theorem cl_body_conserves:
  assumes "0 < content_length" and "cl_body secs (cl_new content_length) = Some (ns, r, s)"
  shows "sum_list ns \<le> content_length \<and> (r \<in> {SCAN_FOUND, SCAN_DISCARD} \<longleftrightarrow> sum_list ns = content_length) \<and>
    list_all2 section_size_ok secs ns"
  using cl_body_sum [OF assms(2)] assms(1) by (auto simp: cl_new_def)

theorem cl_body_conserves_witness:
  "\<exists>s. cl_body [(4, False, [[1, 2]]), (3, True, [[5], [6, 7]]), (8, True, [[8]])] (cl_new 9) = Some ([4, 3, 2], SCAN_FOUND, s) \<and>
    sum_list [4, 3, 2] = (9 :: nat)"
proof -
  let ?secs = "[(4, False, [[1, 2]]), (3, True, [[5], [6, 7]]), (8, True, [[8]])] :: (nat \<times> bool \<times> bytes list) list"
  obtain s where s: "cl_body ?secs (cl_new 9) = Some ([4, 3, 2], SCAN_FOUND, s)"
    by (simp add: cl_cut_def cl_new_def Let_def at_end_def position_def soft_reset_def add_octets_def MAX_SECTION_STRETCH_def)
  from cl_body_conserves [OF _ this] show ?thesis using s by simp
qed

end
