(* ===== verification/Http_Chunk.thy ===== *)
theory Http_Chunk
  imports Http_Body
begin

text \<open>
  The cutter of chunked bodies octet by octet: it skips over chunk data in one turn, which has the effect of so many turns
  over one octet, so that it can be resumed at any octet.
\<close>

section \<open>Skipping is the same as going on octet by octet\<close>

definition data_skip :: "u32 \<Rightarrow> nat \<Rightarrow> nat \<Rightarrow> chunk_cutter \<times> http_log \<Rightarrow> (chunk_cutter \<times> http_log) turn" where
  "data_skip adj k n x =
     (let s = fst x;
          s1 = s\<lparr>expected := expected s - of_nat n,
                 curr_state := if expected s - of_nat n = 0 then CHUNK_DCRLF1 else curr_state s,
                 data_seen := data_seen s + of_nat n\<rparr>
      in if data_seen s1 = adj then Return SCAN_FOUND_PIECE (s1\<lparr>data_seen := 0, num_flush := k + n\<rparr>, snd x)
         else Go n (s1, snd x))"

definition bad_skip :: "u32 \<Rightarrow> nat \<Rightarrow> nat \<Rightarrow> chunk_cutter \<times> http_log \<Rightarrow> (chunk_cutter \<times> http_log) turn" where
  "bad_skip adj k n x =
     (let s = fst x; s1 = s\<lparr>data_seen := data_seen s + of_nat n\<rparr>
      in if data_seen s1 = adj then Return SCAN_FOUND_PIECE (s1\<lparr>data_seen := 0, num_flush := k + n\<rparr>, snd x)
         else Go n (s1, snd x))"

lemma chunk_data_turn_skip:
  "chunk_data_turn False adj k left x =
    data_skip adj k (min left (min (unat (expected (fst x))) (unat (adj - data_seen (fst x))))) x"
proof -
  let ?e = "unat (expected (fst x))" and ?a = "unat (adj - data_seen (fst x))"
  have "(if (if left \<le> ?e then left else ?e) > ?a then ?a else (if left \<le> ?e then left else ?e)) = min left (min ?e ?a)"
    by auto
  then show ?thesis
    unfolding chunk_data_turn_def data_skip_def by (cases x) (auto simp: Let_def)
qed

lemma chunk_bad_turn_skip:
  "chunk_bad_turn False adj k left x = bad_skip adj k (min left (unat (adj - data_seen (fst x)))) x"
  unfolding chunk_bad_turn_def bad_skip_def by (cases x) (auto simp: Let_def min_def)

text \<open>The first of several octets.\<close>

lemma unat_pred:
  fixes w :: u32
  assumes "2 \<le> unat w"
  shows "unat (w - 1) = unat w - 1" "w - 1 \<noteq> 0"
proof -
  have "1 \<le> w" using assms by (simp add: word_le_nat_alt)
  then show "unat (w - 1) = unat w - 1" by (simp add: unat_sub)
  with assms show "w - 1 \<noteq> 0" by auto
qed

lemma data_skip_first:
  assumes "1 \<le> n" and "Suc n \<le> unat (expected (fst x))" and "Suc n \<le> unat (adj - data_seen (fst x))"
    and "curr_state (fst x) = CHUNK_DATA"
  shows "\<exists>y. data_skip adj k 1 x = Go 1 y \<and> curr_state (fst y) = CHUNK_DATA \<and>
    unat (expected (fst y)) = unat (expected (fst x)) - 1 \<and> unat (adj - data_seen (fst y)) = unat (adj - data_seen (fst x)) - 1 \<and>
    data_skip adj k (Suc n) x = (case data_skip adj (Suc k) n y of Return r z \<Rightarrow> Return r z | Go m z \<Rightarrow> Go (Suc m) z)"
proof -
  have "2 \<le> unat (expected (fst x))" "2 \<le> unat (adj - data_seen (fst x))" using assms by simp_all
  note e = unat_pred [OF this(1)] and a = unat_pred [OF this(2)]
  have ne: "data_seen (fst x) + 1 \<noteq> adj" using a(2) by auto
  have "adj - (data_seen (fst x) + 1) = adj - data_seen (fst x) - 1" by simp
  then have ar: "unat (adj - (data_seen (fst x) + 1)) = unat (adj - data_seen (fst x)) - 1" by (simp only: a(1))
  have w: "expected (fst x) - of_nat (Suc n) = expected (fst x) - 1 - of_nat n"
    "data_seen (fst x) + of_nat (Suc n) = data_seen (fst x) + 1 + of_nat n" by simp_all
  let ?y = "((fst x)\<lparr>expected := expected (fst x) - 1, data_seen := data_seen (fst x) + 1\<rparr>, snd x)"
  have 1: "data_skip adj k 1 x = Go 1 ?y" using e(2) ne assms by (simp add: data_skip_def Let_def)
  have 2: "data_skip adj k (Suc n) x = (case data_skip adj (Suc k) n ?y of Return r z \<Rightarrow> Return r z | Go m z \<Rightarrow> Go (Suc m) z)"
    using assms(4) unfolding data_skip_def Let_def w by simp
  show ?thesis using 1 2 e(1) ar assms by (intro exI [of _ ?y]) simp
qed

lemma bad_skip_first:
  assumes "1 \<le> n" and "Suc n \<le> unat (adj - data_seen (fst x))" and "curr_state (fst x) = CHUNK_BAD"
  shows "\<exists>y. bad_skip adj k 1 x = Go 1 y \<and> curr_state (fst y) = CHUNK_BAD \<and>
    unat (adj - data_seen (fst y)) = unat (adj - data_seen (fst x)) - 1 \<and>
    bad_skip adj k (Suc n) x = (case bad_skip adj (Suc k) n y of Return r z \<Rightarrow> Return r z | Go m z \<Rightarrow> Go (Suc m) z)"
proof -
  have "2 \<le> unat (adj - data_seen (fst x))" using assms by simp
  note a = unat_pred [OF this]
  have ne: "data_seen (fst x) + 1 \<noteq> adj" using a(2) by auto
  have "adj - (data_seen (fst x) + 1) = adj - data_seen (fst x) - 1" by simp
  then have ar: "unat (adj - (data_seen (fst x) + 1)) = unat (adj - data_seen (fst x)) - 1" by (simp only: a(1))
  have w: "data_seen (fst x) + of_nat (Suc n) = data_seen (fst x) + 1 + of_nat n" by simp
  let ?y = "((fst x)\<lparr>data_seen := data_seen (fst x) + 1\<rparr>, snd x)"
  have 1: "bad_skip adj k 1 x = Go 1 ?y" using ne by (simp add: bad_skip_def Let_def)
  have 2: "bad_skip adj k (Suc n) x = (case bad_skip adj (Suc k) n ?y of Return r z \<Rightarrow> Return r z | Go m z \<Rightarrow> Go (Suc m) z)"
    unfolding bad_skip_def Let_def w by simp
  show ?thesis using 1 2 ar assms by (intro exI [of _ ?y]) simp
qed

text \<open>One turn over one octet, whatever is left of the buffer.\<close>

definition chunk_octet :: "u32 \<Rightarrow> nat \<Rightarrow> u8 \<Rightarrow> chunk_cutter \<times> http_log \<Rightarrow> (chunk_cutter \<times> http_log) turn" where
  "chunk_octet adj k c x = chunk_turn False adj k c 1 x"

lemma chunk_loop_unfold:
  assumes "chunk_turn False adj k c (length (c # cs)) x =
      (case chunk_turn False adj (Suc k) (hd cs) (length cs) y of Return r z \<Rightarrow> Return r z | Go m z \<Rightarrow> Go (Suc m) z)"
    and "cs \<noteq> []"
  shows "chunk_loop False adj k (c # cs) x = chunk_loop False adj (Suc k) cs y"
  using assms by (cases cs) (auto split: turn.split)

lemma chunk_loop_octet:
  "chunk_loop False adj k (c # cs) x =
    (case chunk_octet adj k c x of
       Return r y \<Rightarrow> (r, y)
     | Go n y \<Rightarrow> chunk_loop False adj (k + n) (drop n (c # cs)) y)"
proof -
  let ?s = "fst x"
  let ?L = "length (c # cs)"
  let ?a = "unat (adj - data_seen ?s)"
  consider (data) "curr_state ?s = CHUNK_DATA" | (bad) "curr_state ?s = CHUNK_BAD"
    | (other) "curr_state ?s \<noteq> CHUNK_DATA" "curr_state ?s \<noteq> CHUNK_BAD" by blast
  then show ?thesis
  proof cases
    case other
    then have "chunk_turn False adj k c ?L x = chunk_octet adj k c x"
      unfolding chunk_octet_def chunk_turn_def by (cases "curr_state ?s") simp_all
    then show ?thesis by simp
  next
    case data
    let ?m = "min (unat (expected ?s)) ?a"
    have t: "chunk_turn False adj k' c' l y = data_skip adj k' (min l (min (unat (expected (fst y))) (unat (adj - data_seen (fst y))))) y"
      if "curr_state (fst y) = CHUNK_DATA" for k' c' l y
      using that by (simp add: chunk_turn_def chunk_data_turn_skip)
    show ?thesis
    proof (cases "min ?L ?m \<le> 1")
      case True
      then have "min ?L ?m = min 1 ?m" by auto
      with t [OF data] show ?thesis by (simp add: chunk_octet_def)
    next
      case False
      define n where "n = min ?L ?m - 1"
      have n: "1 \<le> n" "Suc n \<le> unat (expected ?s)" "Suc n \<le> ?a" "min ?L ?m = Suc n" "min 1 ?m = 1" "cs \<noteq> []"
        using False unfolding n_def by auto
      from data_skip_first [OF n(1-3) data, of k] obtain y where y: "data_skip adj k 1 x = Go 1 y"
        "curr_state (fst y) = CHUNK_DATA" "unat (expected (fst y)) = unat (expected ?s) - 1"
        "unat (adj - data_seen (fst y)) = ?a - 1"
        "data_skip adj k (Suc n) x = (case data_skip adj (Suc k) n y of Return r z \<Rightarrow> Return r z | Go m z \<Rightarrow> Go (Suc m) z)"
        by blast
      have "min (length cs) (min (unat (expected (fst y))) (unat (adj - data_seen (fst y)))) = n"
        unfolding y(3,4) using n by auto
      then have "chunk_loop False adj k (c # cs) x = chunk_loop False adj (Suc k) cs y"
        using t [OF data, of k c ?L] t [OF y(2), of "Suc k" "hd cs" "length cs"] y(5) n(4,6)
        by (intro chunk_loop_unfold) (simp_all only: not_False_eq_True)
      moreover have "chunk_octet adj k c x = Go 1 y" unfolding chunk_octet_def t [OF data] n(5) by (rule y(1))
      ultimately show ?thesis by simp
    qed
  next
    case bad
    have t: "chunk_turn False adj k' c' l y = bad_skip adj k' (min l (unat (adj - data_seen (fst y)))) y"
      if "curr_state (fst y) = CHUNK_BAD" for k' c' l y
      using that by (simp add: chunk_turn_def chunk_bad_turn_skip)
    show ?thesis
    proof (cases "min ?L ?a \<le> 1")
      case True
      then have "min ?L ?a = min 1 ?a" by auto
      with t [OF bad] show ?thesis by (simp add: chunk_octet_def)
    next
      case False
      define n where "n = min ?L ?a - 1"
      have n: "1 \<le> n" "Suc n \<le> ?a" "min ?L ?a = Suc n" "min 1 ?a = 1" "cs \<noteq> []" using False unfolding n_def by auto
      from bad_skip_first [OF n(1,2) bad, of k] obtain y where y: "bad_skip adj k 1 x = Go 1 y"
        "curr_state (fst y) = CHUNK_BAD" "unat (adj - data_seen (fst y)) = ?a - 1"
        "bad_skip adj k (Suc n) x = (case bad_skip adj (Suc k) n y of Return r z \<Rightarrow> Return r z | Go m z \<Rightarrow> Go (Suc m) z)"
        by blast
      have "min (length cs) (unat (adj - data_seen (fst y))) = n" unfolding y(3) using n by auto
      then have "chunk_loop False adj k (c # cs) x = chunk_loop False adj (Suc k) cs y"
        using t [OF bad, of k c ?L] t [OF y(2), of "Suc k" "hd cs" "length cs"] y(4) n(3,5)
        by (intro chunk_loop_unfold) (simp_all only: not_False_eq_True)
      moreover have "chunk_octet adj k c x = Go 1 y" unfolding chunk_octet_def t [OF bad] n(4) by (rule y(1))
      ultimately show ?thesis by simp
    qed
  qed
qed

section \<open>Resuming\<close>

lemma chunk_octet_progress:
  assumes "chunk_octet adj k c x = Go n y"
  shows "n \<le> 1"
    "n = 0 \<Longrightarrow> chunk_rank (curr_state (fst y)) (expected (fst y)) < chunk_rank (curr_state (fst x)) (expected (fst x))"
  using chunk_turn_progress [of False adj k c 0 x n y] assms by (simp_all add: chunk_octet_def)

lemma chunk_turn_returns: "chunk_turn d adj k c l x = Return r y \<Longrightarrow> r \<noteq> SCAN_NOT_FOUND"
  by (cases x; cases "curr_state (fst x)")
    (auto simp: chunk_turn_def chunk_header_turn_def chunk_hcrlf_turn_def chunk_data_turn_def chunk_dcrlf_turn_def
      chunk_bad_turn_def broken_def Let_def split: if_splits)

text \<open>Induction over the octets, with repeated looks at one octet.\<close>

lemma octet_induct [case_names Nil Cons]:
  fixes P :: "bytes \<Rightarrow> chunk_cutter \<times> http_log \<Rightarrow> bool"
  assumes nil: "\<And>x. P [] x"
    and cons: "\<And>c cs x. (\<And>k n y. chunk_octet adj k c x = Go n y \<Longrightarrow> P (drop n (c # cs)) y) \<Longrightarrow> P (c # cs) x"
  shows "P cs x"
proof (induction "(cs, x)" arbitrary: cs x rule: wf_induct_rule [OF wf_measures,
    of "[\<lambda>(cs, x :: chunk_cutter \<times> http_log). length cs, \<lambda>(cs, x). chunk_rank (curr_state (fst x)) (expected (fst x))]"])
  case (1 cs x)
  show ?case
  proof (cases cs)
    case (Cons c cs')
    have "P (drop n (c # cs')) y" if "chunk_octet adj k c x = Go n y" for k n y
      using chunk_octet_progress [OF that] by (intro 1) (cases n, auto simp: Cons)
    then show ?thesis unfolding Cons by (rule cons)
  qed (simp add: nil)
qed

lemma chunk_loop_append:
  "chunk_loop False adj k (xs @ ys) x =
    at_end (chunk_loop False adj k xs x) (chunk_loop False adj (k + length xs) ys)"
proof (induction xs x arbitrary: k rule: octet_induct [where adj = adj])
  case (Nil x)
  then show ?case by (simp add: at_end_def)
next
  case (Cons c cs x)
  show ?case
  proof (cases "chunk_octet adj k c x")
    case (Return r y)
    then have "r \<noteq> SCAN_NOT_FOUND" unfolding chunk_octet_def by (rule chunk_turn_returns)
    with Return show ?thesis by (simp add: chunk_loop_octet at_end_def del: chunk_loop.simps(2))
  next
    case (Go n y)
    with chunk_octet_progress(1) [OF Go] have n: "n = 0 \<or> n = 1" by auto
    from Cons [OF Go, of "k + n"] Go n show ?thesis by (auto simp: chunk_loop_octet simp del: chunk_loop.simps(2))
  qed
qed

text \<open>Everything the cutter reports.\<close>

definition chunk_obs :: "scan_result \<Rightarrow> chunk_cutter \<times> http_log \<Rightarrow> nat \<times> chunk_cutter \<times> http_log" where
  "chunk_obs r x = (position r (fst x), (fst x)\<lparr>octets_seen := 0, num_flush := 0\<rparr>, snd x)"

definition adv_chunk :: "nat \<Rightarrow> chunk_cutter \<times> http_log \<Rightarrow> chunk_cutter \<times> http_log" where
  "adv_chunk n x = (add_octets n (fst x), snd x)"

lemma chunk_octet_shift:
  "case chunk_octet adj (k + n) c x of
      Go m y \<Rightarrow> chunk_octet adj k c (adv_chunk n x) = Go m (adv_chunk n y)
    | Return r y \<Rightarrow> \<exists>t. chunk_octet adj k c (adv_chunk n x) = Return r t \<and> chunk_obs r t = chunk_obs r y"
  by (cases x; cases "curr_state (fst x)")
    (auto simp: chunk_octet_def chunk_turn_def chunk_header_turn_def chunk_hcrlf_turn_def chunk_data_turn_def
      chunk_dcrlf_turn_def chunk_bad_turn_def broken_def Let_def adv_chunk_def add_octets_def chunk_obs_def position_def
      unat_eq_0)


definition shifted :: "nat \<Rightarrow> scan_result \<times> chunk_cutter \<times> http_log \<Rightarrow> scan_result \<times> chunk_cutter \<times> http_log \<Rightarrow> bool" where
  "shifted n p q \<longleftrightarrow> fst q = fst p \<and>
     (if fst p = SCAN_NOT_FOUND then snd q = adv_chunk n (snd p) else chunk_obs (fst p) (snd q) = chunk_obs (fst p) (snd p))"

lemma chunk_loop_shift: "shifted n (chunk_loop False adj (k + n) ys x) (chunk_loop False adj k ys (adv_chunk n x))"
proof (induction ys x arbitrary: k rule: octet_induct [where adj = adj])
  case (Nil x)
  then show ?case by (simp add: shifted_def)
next
  case (Cons c cs x)
  note shift = chunk_octet_shift [where adj = adj and k = k and n = n and c = c and x = x]
  show ?case
  proof (cases "chunk_octet adj (k + n) c x")
    case (Return r y)
    then have "r \<noteq> SCAN_NOT_FOUND" unfolding chunk_octet_def by (rule chunk_turn_returns)
    with Return shift show ?thesis by (auto simp: chunk_loop_octet shifted_def simp del: chunk_loop.simps(2))
  next
    case (Go m y)
    from Cons [OF Go, of "k + m"] Go shift show ?thesis
      by (simp add: chunk_loop_octet ac_simps del: chunk_loop.simps(2))
  qed
qed

lemma chunk_cut_loop:
  assumes "t \<noteq> 0" and "adj = (if st then of_nat MAX_SECTION_STRETCH + t else t)"
  shows "chunk_cut t st b x = at_end (chunk_loop False adj 0 b x)
    (\<lambda>(s, lg). if data_seen s \<ge> t then (SCAN_FOUND_PIECE, s\<lparr>data_seen := 0, num_flush := length b\<rparr>, lg)
      else (SCAN_NOT_FOUND, add_octets (length b) s, lg))"
  using assms by (simp add: chunk_cut_def Let_def)

text \<open>
  C36. The cutter of chunked bodies can be resumed. If the cutter, not skipping the body, asks for more data after \<open>xs\<close>,
  then on the next segment it gives the result that it would have given for both segments in one: the same decision at the
  same position of the stream, the same state, infractions and events. It may stop inside chunk headers, chunk data
  or line ends.
\<close>

theorem chunk_cut_resumes:
  assumes "flow_target \<noteq> 0" and "chunk_cut flow_target stretch xs x = (SCAN_NOT_FOUND, y)"
  shows "fst (chunk_cut flow_target stretch ys y) = fst (chunk_cut flow_target stretch (xs @ ys) x) \<and>
    chunk_obs (fst (chunk_cut flow_target stretch ys y)) (snd (chunk_cut flow_target stretch ys y)) =
    chunk_obs (fst (chunk_cut flow_target stretch (xs @ ys) x)) (snd (chunk_cut flow_target stretch (xs @ ys) x))"
proof -
  define adj where "adj = (if stretch then of_nat MAX_SECTION_STRETCH + flow_target else flow_target)"
  note cut = chunk_cut_loop [OF assms(1) adj_def]
  obtain s lg where l: "chunk_loop False adj 0 xs x = (SCAN_NOT_FOUND, s, lg)" and y: "y = adv_chunk (length xs) (s, lg)"
    using assms(2) unfolding cut
    by (cases "chunk_loop False adj 0 xs x") (auto simp: at_end_def adv_chunk_def split: if_splits)
  have app: "chunk_loop False adj 0 (xs @ ys) x = chunk_loop False adj (length xs) ys (s, lg)"
    using chunk_loop_append [of adj 0 xs ys x] l by (simp add: at_end_def)
  obtain r u lg' where p: "chunk_loop False adj (length xs) ys (s, lg) = (r, u, lg')" by (metis prod_cases3)
  from chunk_loop_shift [of "length xs" adj 0 ys "(s, lg)"] p
  have sh: "shifted (length xs) (r, u, lg') (chunk_loop False adj 0 ys y)" by (simp add: y)
  show ?thesis
  proof (cases "r = SCAN_NOT_FOUND")
    case True
    with sh have "chunk_loop False adj 0 ys y = (SCAN_NOT_FOUND, adv_chunk (length xs) (u, lg'))"
      by (cases "chunk_loop False adj 0 ys y") (simp add: shifted_def)
    with True p show ?thesis
      unfolding cut app by (auto simp: at_end_def adv_chunk_def add_octets_def chunk_obs_def position_def)
  next
    case False
    with sh p show ?thesis unfolding cut app by (simp add: at_end_def shifted_def)
  qed
qed

text \<open>The segments \<open>"3
ab"\<close> and \<open>"c
0
"\<close>.\<close>

theorem chunk_cut_resumes_witness:
  "\<exists>y. chunk_cut 100 False [51, 13, 10, 97, 98] (chunk_new, \<lparr>infractions = {}, events = {}\<rparr>) = (SCAN_NOT_FOUND, y) \<and>
    fst (chunk_cut 100 False [99, 13, 10, 48, 13, 10] y) =
      fst (chunk_cut 100 False ([51, 13, 10, 97, 98] @ [99, 13, 10, 48, 13, 10]) (chunk_new, \<lparr>infractions = {}, events = {}\<rparr>))"
proof -
  have t: "(100 :: u32) \<noteq> 0" by simp
  have "fst (chunk_cut 100 False [51, 13, 10, 97, 98] (chunk_new, \<lparr>infractions = {}, events = {}\<rparr>)) = SCAN_NOT_FOUND"
    by code_simp
  then obtain y where y: "chunk_cut 100 False [51, 13, 10, 97, 98] (chunk_new, \<lparr>infractions = {}, events = {}\<rparr>) = (SCAN_NOT_FOUND, y)"
    by (metis prod.collapse)
  from chunk_cut_resumes [OF t y] y show ?thesis by blast
qed

end
