(* ===== verification/Http_Splitter.thy ===== *)
theory Http_Splitter
  imports Http_Chunk
begin

text \<open>
  The stream splitter of the HTTP inspector (\<^verbatim>\<open>http_stream_splitter_scan.cc\<close>, \<^verbatim>\<open>http_stream_splitter_reassemble.cc\<close>,
  \<^verbatim>\<open>http_stream_splitter_finish.cc\<close>) on one direction of a flow: \<^verbatim>\<open>scan\<close> cuts the stream into message sections and
  \<^verbatim>\<open>reassemble\<close> collects the octets of a section, without the framing of chunks. The functions return \<open>None\<close> where an
  assertion of the code fails. The inspector, which is called for responses of version 0.9, and zlib are parameters.
\<close>

section \<open>Flow data\<close>

datatype section_type =
    SEC_DISCARD | SEC_ABORT | SEC__NOT_COMPUTE | SEC__NOT_PRESENT | SEC_REQUEST | SEC_STATUS | SEC_HEADER | SEC_BODY_CL
  | SEC_BODY_CHUNK | SEC_TRAILER | SEC_BODY_OLD

datatype detection_status = DET_REACTIVATING | DET_ON | DET_DEACTIVATING | DET_OFF

datatype compress_id = CMP_NONE | CMP_GZIP | CMP_DEFLATE

datatype cutter =
  StartC start_kind start_cutter | HeaderC header_cutter | ClC cl_cutter | OldC http_cutter | ChunkC chunk_cutter

text \<open>The fields of \<^verbatim>\<open>HttpFlowData\<close> for one \<^verbatim>\<open>source_id\<close> that the splitter uses.\<close>

record 'z http_half =
  hcutter :: "cutter option"
  section_buffer :: "bytes option"
  section_total :: nat
  section_offset :: nat
  chunk_expected_length :: u32
  running_total :: nat
  chunk_state :: chunk_state
  num_excess :: nat
  num_good :: nat
  octets_expected :: nat
  is_broken_chunk :: bool
  strict_length :: bool
  section_type :: section_type
  head_lines :: int
  tcp_close :: bool
  zero_byte_workaround :: bool
  hlog :: http_log
  type_expected :: section_type
  compress_stream :: "'z option"
  data_length :: int
  section_size_target :: u32
  compression :: compress_id
  detection_status :: detection_status
  stretch_section_to_packet :: bool
  file_depth_remaining :: int
  detect_depth_remaining :: int
  body_octets :: int
  expected_trans_num :: nat
  mime_state :: bool
  flow_detection :: bool

definition STAT_NOT_PRESENT :: int where "STAT_NOT_PRESENT = - 11"

text \<open>The initial values; \<open>t\<close> is \<^verbatim>\<open>SEC_REQUEST\<close> for the client and \<^verbatim>\<open>SEC_STATUS\<close> for the server.\<close>

definition half_new :: "section_type \<Rightarrow> 'z http_half" where
  "half_new t = \<lparr>hcutter = None, section_buffer = None, section_total = 0, section_offset = 0, chunk_expected_length = 0,
     running_total = 0, chunk_state = CHUNK_NEWLINES, num_excess = 0, num_good = 0, octets_expected = 0,
     is_broken_chunk = False, strict_length = False, section_type = SEC__NOT_COMPUTE, head_lines = STAT_NOT_PRESENT,
     tcp_close = False, zero_byte_workaround = False, hlog = \<lparr>infractions = {}, events = {}\<rparr>, type_expected = t,
     compress_stream = None, data_length = STAT_NOT_PRESENT, section_size_target = 0, compression = CMP_NONE,
     detection_status = DET_ON, stretch_section_to_packet = False, file_depth_remaining = STAT_NOT_PRESENT,
     detect_depth_remaining = STAT_NOT_PRESENT, body_octets = STAT_NOT_PRESENT, expected_trans_num = 1, mime_state = False,
     flow_detection = True\<rparr>"

definition trailer_prep :: "'z http_half \<Rightarrow> 'z http_half" where
  "trailer_prep s = s\<lparr>type_expected := SEC_TRAILER, compression := CMP_NONE, compress_stream := None,
     detection_status := DET_REACTIVATING\<rparr>"

text \<open>\<open>server\<close> is the direction and \<open>final\<close> whether the response of the transaction is final.\<close>

definition half_reset :: "bool \<Rightarrow> bool \<Rightarrow> 'z http_half \<Rightarrow> 'z http_half" where
  "half_reset server final s = s\<lparr>data_length := STAT_NOT_PRESENT, body_octets := STAT_NOT_PRESENT,
     section_size_target := 0, stretch_section_to_packet := False, file_depth_remaining := STAT_NOT_PRESENT,
     detect_depth_remaining := STAT_NOT_PRESENT, detection_status := DET_REACTIVATING, compression := CMP_NONE,
     compress_stream := None, mime_state := False, hlog := \<lparr>infractions = {}, events = {}\<rparr>, section_offset := 0,
     chunk_state := CHUNK_NEWLINES, chunk_expected_length := 0,
     type_expected := if server then SEC_STATUS else SEC_REQUEST,
     expected_trans_num := if server \<and> \<not> final then expected_trans_num s else expected_trans_num s + 1\<rparr>"

section \<open>Scanning\<close>

fun base :: "cutter \<Rightarrow> http_cutter" where
  "base (StartC k c) = \<lparr>octets_seen = octets_seen c, num_crlf = num_crlf c, num_flush = num_flush c\<rparr>"
| "base (HeaderC c) = \<lparr>octets_seen = octets_seen c, num_crlf = num_crlf c, num_flush = num_flush c\<rparr>"
| "base (ClC c) = \<lparr>octets_seen = octets_seen c, num_crlf = num_crlf c, num_flush = num_flush c\<rparr>"
| "base (OldC c) = c"
| "base (ChunkC c) = \<lparr>octets_seen = octets_seen c, num_crlf = num_crlf c, num_flush = num_flush c\<rparr>"

fun get_num_head_lines :: "cutter \<Rightarrow> int" where
  "get_num_head_lines (HeaderC c) = int (num_head_lines c)"
| "get_num_head_lines _ = 0"

fun get_is_broken_chunk :: "cutter \<Rightarrow> bool" where
  "get_is_broken_chunk (ChunkC c) \<longleftrightarrow> curr_state c = CHUNK_BAD"
| "get_is_broken_chunk _ \<longleftrightarrow> False"

fun get_num_good_chunks :: "cutter \<Rightarrow> nat" where
  "get_num_good_chunks (ChunkC c) = num_good_chunks c"
| "get_num_good_chunks _ = 0"

fun cutter_soft_reset :: "cutter \<Rightarrow> cutter" where
  "cutter_soft_reset (ClC c) = ClC (soft_reset c)"
| "cutter_soft_reset (OldC c) = OldC (soft_reset c)"
| "cutter_soft_reset (ChunkC c) = ChunkC (chunk_soft_reset c)"
| "cutter_soft_reset c = c"

text \<open>The virtual method \<^verbatim>\<open>cut\<close>.\<close>

fun cutter_cut :: "u32 \<Rightarrow> bool \<Rightarrow> bytes \<Rightarrow> cutter \<Rightarrow> http_log \<Rightarrow> scan_result \<times> cutter \<times> http_log" where
  "cutter_cut t st b (StartC k c) lg = (case start_cut k b (c, lg) of (r, c', lg') \<Rightarrow> (r, StartC k c', lg'))"
| "cutter_cut t st b (HeaderC c) lg = (case header_cut b (c, lg) of (r, c', lg') \<Rightarrow> (r, HeaderC c', lg'))"
| "cutter_cut t st b (ClC c) lg = (case cl_cut (unat t) st b c of (r, c') \<Rightarrow> (r, ClC c', lg))"
| "cutter_cut t st b (OldC c) lg = (case old_cut (unat t) st b c of (r, c') \<Rightarrow> (r, OldC c', lg))"
| "cutter_cut t st b (ChunkC c) lg = (case chunk_cut t st b (c, lg) of (r, c', lg') \<Rightarrow> (r, ChunkC c', lg'))"

definition http_cutter_new :: http_cutter where
  "http_cutter_new = \<lparr>octets_seen = 0, num_crlf = 0, num_flush = 0\<rparr>"

fun get_cutter :: "section_type \<Rightarrow> int \<Rightarrow> cutter option" where
  "get_cutter SEC_REQUEST n = Some (StartC Request start_new)"
| "get_cutter SEC_STATUS n = Some (StartC Status start_new)"
| "get_cutter SEC_HEADER n = Some (HeaderC header_new)"
| "get_cutter SEC_TRAILER n = Some (HeaderC header_new)"
| "get_cutter SEC_BODY_CL n = (if n > 0 then Some (ClC (cl_new (nat n))) else None)"
| "get_cutter SEC_BODY_CHUNK n = Some (ChunkC chunk_new)"
| "get_cutter SEC_BODY_OLD n = Some (OldC http_cutter_new)"
| "get_cutter _ n = None"

definition prepare_flush ::
    "section_type \<Rightarrow> nat \<Rightarrow> nat \<Rightarrow> int \<Rightarrow> bool \<Rightarrow> nat \<Rightarrow> nat \<Rightarrow> bool \<Rightarrow> 'z http_half \<Rightarrow> 'z http_half" where
  "prepare_flush sec num_flushed excess lines brk good seen strict s =
     s\<lparr>section_type := sec, num_excess := excess, head_lines := lines, is_broken_chunk := brk, num_good := good,
       octets_expected := seen + num_flushed, strict_length := strict\<rparr>"

datatype splitter_status = ABORT | SEARCH | FLUSH nat

text \<open>The start line of the imaginary message that stands for a response of version 0.9.\<close>

definition zero_nine_status :: bytes where
  "zero_nine_status = [72, 84, 84, 80, 47, 48, 46, 57, 32, 50, 48, 48, 32, 46]"

definition zero_nine :: "(bytes \<Rightarrow> 'z http_half \<Rightarrow> 'z http_half) \<Rightarrow> 'z http_half \<Rightarrow> 'z http_half" where
  "zero_nine process s =
     (let s1 = process zero_nine_status (prepare_flush SEC_STATUS 14 0 0 False 0 14 True s)
      in process [] (prepare_flush SEC_HEADER 0 0 0 False 0 0 True s1))"

text \<open>The part of \<^verbatim>\<open>scan\<close> after the cutter has cut.\<close>

definition after_cut :: "section_type \<Rightarrow> bytes \<Rightarrow> scan_result \<Rightarrow> cutter \<Rightarrow> 'z http_half \<Rightarrow> splitter_status \<times> 'z http_half" where
  "after_cut type data r c s =
     (case r of
        SCAN_NOT_FOUND \<Rightarrow>
          (if octets_seen (base c) = MAX_OCTETS then
             (ABORT, s\<lparr>hlog := generate_misformatted_http data (infraction INF_ENDLESS_HEADER (hlog s)),
                type_expected := SEC_ABORT, hcutter := None\<rparr>)
           else (SEARCH, s\<lparr>hcutter := Some c\<rparr>))
      | SCAN_ABORT \<Rightarrow> (ABORT, s\<lparr>type_expected := SEC_ABORT, hcutter := None\<rparr>)
      | SCAN_DISCARD \<Rightarrow>
          (FLUSH (num_flush (base c)),
           (prepare_flush SEC_DISCARD (num_flush (base c)) 0 0 False 0 (octets_seen (base c)) True s)\<lparr>hcutter := None\<rparr>)
      | SCAN_DISCARD_PIECE \<Rightarrow>
          (FLUSH (num_flush (base c)),
           (prepare_flush SEC_DISCARD (num_flush (base c)) 0 0 False 0 (octets_seen (base c)) True s)
             \<lparr>hcutter := Some (cutter_soft_reset c)\<rparr>)
      | _ \<Rightarrow>
          (FLUSH (num_flush (base c)),
           (prepare_flush type (num_flush (base c)) (num_crlf (base c)) (get_num_head_lines c) (get_is_broken_chunk c)
              (get_num_good_chunks c) (octets_seen (base c)) (\<not> (type = SEC_BODY_CL \<or> type = SEC_BODY_OLD)) s)
             \<lparr>hcutter := if r = SCAN_FOUND then None else Some (cutter_soft_reset c)\<rparr>))"

definition scan ::
    "(bytes \<Rightarrow> 'z http_half \<Rightarrow> 'z http_half) \<Rightarrow> nat \<Rightarrow> bytes \<Rightarrow> 'z http_half \<Rightarrow> (splitter_status \<times> 'z http_half) option" where
  "scan process zero_nine_expected data s =
     (if length data > MAX_OCTETS then None
      else if type_expected s = SEC_ABORT then Some (ABORT, s)
      else if tcp_close s then None
      else
        (let s1 = (if detection_status s = DET_REACTIVATING then s\<lparr>flow_detection := True, detection_status := DET_ON\<rparr> else s);
             old = (type_expected s = SEC_STATUS \<and> expected_trans_num s1 = zero_nine_expected);
             type = (if old then SEC_BODY_OLD else type_expected s);
             s2 = (if old then zero_nine process s1 else s1)
         in case (case hcutter s2 of Some c \<Rightarrow> Some c | None \<Rightarrow> get_cutter type (data_length s2)) of
              None \<Rightarrow> None
            | Some c \<Rightarrow>
                (case cutter_cut (section_size_target s2) (stretch_section_to_packet s2)
                    (take (MAX_OCTETS - octets_seen (base c)) data) c (hlog s2) of
                   (r, c', lg) \<Rightarrow> Some (after_cut type data r c' (s2\<lparr>hlog := lg\<rparr>)))))"

section \<open>Reassembly\<close>

text \<open>
  zlib: \<open>inflate\<close> takes the state, the input and the room for output and gives the return code, the number of input octets
  that are left, the output and the new state; \<open>inflate_reset\<close> starts over.
\<close>

datatype zret = Z_OK | Z_STREAM_END | Z_DATA_ERROR | Z_OTHER

record 'z zlib =
  inflate :: "'z \<Rightarrow> bytes \<Rightarrow> nat \<Rightarrow> zret \<times> nat \<times> bytes \<times> 'z"
  inflate_reset :: "'z \<Rightarrow> 'z"

text \<open>\<^verbatim>\<open>memcpy(buffer + offset, data, length)\<close>.\<close>

definition buf_write :: "nat \<Rightarrow> bytes \<Rightarrow> bytes \<Rightarrow> bytes" where
  "buf_write off data buf = take off buf @ data @ drop (off + length data) buf"

definition put_data :: "bytes \<Rightarrow> 'z http_half \<Rightarrow> 'z http_half" where
  "put_data data s = s\<lparr>section_buffer := map_option (buf_write (section_offset s) data) (section_buffer s),
     section_offset := section_offset s + length data\<rparr>"

definition half_event :: "infraction \<Rightarrow> http_event \<Rightarrow> 'z http_half \<Rightarrow> 'z http_half" where
  "half_event i e s = s\<lparr>hlog := create_event e (infraction i (hlog s))\<rparr>"

definition end_inflate :: "'z http_half \<Rightarrow> 'z http_half" where
  "end_inflate s = s\<lparr>compression := CMP_NONE, compress_stream := None\<rparr>"

text \<open>The copy at the end of \<^verbatim>\<open>decompress_copy\<close>.\<close>

definition plain_copy :: "bytes \<Rightarrow> 'z http_half \<Rightarrow> 'z http_half" where
  "plain_copy data s =
     (if length data > MAX_OCTETS - section_offset s then
        put_data (take (MAX_OCTETS - section_offset s) data) (half_event INF_GZIP_OVERRUN EVENT_GZIP_OVERRUN s)
      else put_data data s)"

text \<open>What follows a successful call of \<^verbatim>\<open>inflate\<close>.\<close>

definition inflated :: "zret \<Rightarrow> nat \<Rightarrow> bytes \<Rightarrow> 'z \<Rightarrow> bytes \<Rightarrow> 'z http_half \<Rightarrow> 'z http_half" where
  "inflated ret avail_in out z data s =
     (let s1 = (put_data out s)\<lparr>compress_stream := Some z\<rparr>;
          avail_out = MAX_OCTETS - section_offset s1
      in if avail_in = 0 then s1
         else if ret = Z_STREAM_END then
           end_inflate (put_data (take (min avail_in avail_out) (drop (length data - avail_in) data))
             (half_event INF_GZIP_EARLY_END EVENT_GZIP_EARLY_END s1))
         else end_inflate (half_event INF_GZIP_OVERRUN EVENT_GZIP_OVERRUN s1))"

definition decompress_once ::
    "'z zlib \<Rightarrow> ('z \<Rightarrow> 'z http_half) \<Rightarrow> bool \<Rightarrow> bytes \<Rightarrow> 'z http_half \<Rightarrow> 'z http_half" where
  "decompress_once zl retry at_start data s =
     (case (compression s, compress_stream s) of
        (CMP_NONE, _) \<Rightarrow> plain_copy data s
      | (_, None) \<Rightarrow> plain_copy data s
      | (cmp, Some z) \<Rightarrow>
          (case inflate zl z data (MAX_OCTETS - section_offset s) of
             (ret, avail_in, out, z') \<Rightarrow>
               if ret = Z_OK \<or> ret = Z_STREAM_END then inflated ret avail_in out z' data s
               else if cmp = CMP_DEFLATE \<and> at_start \<and> ret = Z_DATA_ERROR then retry z'
               else plain_copy data (end_inflate (half_event INF_GZIP_FAILURE EVENT_GZIP_FAILURE s))))"

text \<open>\<^verbatim>\<open>compress_stream\<close> is set as long as \<^verbatim>\<open>compression\<close> is. The retry feeds the two octets of a zlib header and starts over, no longer \<open>at_start\<close>.\<close>

definition decompress_copy :: "'z zlib \<Rightarrow> bool \<Rightarrow> bytes \<Rightarrow> 'z http_half \<Rightarrow> 'z http_half" where
  "decompress_copy zl at_start data s =
     decompress_once zl
       (\<lambda>z. case inflate zl (inflate_reset zl z) [120, 1] (MAX_OCTETS - section_offset s) of
          (_, _, _, z') \<Rightarrow> decompress_once zl (\<lambda>_. s) False data (s\<lparr>compress_stream := Some z'\<rparr>))
       at_start data s"

definition body_start :: "'z http_half \<Rightarrow> bool" where
  "body_start s \<longleftrightarrow> body_octets s = 0 \<and> section_offset s = 0"

text \<open>
  One turn of \<^verbatim>\<open>chunk_spray\<close> on the rest of the data: the number of octets that are consumed and the new state, or
  \<open>None\<close> when the assertion at the terminating chunk fails.
\<close>

definition spray_turn :: "'z zlib \<Rightarrow> u8 \<Rightarrow> bytes \<Rightarrow> 'z http_half \<Rightarrow> (nat \<times> 'z http_half) option" where
  "spray_turn zl c cs s =
     (case chunk_state s of
        CHUNK_DATA \<Rightarrow>
          (let n = (if length (c # cs) \<le> unat (chunk_expected_length s) then length (c # cs)
                    else unat (chunk_expected_length s));
               s1 = decompress_copy zl (body_start s) (take n (c # cs)) s;
               s2 = s1\<lparr>chunk_expected_length := chunk_expected_length s1 - of_nat n\<rparr>
           in Some (n, if chunk_expected_length s2 = 0 then s2\<lparr>chunk_state := CHUNK_DCRLF1\<rparr> else s2))
      | CHUNK_HCRLF \<Rightarrow>
          (if chunk_expected_length s > 0 then Some (1, s\<lparr>chunk_state := CHUNK_DATA\<rparr>)
           else if cs = [] then Some (1, s\<lparr>chunk_state := CHUNK_NEWLINES\<rparr>) else None)
      | CHUNK_DCRLF1 \<Rightarrow> Some (if c = 10 then 0 else 1, s\<lparr>chunk_state := CHUNK_DCRLF2\<rparr>)
      | CHUNK_DCRLF2 \<Rightarrow>
          (let s1 = (if is_broken_chunk s then s\<lparr>num_good := (num_good s + (2 ^ 32 - 1)) mod 2 ^ 32\<rparr> else s);
               s2 = (if is_broken_chunk s \<and> num_good s1 = 0 then s1\<lparr>chunk_state := CHUNK_BAD\<rparr>
                     else s1\<lparr>chunk_state := CHUNK_NEWLINES, chunk_expected_length := 0\<rparr>)
           in Some (if is_cr_lf c then 1 else 0, s2))
      | CHUNK_BAD \<Rightarrow> Some (length (c # cs), decompress_copy zl (body_start s) (c # cs) s)
      | CHUNK_NEWLINES \<Rightarrow> Some (if is_sp_tab_cr_lf c then (1, s) else (0, s\<lparr>chunk_state := CHUNK_NUMBER\<rparr>))
      | CHUNK_LEADING_WS \<Rightarrow> Some (if is_sp_tab_cr_lf c then (1, s) else (0, s\<lparr>chunk_state := CHUNK_NUMBER\<rparr>))
      | CHUNK_TRAILING_WS \<Rightarrow>
          Some (if c = 13 then (1, s\<lparr>chunk_state := CHUNK_HCRLF\<rparr>)
                else if c = 10 then (0, s\<lparr>chunk_state := CHUNK_HCRLF\<rparr>) else (1, s))
      | CHUNK_OPTIONS \<Rightarrow>
          Some (if c = 13 then (1, s\<lparr>chunk_state := CHUNK_HCRLF\<rparr>)
                else if c = 10 then (0, s\<lparr>chunk_state := CHUNK_HCRLF\<rparr>) else (1, s))
      | _ \<Rightarrow>
          Some (if c = 13 then (1, s\<lparr>chunk_state := CHUNK_HCRLF\<rparr>)
                else if c = 10 then (0, s\<lparr>chunk_state := CHUNK_HCRLF\<rparr>)
                else if c = 59 then (1, s\<lparr>chunk_state := CHUNK_OPTIONS\<rparr>)
                else if is_sp_tab c then (1, s\<lparr>chunk_state := CHUNK_TRAILING_WS\<rparr>)
                else (1, s\<lparr>chunk_expected_length := chunk_expected_length s * 16 + word_of_int (as_hex c)\<rparr>)))"

text \<open>What \<^verbatim>\<open>decompress_copy\<close> keeps.\<close>

definition same_framing :: "'z http_half \<Rightarrow> 'z http_half \<Rightarrow> bool" where
  "same_framing s t \<longleftrightarrow> chunk_state t = chunk_state s \<and> chunk_expected_length t = chunk_expected_length s \<and>
     is_broken_chunk t = is_broken_chunk s \<and> num_good t = num_good s \<and> num_excess t = num_excess s \<and>
     running_total t = running_total s \<and> section_total t = section_total s \<and> section_type t = section_type s \<and>
     octets_expected t = octets_expected s \<and> strict_length t = strict_length s \<and> hcutter t = hcutter s \<and>
     type_expected t = type_expected s"

lemma same_framing_copy [simp]:
  "same_framing s (plain_copy data s)" "same_framing s (inflated r n out z data s)"
  "same_framing s (plain_copy data (end_inflate (half_event i e s)))"
  "same_framing (s\<lparr>compress_stream := y\<rparr>) t \<longleftrightarrow> same_framing s t"
  by (simp_all add: same_framing_def plain_copy_def inflated_def put_data_def half_event_def end_inflate_def Let_def)

lemma same_framing_once:
  "(\<And>z. same_framing s (retry z)) \<Longrightarrow> same_framing s (decompress_once zl retry a data s)"
  by (auto simp: decompress_once_def split: compress_id.split option.split prod.split)

lemma same_framing_refl: "same_framing s s"
  by (simp add: same_framing_def)

lemma same_framing_decompress: "same_framing s (decompress_copy zl a data s)"
proof -
  have r: "same_framing s (decompress_once zl (\<lambda>_. s) False data (s\<lparr>compress_stream := z\<rparr>))" for z
    using same_framing_once [of "s\<lparr>compress_stream := z\<rparr>" "\<lambda>_. s" zl False data] by (simp add: same_framing_refl)
  show ?thesis unfolding decompress_copy_def by (rule same_framing_once) (simp add: r split: prod.split)
qed

fun spray_rank :: "chunk_state \<Rightarrow> u32 \<Rightarrow> nat" where
  "spray_rank CHUNK_DATA e = (if e = 0 then 8 else 0)"
| "spray_rank CHUNK_DCRLF1 e = 7"
| "spray_rank CHUNK_DCRLF2 e = 6"
| "spray_rank CHUNK_NEWLINES e = 5"
| "spray_rank CHUNK_LEADING_WS e = 5"
| "spray_rank CHUNK_HCRLF e = 1"
| "spray_rank CHUNK_BAD e = 0"
| "spray_rank _ e = 4"

lemma spray_turn_progress:
  assumes "spray_turn zl c cs s = Some (n, t)"
  shows "n \<le> length (c # cs) \<and>
    (n = 0 \<longrightarrow> spray_rank (chunk_state t) (chunk_expected_length t) < spray_rank (chunk_state s) (chunk_expected_length s))"
proof (cases "chunk_state s = CHUNK_DATA")
  case True
  have k: "chunk_state (decompress_copy zl a d s) = chunk_state s"
    "chunk_expected_length (decompress_copy zl a d s) = chunk_expected_length s" for a d
    using same_framing_decompress [of s zl a d] by (simp_all add: same_framing_def)
  from True assms show ?thesis by (auto simp: spray_turn_def Let_def k unat_eq_0 intro!: gr0I split: if_splits)
next
  case False
  with assms show ?thesis
    by (cases "chunk_state s") (auto simp: spray_turn_def Let_def split: if_splits)
qed

function spray_loop :: "'z zlib \<Rightarrow> bytes \<Rightarrow> 'z http_half \<Rightarrow> 'z http_half option" where
  "spray_loop zl [] s = Some s"
| "spray_loop zl (c # cs) s =
     (case spray_turn zl c cs s of None \<Rightarrow> None | Some (n, t) \<Rightarrow> spray_loop zl (drop n (c # cs)) t)"
  by pat_completeness auto

termination
proof (relation "measures [\<lambda>(zl, cs, s). length cs, \<lambda>(zl, cs, s). spray_rank (chunk_state s) (chunk_expected_length s)]")
  fix zl :: "'z zlib" and c cs s p n t
  assume "spray_turn zl c cs s = Some p" and "(n, t) = p"
  then have "spray_turn zl c cs s = Some (n, t)" by simp
  from spray_turn_progress [OF this]
  show "((zl, drop n (c # cs), t), (zl, c # cs, s)) \<in>
    measures [\<lambda>(zl, cs, s). length cs, \<lambda>(zl, cs, s). spray_rank (chunk_state s) (chunk_expected_length s)]"
    by (cases n) auto
qed simp

definition chunk_spray :: "'z zlib \<Rightarrow> bytes \<Rightarrow> 'z http_half \<Rightarrow> 'z http_half option" where
  "chunk_spray zl data s =
     spray_loop zl data (if is_broken_chunk s \<and> num_good s = 0 then s\<lparr>chunk_state := CHUNK_BAD\<rparr> else s)"

text \<open>
  \<^verbatim>\<open>reassemble\<close>: \<open>tot\<close> octets are in the section, \<open>data\<close> are the next ones and \<open>tail\<close> says that they are the last ones.
  The first result is the buffer for the inspector, \<open>None\<close> for none.
\<close>

definition reassemble_discard :: "bool \<Rightarrow> bool \<Rightarrow> nat \<Rightarrow> bool \<Rightarrow> 'z http_half \<Rightarrow> (bytes option \<times> 'z http_half) option" where
  "reassemble_discard server final tot tail s =
     (if \<not> tail then Some (None, s)
      else if running_total s \<noteq> tot then None
      else
        (let s1 = s\<lparr>running_total := 0, section_type := SEC__NOT_COMPUTE\<rparr>
         in Some (None,
              if hcutter s1 = None then
                (if type_expected s1 = SEC_BODY_CL then half_reset server final s1
                 else if type_expected s1 = SEC_BODY_CHUNK then trailer_prep s1 else s1)
              else s1)))"

definition is_body :: "section_type \<Rightarrow> bool" where
  "is_body t \<longleftrightarrow> t = SEC_BODY_CHUNK \<or> t = SEC_BODY_CL \<or> t = SEC_BODY_OLD"

text \<open>The end of a section; the size of the buffer is a 16-bit number.\<close>

definition reassemble_tail :: "nat \<Rightarrow> 'z http_half \<Rightarrow> (bytes option \<times> 'z http_half) option" where
  "reassemble_tail tot s =
     (if running_total s \<noteq> tot then None
      else
        (let size = nat ((int (section_offset s) - int (num_excess s)) mod 2 ^ 16);
             buf = (case section_buffer s of None \<Rightarrow> [] | Some b \<Rightarrow> b);
             s1 = s\<lparr>running_total := 0, section_buffer := None, section_offset := 0\<rparr>
         in Some (if size > 0 then (Some (take size buf), s1\<lparr>zero_byte_workaround := False\<rparr>)
                  else (Some [0], s1\<lparr>zero_byte_workaround := True\<rparr>))))"

definition reassemble ::
    "'z zlib \<Rightarrow> bool \<Rightarrow> bool \<Rightarrow> nat \<Rightarrow> bytes \<Rightarrow> bool \<Rightarrow> 'z http_half \<Rightarrow> (bytes option \<times> 'z http_half) option" where
  "reassemble zl server final tot0 data0 tail s0 =
     (if section_type s0 = SEC__NOT_COMPUTE then Some (None, s0)
      else if tot0 > MAX_OCTETS then None
      else
        (let good = (octets_expected s0 = tot0 \<or> \<not> strict_length s0 \<and> tot0 \<le> octets_expected s0);
             tot = (if good then tot0 else 0);
             data = (if good then data0 else [])
         in if \<not> good \<and> octets_expected s0 \<noteq> 0 then Some (None, s0)
            else
              (let s1 = s0\<lparr>running_total := running_total s0 + length data\<rparr>
               in if running_total s1 > tot then None
                  else if section_type s1 = SEC_DISCARD then reassemble_discard server final tot tail s1
                  else if section_buffer s1 \<noteq> None \<and> section_total s1 \<noteq> tot then None
                  else
                    (let s2 = (if section_buffer s1 = None then s1\<lparr>section_buffer := Some [], section_total := tot\<rparr> else s1)
                     in case (if section_type s2 \<noteq> SEC_BODY_CHUNK then Some (decompress_copy zl (body_start s2) data s2)
                              else chunk_spray zl data s2) of
                          None \<Rightarrow> None
                        | Some s3 \<Rightarrow> if tail then reassemble_tail tot s3 else Some (None, s3)))))"

section \<open>The end of the connection\<close>

text \<open>
  \<^verbatim>\<open>finish\<close>. The end of file processing for a body whose octets have all been flushed is a call of the file or MIME
  processor; of it the model keeps that the MIME state is deleted.
\<close>

definition finish :: "'z http_half \<Rightarrow> bool \<times> 'z http_half" where
  "finish s0 =
     (if type_expected s0 = SEC_ABORT then (False, s0)
      else
        (let s = s0\<lparr>tcp_close := True\<rparr>; idle = (section_type s = SEC__NOT_COMPUTE)
         in case hcutter s of
              Some c \<Rightarrow>
                (if idle \<and> octets_seen (base c) > 0 then
                   (if type_expected s = SEC_REQUEST \<or> type_expected s = SEC_STATUS then
                      (False, half_event INF_PARTIAL_START EVENT_LOSS_OF_SYNC s)
                    else
                      (True, (prepare_flush (type_expected s) 0 (num_crlf (base c)) (get_num_head_lines c) (get_is_broken_chunk c)
                         (get_num_good_chunks c) (octets_seen (base c)) True s)\<lparr>hcutter := None\<rparr>))
                 else if idle \<and> file_depth_remaining s > 0 \<and> octets_seen (base c) = 0 then (False, s\<lparr>mime_state := False\<rparr>)
                 else (\<not> idle, s))
            | None \<Rightarrow>
                (if type_expected s \<in> {SEC_HEADER, SEC_BODY_CL, SEC_BODY_CHUNK, SEC_BODY_OLD} \<and> idle then
                   (True, prepare_flush (type_expected s) 0 0 0 False 0 0 True s)
                 else (\<not> idle, s))))"

section \<open>Section sizes\<close>

text \<open>
  \<^verbatim>\<open>HttpMsgSection::update_depth\<close>, which chooses the target for the next section: \<open>max_pdu\<close> is configured and
  \<open>random_increment\<close> is a pseudo random number between \<open>-64\<close> and \<open>63\<close>.
\<close>

definition update_depth :: "u32 \<Rightarrow> int \<Rightarrow> 'z http_half \<Rightarrow> 'z http_half" where
  "update_depth max_pdu random_increment s0 =
     (let s = (if detect_depth_remaining s0 \<le> 0 \<and> detection_status s0 = DET_ON
               then s0\<lparr>detection_status := DET_DEACTIVATING\<rparr> else s0)
      in if detect_depth_remaining s \<le> 0 then
           (if file_depth_remaining s \<le> 0 then s\<lparr>section_size_target := 0\<rparr>
            else s\<lparr>section_size_target := max_pdu, stretch_section_to_packet := True\<rparr>)
         else
           (let target_size = (if compression s = CMP_NONE then max_pdu else 2048)
            in if detect_depth_remaining s \<le> uint target_size then
                 s\<lparr>section_size_target := word_of_int (detect_depth_remaining s), stretch_section_to_packet := True\<rparr>
               else s\<lparr>section_size_target := target_size + word_of_int random_increment, stretch_section_to_packet := False\<rparr>))"

end
