(* ===== verification/Http_Roundtrip.thy ===== *)
theory Http_Roundtrip
  imports Http_Splitter
begin

text \<open>
  Chunked bodies from end to end: the cutter finds the end of a chunked body as the sender encoded it, and
  reassembly gives back the data of the chunks.
\<close>

section \<open>The chunked transfer coding\<close>

definition hex_digit :: "nat \<Rightarrow> u8" where
  "hex_digit d = (if d < 10 then of_nat (48 + d) else of_nat (87 + d))"

fun hex_number :: "nat \<Rightarrow> nat list" where
  "hex_number n = (if n < 16 then [n] else hex_number (n div 16) @ [n mod 16])"

declare hex_number.simps [simp del]

definition chunk_encode :: "bytes \<Rightarrow> bytes" where
  "chunk_encode d = map hex_digit (hex_number (length d)) @ [13, 10] @ d @ [13, 10]"

definition body_encode :: "bytes list \<Rightarrow> bytes" where
  "body_encode ds = concat (map chunk_encode ds) @ [48, 13, 10]"

subsection \<open>Numbers\<close>

definition hex_value :: "nat list \<Rightarrow> u32 \<Rightarrow> u32" where
  "hex_value ds e = foldl (\<lambda>v d. v * 16 + of_nat d) e ds"

lemma hex_value_simps [simp]: "hex_value [] e = e" "hex_value (d # ds) e = hex_value ds (e * 16 + of_nat d)"
  by (simp_all add: hex_value_def)

lemma hex_value_number: "hex_value (hex_number n) 0 = of_nat n"
proof (induction n rule: hex_number.induct)
  case (1 n)
  show ?case
  proof (cases "n < 16")
    case True
    then show ?thesis by (subst hex_number.simps) simp
  next
    case False
    have "hex_value (hex_number n) 0 = of_nat (n div 16) * 16 + of_nat (n mod 16)"
      using 1 False by (subst hex_number.simps) (simp add: hex_value_def)
    also have "\<dots> = of_nat (n div 16 * 16 + n mod 16)" by (simp only: of_nat_add of_nat_mult of_nat_numeral)
    finally show ?thesis by simp
  qed
qed

lemma hex_number_digits: "d \<in> set (hex_number n) \<Longrightarrow> d < 16"
  by (induction n rule: hex_number.induct) (subst (asm) (2) hex_number.simps, auto split: if_splits)

lemma hex_number_first: "0 < n \<Longrightarrow> hex_number n \<noteq> [] \<and> hd (hex_number n) \<noteq> 0"
proof (induction n rule: hex_number.induct)
  case (1 n)
  show ?case
  proof (cases "n < 16")
    case True
    with 1 show ?thesis by (subst (1 2) hex_number.simps) simp
  next
    case False
    with 1 have "hex_number (n div 16) \<noteq> [] \<and> hd (hex_number (n div 16)) \<noteq> 0" by simp
    with False show ?thesis by (subst (1 2) hex_number.simps) simp
  qed
qed

lemma length_hex_number: "n < 16 ^ Suc k \<Longrightarrow> length (hex_number n) \<le> Suc k"
proof (induction k arbitrary: n)
  case 0
  then show ?case by (subst hex_number.simps) simp
next
  case (Suc k)
  then have "n div 16 < 16 ^ Suc k" by (simp add: less_mult_imp_div_less ac_simps)
  with Suc.IH show ?case by (subst hex_number.simps) simp
qed

lemma hex_digit_cases:
  assumes "d < 16"
  shows "as_hex (hex_digit d) = int d" "hex_digit d \<notin> {13, 10, 32, 9, 59}" "hex_digit d = 48 \<longleftrightarrow> d = 0"
proof -
  have "\<forall>d\<in>set [0..<16]. as_hex (hex_digit d) = int d \<and> hex_digit d \<notin> {13, 10, 32, 9, 59} \<and> (hex_digit d = 48 \<longleftrightarrow> d = 0)"
    by code_simp
  with assms show "as_hex (hex_digit d) = int d" "hex_digit d \<notin> {13, 10, 32, 9, 59}" "hex_digit d = 48 \<longleftrightarrow> d = 0"
    by auto
qed

section \<open>Cutting\<close>

lemma cut_digits:
  assumes "\<And>d. d \<in> set ds \<Longrightarrow> d < 16" and "digits_seen s + length ds \<le> 8" and "curr_state s = CHUNK_NUMBER"
  shows "chunk_loop dm adj k (map hex_digit ds @ rest) (s, lg) = chunk_loop dm adj (k + length ds) rest
    (s\<lparr>expected := hex_value ds (expected s), digits_seen := digits_seen s + length ds\<rparr>, lg)"
  using assms
proof (induction ds arbitrary: s k)
  case (Cons d ds)
  note c = hex_digit_cases [OF Cons.prems(1) [of d]]
  let ?s = "s\<lparr>expected := expected s * 16 + of_nat d, digits_seen := digits_seen s + 1\<rparr>"
  have "chunk_turn dm adj k (hex_digit d) l (s, lg) = Go 1 (?s, lg)" for l
    using c Cons.prems(2,3) by (auto simp: chunk_turn_def chunk_header_turn_def is_sp_tab_def Let_def)
  then have "chunk_loop dm adj k (map hex_digit (d # ds) @ rest) (s, lg) =
      chunk_loop dm adj (Suc k) (map hex_digit ds @ rest) (?s, lg)" by simp
  also have "\<dots> = chunk_loop dm adj (Suc k + length ds) rest
      (?s\<lparr>expected := hex_value ds (expected ?s), digits_seen := digits_seen ?s + length ds\<rparr>, lg)"
    by (rule Cons.IH) (use Cons.prems in auto)
  finally show ?case by simp
qed simp

text \<open>A cutter between two chunks.\<close>

definition between :: "chunk_cutter \<Rightarrow> bool" where
  "between s \<longleftrightarrow> curr_state s = CHUNK_NEWLINES \<and> expected s = 0 \<and> digits_seen s = 0 \<and> num_zeros s = 0 \<and> num_leading_ws s = 0"

text \<open>The first octet of a chunk header, which is looked at in four states.\<close>

lemma cut_first_digit:
  assumes "c \<notin> {13, 10, 32, 9}" and "between s"
  shows "chunk_loop dm adj k (c # cs) (s, lg) =
    chunk_loop dm adj k (c # cs) (s\<lparr>curr_state := CHUNK_ZEROS\<rparr>, lg)"
proof -
  have "chunk_turn dm adj k c l (s, lg) = Go 0 (s\<lparr>curr_state := CHUNK_LEADING_WS\<rparr>, lg)"
    "chunk_turn dm adj k c l (s\<lparr>curr_state := CHUNK_LEADING_WS\<rparr>, lg) = Go 0 (s\<lparr>curr_state := CHUNK_ZEROS\<rparr>, lg)" for l
    using assms by (auto simp: between_def chunk_turn_def chunk_header_turn_def is_cr_lf_def is_sp_tab_def)
  then show ?thesis by (simp only: chunk_loop.simps turn.case drop_0 add_0_right)
qed


lemma cut_header:
  assumes "between s" and "0 < n" and "n < 2 ^ 32"
  shows "chunk_loop dm adj k (map hex_digit (hex_number n) @ 13 # 10 # rest) (s, lg) =
    chunk_loop dm adj (k + length (hex_number n) + 2) rest
      (s\<lparr>curr_state := CHUNK_DATA, expected := of_nat n, digits_seen := length (hex_number n)\<rparr>, lg)"
proof -
  let ?h = "hex_number n"
  from hex_number_first [OF assms(2)] obtain d ds where h: "?h = d # ds" "d \<noteq> 0" by (cases ?h) auto
  have digits: "x < 16" if "x \<in> set ?h" for x using that by (rule hex_number_digits)
  have len: "length ?h \<le> 8" using length_hex_number [of n 7] assms(3) by simp
  note c = hex_digit_cases [OF digits [of d]]
  let ?z = "s\<lparr>curr_state := CHUNK_ZEROS\<rparr>" and ?n = "s\<lparr>curr_state := CHUNK_NUMBER\<rparr>"
  have f: "chunk_loop dm adj k (map hex_digit ?h @ 13 # 10 # rest) (s, lg) =
      chunk_loop dm adj k (map hex_digit ?h @ 13 # 10 # rest) (?z, lg)"
    unfolding h(1) list.map append_Cons using c(2) h by (intro cut_first_digit [OF _ assms(1)]) auto
  have "chunk_turn dm adj k (hex_digit d) l (?z, lg) = Go 0 (?n, lg)" for l
    using c(3) h by (auto simp: chunk_turn_def chunk_header_turn_def)
  then have z: "chunk_loop dm adj k (map hex_digit ?h @ 13 # 10 # rest) (?z, lg) =
      chunk_loop dm adj k (map hex_digit ?h @ 13 # 10 # rest) (?n, lg)"
    unfolding h(1) list.map append_Cons by (simp only: chunk_loop.simps turn.case drop_0 add_0_right)
  let ?e = "s\<lparr>curr_state := CHUNK_NUMBER, expected := of_nat n, digits_seen := length ?h\<rparr>"
  have v: "hex_value ?h (expected ?n) = of_nat n" "digits_seen ?n = 0"
    using assms(1) by (simp_all add: between_def hex_value_number)
  have n: "chunk_loop dm adj k (map hex_digit ?h @ 13 # 10 # rest) (?n, lg) =
      chunk_loop dm adj (k + length ?h) (13 # 10 # rest) (?e, lg)"
    using cut_digits [of ?h ?n dm adj k "13 # 10 # rest" lg] digits len v by simp
  have p: "(0 :: u32) < of_nat n" using assms(2,3) by (simp add: word_less_nat_alt unat_of_nat take_bit_nat_eq_self)
  have "chunk_loop dm adj j (13 # 10 # rest) (?e, lg) =
      chunk_loop dm adj (j + 2) rest (?e\<lparr>curr_state := CHUNK_DATA\<rparr>, lg)" for j
    using p by (simp add: chunk_turn_def chunk_header_turn_def chunk_hcrlf_turn_def)
  moreover have "?e\<lparr>curr_state := CHUNK_DATA\<rparr> =
      s\<lparr>curr_state := CHUNK_DATA, expected := of_nat n, digits_seen := length ?h\<rparr>" by simp
  ultimately show ?thesis unfolding f z n by (simp only: add.assoc)
qed

lemma cut_data:
  assumes "curr_state s = CHUNK_DATA" and "expected s = of_nat (length d)" and "d \<noteq> []" and "length d < 2 ^ 32"
    and "unat (data_seen s) + length d < unat adj"
  shows "chunk_loop False adj k (d @ rest) (s, lg) = chunk_loop False adj (k + length d) rest
    (s\<lparr>curr_state := CHUNK_DCRLF1, expected := 0, data_seen := data_seen s + of_nat (length d)\<rparr>, lg)"
proof -
  from assms(3) obtain c cs where d: "d = c # cs" by (cases d) auto
  have e: "unat (expected s) = length d" using assms(2,4) by (simp add: unat_of_nat take_bit_nat_eq_self)
  have a: "unat (adj - data_seen s) = unat adj - unat (data_seen s)"
    using assms(5) by (intro unat_sub) (simp add: word_le_nat_alt)
  have "unat (data_seen s) + length d < 2 ^ 32" using assms(5) unat_u32_less [of adj] by simp
  then have "unat (data_seen s + of_nat (length d)) = unat (data_seen s) + length d"
    using assms(4) by (simp add: unat_word_ariths unat_of_nat take_bit_nat_eq_self)
  with assms(5) have ne: "data_seen s + of_nat (length d) \<noteq> adj" by auto
  have "min (length (d @ rest)) (min (unat (expected s)) (unat (adj - data_seen s))) = length d"
    using e a assms(5) by auto
  then have "chunk_turn False adj k c (length (d @ rest)) (s, lg) = data_skip adj k (length d) (s, lg)"
    using assms(1) by (simp add: chunk_turn_def chunk_data_turn_skip)
  also have "\<dots> = Go (length d)
      (s\<lparr>curr_state := CHUNK_DCRLF1, expected := 0, data_seen := data_seen s + of_nat (length d)\<rparr>, lg)"
    using ne assms(2) by (simp add: data_skip_def Let_def)
  finally have t: "chunk_turn False adj k c (length (d @ rest)) (s, lg) = Go (length d)
      (s\<lparr>curr_state := CHUNK_DCRLF1, expected := 0, data_seen := data_seen s + of_nat (length d)\<rparr>, lg)" .
  have "chunk_loop False adj k (d @ rest) (s, lg) = (case chunk_turn False adj k c (length (d @ rest)) (s, lg) of
      Return r y \<Rightarrow> (r, y) | Go n y \<Rightarrow> chunk_loop False adj (k + n) (drop n (d @ rest)) y)"
    unfolding d append_Cons by (rule chunk_loop.simps(2))
  with t show ?thesis by simp
qed

lemma cut_chunk:
  assumes "between s" and "d \<noteq> []" and "length d < 2 ^ 32" and "unat (data_seen s) + length d < unat adj"
  shows "chunk_loop False adj k (chunk_encode d @ rest) (s, lg) = chunk_loop False adj (k + length (chunk_encode d)) rest
    (s\<lparr>data_seen := data_seen s + of_nat (length d), num_good_chunks := num_good_chunks s + 1\<rparr>, lg)"
proof -
  let ?n = "length d"
  let ?s1 = "s\<lparr>curr_state := CHUNK_DATA, expected := of_nat ?n, digits_seen := length (hex_number ?n)\<rparr>"
  let ?s2 = "?s1\<lparr>curr_state := CHUNK_DCRLF1, expected := 0, data_seen := data_seen s + of_nat ?n\<rparr>"
  let ?s3 = "s\<lparr>data_seen := data_seen s + of_nat ?n, num_good_chunks := num_good_chunks s + 1\<rparr>"
  have "chunk_loop False adj k (chunk_encode d @ rest) (s, lg) =
      chunk_loop False adj (k + length (hex_number ?n) + 2) (d @ 13 # 10 # rest) (?s1, lg)"
    using cut_header [OF assms(1), of ?n False adj k "d @ 13 # 10 # rest" lg] assms(2,3) by (simp add: chunk_encode_def)
  also have "\<dots> = chunk_loop False adj (k + length (hex_number ?n) + 2 + ?n) (13 # 10 # rest) (?s2, lg)"
    using cut_data [of ?s1 d adj "k + length (hex_number ?n) + 2" "13 # 10 # rest" lg] assms by simp
  also have "\<dots> = chunk_loop False adj (k + length (hex_number ?n) + 2 + ?n + 2) rest (?s3, lg)"
  proof -
    let ?s4 = "?s2\<lparr>curr_state := CHUNK_DCRLF2, num_good_chunks := num_good_chunks s + 1, num_leading_ws := 0, num_zeros := 0,
      expected := 0, digits_seen := 0, curr_state := CHUNK_NEWLINES\<rparr>"
    have "?s4 = ?s3" using assms(1) by (cases s) (simp add: between_def)
    moreover have "chunk_loop False adj j (13 # 10 # rest) (?s2, lg) = chunk_loop False adj (j + 2) rest (?s4, lg)" for j
      by (simp add: chunk_turn_def chunk_dcrlf_turn_def Let_def)
    ultimately show ?thesis by (simp only:)
  qed
  finally show ?thesis by (simp add: chunk_encode_def ac_simps)
qed

lemma cut_body:
  assumes "between s" and "\<And>d. d \<in> set ds \<Longrightarrow> d \<noteq> []" and "unat (data_seen s) + length (concat ds) < unat adj"
  shows "\<exists>s'. chunk_loop False adj k (body_encode ds @ rest) (s, lg) = (SCAN_FOUND, s', lg) \<and>
    num_flush s' = k + length (body_encode ds) \<and> num_good_chunks s' = num_good_chunks s + length ds + 1 \<and>
    octets_seen s' = octets_seen s"
  using assms
proof (induction ds arbitrary: s k)
  case Nil
  let ?z = "s\<lparr>curr_state := CHUNK_ZEROS\<rparr>"
  have "chunk_loop False adj k (body_encode [] @ rest) (s, lg) = chunk_loop False adj k (48 # 13 # 10 # rest) (?z, lg)"
    using cut_first_digit [OF _ Nil.prems(1), of 48 False adj k "13 # 10 # rest" lg] by (simp add: body_encode_def)
  then show ?case
    using Nil.prems(1) by (simp add: chunk_turn_def chunk_header_turn_def chunk_hcrlf_turn_def between_def Let_def body_encode_def)
next
  case (Cons d ds)
  let ?s = "s\<lparr>data_seen := data_seen s + of_nat (length d), num_good_chunks := num_good_chunks s + 1\<rparr>"
  have lt: "unat (data_seen s) + length d < unat adj" "length d < 2 ^ 32"
    using Cons.prems(3) unat_u32_less [of adj] by simp_all
  then have sum: "unat (data_seen ?s) = unat (data_seen s) + length d"
    using unat_u32_less [of adj] by (simp add: unat_word_ariths unat_of_nat take_bit_nat_eq_self)
  have "chunk_loop False adj k (body_encode (d # ds) @ rest) (s, lg) =
      chunk_loop False adj (k + length (chunk_encode d)) (body_encode ds @ rest) (?s, lg)"
    using cut_chunk [OF Cons.prems(1) Cons.prems(2) lt(2,1), of k "body_encode ds @ rest" lg] by (simp add: body_encode_def)
  moreover have "between ?s" using Cons.prems(1) by (simp add: between_def)
  moreover have "unat (data_seen ?s) + length (concat ds) < unat adj" using Cons.prems(3) sum by simp
  ultimately show ?case
    using Cons.IH [of ?s "k + length (chunk_encode d)"] Cons.prems(2) by (simp add: body_encode_def) (simp add: ac_simps)
qed

section \<open>Reassembling\<close>

text \<open>A flow that collects an uncompressed chunked body and is between two chunks.\<close>

definition collecting :: "bytes \<Rightarrow> 'z http_half \<Rightarrow> bool" where
  "collecting b h \<longleftrightarrow> chunk_state h = CHUNK_NEWLINES \<and> chunk_expected_length h = 0 \<and> \<not> is_broken_chunk h \<and>
     compression h = CMP_NONE \<and> section_buffer h = Some b \<and> section_offset h = length b"

definition with_data :: "bytes \<Rightarrow> 'z http_half \<Rightarrow> 'z http_half" where
  "with_data b h = h\<lparr>section_buffer := Some b, section_offset := length b\<rparr>"

lemma copy_append:
  assumes "compression h = CMP_NONE" and "section_buffer h = Some b" and "section_offset h = length b"
    and "length b + length d \<le> MAX_OCTETS"
  shows "decompress_copy zl a d h = with_data (b @ d) h"
  using assms by (simp add: decompress_copy_def decompress_once_def plain_copy_def put_data_def buf_write_def with_data_def)

lemma spray_digits:
  assumes "\<And>d. d \<in> set ds \<Longrightarrow> d < 16" and "chunk_state h = CHUNK_NUMBER"
  shows "spray_loop zl (map hex_digit ds @ rest) h =
    spray_loop zl rest (h\<lparr>chunk_expected_length := hex_value ds (chunk_expected_length h)\<rparr>)"
  using assms
proof (induction ds arbitrary: h)
  case (Cons d ds)
  note c = hex_digit_cases [OF Cons.prems(1) [of d]]
  let ?h = "h\<lparr>chunk_expected_length := chunk_expected_length h * 16 + of_nat d\<rparr>"
  have "spray_turn zl (hex_digit d) cs h = Some (1, ?h)" for cs
    using c Cons.prems(2) by (auto simp: spray_turn_def is_sp_tab_def)
  then have "spray_loop zl (map hex_digit (d # ds) @ rest) h = spray_loop zl (map hex_digit ds @ rest) ?h" by simp
  also have "\<dots> = spray_loop zl rest (?h\<lparr>chunk_expected_length := hex_value ds (chunk_expected_length ?h)\<rparr>)"
    by (rule Cons.IH) (use Cons.prems in auto)
  finally show ?case by simp
qed simp

lemma spray_chunk:
  assumes h: "collecting b h" and d: "d \<noteq> []" "length b + length d \<le> MAX_OCTETS"
  shows "spray_loop zl (chunk_encode d @ rest) h = spray_loop zl rest (with_data (b @ d) h)"
proof -
  let ?n = "length d"
  have n: "0 < ?n" "?n < 2 ^ 32" using d by (simp_all add: MAX_OCTETS_def)
  from hex_number_first [OF n(1)] obtain x xs where hx: "hex_number ?n = x # xs" by (cases "hex_number ?n") auto
  have digits: "x < 16" if "x \<in> set (hex_number ?n)" for x using that by (rule hex_number_digits)
  have "hex_digit x \<notin> {13, 10, 32, 9, 59}" using digits hx by (intro hex_digit_cases(2)) simp
  then have "spray_turn zl (hex_digit x) cs h = Some (0, h\<lparr>chunk_state := CHUNK_NUMBER\<rparr>)" for cs
    using h by (auto simp: collecting_def spray_turn_def is_sp_tab_cr_lf_def)
  then have 1: "spray_loop zl (chunk_encode d @ rest) h = spray_loop zl (chunk_encode d @ rest) (h\<lparr>chunk_state := CHUNK_NUMBER\<rparr>)"
    unfolding chunk_encode_def hx list.map append_Cons append_assoc
    by (simp only: spray_loop.simps option.case prod.case drop_0)
  let ?h1 = "h\<lparr>chunk_state := CHUNK_NUMBER, chunk_expected_length := of_nat ?n\<rparr>"
  let ?h2 = "h\<lparr>chunk_state := CHUNK_DATA, chunk_expected_length := of_nat ?n\<rparr>"
  have 2: "spray_loop zl (chunk_encode d @ rest) (h\<lparr>chunk_state := CHUNK_NUMBER\<rparr>) = spray_loop zl (13 # 10 # d @ 13 # 10 # rest) ?h1"
    using spray_digits [of "hex_number ?n" "h\<lparr>chunk_state := CHUNK_NUMBER\<rparr>" zl "13 # 10 # d @ 13 # 10 # rest"] digits h
    by (simp add: chunk_encode_def collecting_def hex_value_number)
  have p: "(0 :: u32) < of_nat ?n" using n by (simp add: word_less_nat_alt unat_of_nat take_bit_nat_eq_self)
  have u: "unat (of_nat ?n :: u32) = ?n" using n(2) by (simp add: unat_of_nat take_bit_nat_eq_self)
  let ?hc = "h\<lparr>chunk_state := CHUNK_HCRLF, chunk_expected_length := of_nat ?n\<rparr>"
  have "spray_turn zl 13 cs ?h1 = Some (1, ?hc)" "spray_turn zl 10 cs ?hc = Some (1, ?h2)" for cs
    using p by (simp_all add: spray_turn_def)
  then have 3: "spray_loop zl (13 # 10 # d @ 13 # 10 # rest) ?h1 = spray_loop zl (d @ 13 # 10 # rest) ?h2" by simp
  from d(1) obtain c cs where c: "d = c # cs" by (cases d) auto
  let ?h3 = "with_data (b @ d) (h\<lparr>chunk_state := CHUNK_DCRLF1, chunk_expected_length := 0\<rparr>)"
  let ?h4 = "with_data (b @ d) (h\<lparr>chunk_state := CHUNK_DCRLF2, chunk_expected_length := 0\<rparr>)"
  have copy: "decompress_copy zl a d ?h2 = with_data (b @ d) ?h2" for a
    using h d by (intro copy_append) (simp_all add: collecting_def)
  have "take ?n (c # cs @ 13 # 10 # rest) = d" "length (c # cs @ 13 # 10 # rest) = Suc (Suc (?n + length rest))"
    by (simp_all add: c)
  then have turn: "spray_turn zl c (cs @ 13 # 10 # rest) ?h2 = Some (?n, ?h3)"
    using u copy unfolding spray_turn_def Let_def by (simp add: with_data_def)
  have 4: "spray_loop zl (d @ 13 # 10 # rest) ?h2 = spray_loop zl (13 # 10 # rest) ?h3"
  proof -
    have "spray_loop zl (d @ 13 # 10 # rest) ?h2 = (case spray_turn zl c (cs @ 13 # 10 # rest) ?h2 of
        None \<Rightarrow> None | Some (n, t) \<Rightarrow> spray_loop zl (drop n (d @ 13 # 10 # rest)) t)"
      unfolding c append_Cons by (rule spray_loop.simps(2))
    also have "\<dots> = spray_loop zl (13 # 10 # rest) ?h3" using turn by simp
    finally show ?thesis .
  qed
  have "with_data (b @ d) (h\<lparr>chunk_state := CHUNK_NEWLINES, chunk_expected_length := 0\<rparr>) = with_data (b @ d) h"
    using h by (cases h) (simp add: with_data_def collecting_def)
  moreover have "spray_turn zl 13 cs ?h3 = Some (1, ?h4)"
    "spray_turn zl 10 cs ?h4 = Some (1, with_data (b @ d) (h\<lparr>chunk_state := CHUNK_NEWLINES, chunk_expected_length := 0\<rparr>))" for cs
    using h by (simp_all add: spray_turn_def with_data_def collecting_def is_cr_lf_def Let_def)
  ultimately have 5: "spray_loop zl (13 # 10 # rest) ?h3 = spray_loop zl rest (with_data (b @ d) h)" by simp
  show ?thesis unfolding 1 2 3 4 5 ..
qed

lemma with_data_simps:
  "with_data b' (with_data b h) = with_data b' h"
  "collecting b h \<Longrightarrow> with_data b h = h" "collecting b h \<Longrightarrow> collecting b' (with_data b' h)"
  by (cases h, simp_all add: with_data_def collecting_def)+

lemma spray_body:
  assumes "collecting b h" and "\<And>d. d \<in> set ds \<Longrightarrow> d \<noteq> []" and "length b + length (concat ds) \<le> MAX_OCTETS"
  shows "spray_loop zl (body_encode ds) h = Some (with_data (b @ concat ds) h)"
  using assms
proof (induction ds arbitrary: b h)
  case Nil
  let ?n = "h\<lparr>chunk_state := CHUNK_NUMBER, chunk_expected_length := 0\<rparr>"
  let ?c = "h\<lparr>chunk_state := CHUNK_HCRLF, chunk_expected_length := 0\<rparr>"
  have k: "h\<lparr>chunk_state := CHUNK_NEWLINES, chunk_expected_length := 0\<rparr> = h" "h\<lparr>chunk_state := CHUNK_NUMBER\<rparr> = ?n"
    using Nil.prems(1) by (cases h, simp add: collecting_def)+
  have "as_hex 48 = 0" by (simp add: as_hex_def)
  then have "spray_turn zl 48 [13, 10] h = Some (0, ?n)" "spray_turn zl 48 [13, 10] ?n = Some (1, ?n)"
    "spray_turn zl 13 [10] ?n = Some (1, ?c)" "spray_turn zl 10 [] ?c = Some (1, h)"
    using Nil.prems(1) k by (simp_all add: spray_turn_def collecting_def is_sp_tab_cr_lf_def is_sp_tab_def)
  with Nil.prems(1) show ?case by (simp add: body_encode_def with_data_simps)
next
  case (Cons d ds)
  have "spray_loop zl (body_encode (d # ds)) h = spray_loop zl (body_encode ds) (with_data (b @ d) h)"
    using spray_chunk [OF Cons.prems(1), of d zl "body_encode ds"] Cons.prems(2,3) by (simp add: body_encode_def)
  also have "\<dots> = Some (with_data ((b @ d) @ concat ds) (with_data (b @ d) h))"
    by (rule Cons.IH) (use Cons.prems in \<open>auto intro: with_data_simps\<close>)
  finally show ?case by (simp add: with_data_simps)
qed


text \<open>
  Skipping a body can stop in the middle. When the detection depth and the file depth are used up while stretching is
  on, \<^verbatim>\<open>update_depth\<close> asks for the rest of the body to be skipped but leaves stretching on. The chunk cutter then compares the
  data it has skipped with \<^verbatim>\<open>MAX_SECTION_STRETCH\<close>: after a chunk of exactly that size it reports a section for inspection,
  although it is skipping the body.
\<close>

theorem chunk_discard_reports_piece:
  assumes "stretch_section_to_packet h" and "detect_depth_remaining h \<le> 0" and "file_depth_remaining h \<le> 0"
    and "between s" and "data_seen s = 0" and "length d = MAX_SECTION_STRETCH"
    and "h' = update_depth max_pdu r h"
  shows "section_size_target h' = 0 \<and>
    fst (chunk_cut (section_size_target h') (stretch_section_to_packet h') (chunk_encode d @ rest) (s, lg)) = SCAN_FOUND_PIECE"
proof -
  have h: "section_size_target h' = 0" "stretch_section_to_packet h'"
    using assms(1-3) by (simp_all add: assms(7) update_depth_def Let_def)
  let ?s = "s\<lparr>curr_state := CHUNK_DATA, expected := of_nat (length d), digits_seen := length (hex_number (length d))\<rparr>"
  have n: "length d = 1460" "0 < length d" "length d < 2 ^ 32" using assms(6) by (simp_all add: MAX_SECTION_STRETCH_def)
  from n(2) obtain c cs where d: "d = c # cs" by (cases d) auto
  have u: "unat (of_nat (length d) :: u32) = length d" by (simp add: n(1))
  have "chunk_turn True 1460 k c (length (c # cs @ 13 # 10 # rest)) (?s, lg) =
      Return SCAN_FOUND_PIECE (?s\<lparr>expected := 0, curr_state := CHUNK_DCRLF1, data_seen := 0, num_flush := k + length d\<rparr>, lg)" for k
    using n(1) assms(5) d by (simp add: chunk_turn_def chunk_data_turn_def Let_def)
  then have "fst (chunk_loop True 1460 k (d @ 13 # 10 # rest) (?s, lg)) = SCAN_FOUND_PIECE" for k
    by (simp add: d)
  then have "fst (chunk_loop True 1460 0 (chunk_encode d @ rest) (s, lg)) = SCAN_FOUND_PIECE"
    using cut_header [OF assms(4) n(2,3), of True 1460 0 "d @ 13 # 10 # rest" lg] by (simp add: chunk_encode_def)
  then show ?thesis using h by (simp add: chunk_cut_def at_end_def MAX_SECTION_STRETCH_def)
qed

theorem chunk_discard_reports_piece_witness:
  "fst (chunk_cut 0 True (chunk_encode (replicate 1460 88)) (chunk_new, \<lparr>infractions = {}, events = {}\<rparr>)) = SCAN_FOUND_PIECE"
proof -
  let ?h = "(half_new SEC_STATUS)\<lparr>stretch_section_to_packet := True, type_expected := SEC_BODY_CHUNK\<rparr> :: unit http_half"
  have a: "stretch_section_to_packet ?h" "detect_depth_remaining ?h \<le> 0" "file_depth_remaining ?h \<le> 0"
    "between chunk_new" "data_seen chunk_new = 0" "length (replicate 1460 88) = MAX_SECTION_STRETCH"
    by (simp_all add: half_new_def STAT_NOT_PRESENT_def between_def chunk_new_def MAX_SECTION_STRETCH_def)
  have "section_size_target (update_depth 16384 0 ?h) = 0" "stretch_section_to_packet (update_depth 16384 0 ?h)"
    by (simp_all add: update_depth_def half_new_def STAT_NOT_PRESENT_def)
  with chunk_discard_reports_piece [OF a refl, of 16384 0 "[]" "\<lparr>infractions = {}, events = {}\<rparr>"] show ?thesis by simp
qed

definition no_zlib :: "unit zlib" where
  "no_zlib = \<lparr>inflate = \<lambda>z d n. (Z_OTHER, length d, [], z), inflate_reset = id\<rparr>"


end
