(* ===== verification/Http_Scan.thy ===== *)
theory Http_Scan
  imports Http_Roundtrip
begin

text \<open>
  The splitter as a whole: scanning never fails an assertion and keeps the number of octets that wait for a decision
  below \<^verbatim>\<open>MAX_OCTETS\<close>, and a section that was cut is given to the inspector without its separator.
\<close>

section \<open>Octets that wait for a decision\<close>

lemma scan_octets_keeps:
  assumes "\<And>k c s r t. turn k c s = Return r t \<Longrightarrow> f t = f s" and "\<And>k c s n t. turn k c s = Go n t \<Longrightarrow> f t = f s"
  shows "f (snd (scan_octets turn k xs s)) = f s"
  using assms by (induction xs arbitrary: k s) (auto split: turn.split)

lemma start_octet_octets: "start_octet kind b k c x = Return r y \<Longrightarrow> octets_seen (fst y) = octets_seen (fst x)"
  "start_octet kind b k c x = Go n y \<Longrightarrow> octets_seen (fst y) = octets_seen (fst x)"
  by (cases x; auto simp: start_octet_def start_line_octet_def Let_def split: if_splits prod.splits validation_result.splits
      dest!: validate_keeps)+

lemma header_octet_octets: "header_octet k c x = Return r y \<Longrightarrow> octets_seen (fst y) = octets_seen (fst x)"
  "header_octet k c x = Go n y \<Longrightarrow> octets_seen (fst y) = octets_seen (fst x)"
  by (cases x; auto simp: header_octet_def Let_def split: if_splits line_end_state.splits)+

lemma chunk_turn_octets: "chunk_turn d adj k c l x = Return r y \<Longrightarrow> octets_seen (fst y) = octets_seen (fst x)"
  "chunk_turn d adj k c l x = Go n y \<Longrightarrow> octets_seen (fst y) = octets_seen (fst x)"
  by (cases x; cases "curr_state (fst x)"; auto simp: chunk_turn_def chunk_header_turn_def chunk_hcrlf_turn_def
      chunk_data_turn_def chunk_dcrlf_turn_def chunk_bad_turn_def broken_def Let_def split: if_splits)+

lemma chunk_loop_octets: "octets_seen (fst (snd (chunk_loop d adj k cs x))) = octets_seen (fst x)"
  by (induction d adj k cs x rule: chunk_loop.induct) (auto simp: chunk_turn_octets split: turn.split)

lemma cutter_cut_octets:
  assumes "cutter_cut t st b c lg = (r, c', lg')"
  shows "octets_seen (base c') = (if r = SCAN_NOT_FOUND then octets_seen (base c) + length b else octets_seen (base c))"
proof (cases c)
  case (StartC k s)
  obtain q u l where p: "scan_octets (start_octet k b) 0 b (s, lg) = (q, u, l)" by (metis prod_cases3)
  have "octets_seen u = octets_seen s"
    using scan_octets_keeps [of "start_octet k b" "\<lambda>x. octets_seen (fst x)" 0 b "(s, lg)"] start_octet_octets p by auto
  with assms StartC p show ?thesis by (auto simp: start_cut_def at_end_def split: if_splits)
next
  case (HeaderC s)
  obtain q u l where p: "scan_octets header_octet 0 b (s, lg) = (q, u, l)" by (metis prod_cases3)
  have "octets_seen u = octets_seen s"
    using scan_octets_keeps [of header_octet "\<lambda>x. octets_seen (fst x)" 0 b "(s, lg)"] header_octet_octets p by auto
  with assms HeaderC p show ?thesis by (auto simp: header_cut_def at_end_def split: if_splits)
next
  case (ClC s)
  with assms show ?thesis by (auto simp: cl_cut_def Let_def split: if_splits)
next
  case (OldC s)
  with assms show ?thesis by (auto simp: old_cut_def Let_def split: if_splits)
next
  case (ChunkC s)
  let ?adj = "if st then of_nat MAX_SECTION_STRETCH + t else t"
  obtain q u l where p: "chunk_loop (t = 0) ?adj 0 b (s, lg) = (q, u, l)" by (metis prod_cases3)
  have "octets_seen u = octets_seen s" using chunk_loop_octets [of "t = 0" ?adj 0 b "(s, lg)"] p by simp
  moreover have "chunk_cut t st b (s, lg) = at_end (q, u, l) (\<lambda>(s, lg).
      if t = 0 then (SCAN_DISCARD_PIECE, s\<lparr>num_flush := length b\<rparr>, lg)
      else if data_seen s \<ge> t then (SCAN_FOUND_PIECE, s\<lparr>data_seen := 0, num_flush := length b\<rparr>, lg)
      else (SCAN_NOT_FOUND, add_octets (length b) s, lg))" unfolding chunk_cut_def Let_def p ..
  ultimately show ?thesis using assms ChunkC by (auto simp: at_end_def split: if_splits)
qed

text \<open>The kind of result fits the kind of cutter: only bodies are flushed in pieces.\<close>

fun is_body_cutter :: "cutter \<Rightarrow> bool" where
  "is_body_cutter (StartC k c) \<longleftrightarrow> False"
| "is_body_cutter (HeaderC c) \<longleftrightarrow> False"
| "is_body_cutter _ \<longleftrightarrow> True"

lemma start_octet_result: "start_octet kind b k c x = Return r y \<Longrightarrow> r \<in> {SCAN_FOUND, SCAN_DISCARD, SCAN_ABORT}"
  by (cases x) (auto simp: start_octet_def start_line_octet_def Let_def split: if_splits prod.splits validation_result.splits)

lemma header_octet_result: "header_octet k c x = Return r y \<Longrightarrow> r = SCAN_FOUND"
  by (cases x) (auto simp: header_octet_def Let_def split: if_splits line_end_state.splits)

lemma scan_octets_result:
  "(\<And>k c s r t. turn k c s = Return r t \<Longrightarrow> r \<in> R) \<Longrightarrow> fst (scan_octets turn k xs s) \<in> insert SCAN_NOT_FOUND R"
  by (induction xs arbitrary: k s) (auto split: turn.split)

lemma cutter_cut_piece:
  assumes "cutter_cut t st b c lg = (r, c', lg')" and "r \<in> {SCAN_FOUND_PIECE, SCAN_DISCARD_PIECE}"
  shows "octets_seen (base (cutter_soft_reset c')) = 0"
proof -
  have "is_body_cutter c'"
  proof (cases c)
    case (StartC k s)
    have "fst (scan_octets (start_octet k b) 0 b (s, lg)) \<in> insert SCAN_NOT_FOUND {SCAN_FOUND, SCAN_DISCARD, SCAN_ABORT}"
      by (rule scan_octets_result) (rule start_octet_result)
    with assms StartC show ?thesis by (auto simp: start_cut_def at_end_def split: prod.splits if_splits)
  next
    case (HeaderC s)
    have "fst (scan_octets header_octet 0 b (s, lg)) \<in> insert SCAN_NOT_FOUND {SCAN_FOUND}"
      by (rule scan_octets_result) (simp add: header_octet_result)
    with assms HeaderC show ?thesis by (auto simp: header_cut_def at_end_def split: prod.splits if_splits)
  qed (use assms in \<open>auto split: prod.splits\<close>)
  then show ?thesis by (cases c') (simp_all add: soft_reset_def chunk_soft_reset_def)
qed

section \<open>Scanning\<close>

text \<open>A state in which the splitter can be called, as the inspector leaves it.\<close>

definition scan_ok :: "'z http_half \<Rightarrow> bool" where
  "scan_ok s \<longleftrightarrow>
     type_expected s \<in> {SEC_ABORT, SEC_REQUEST, SEC_STATUS, SEC_HEADER, SEC_BODY_CL, SEC_BODY_CHUNK, SEC_TRAILER, SEC_BODY_OLD} \<and>
     (type_expected s = SEC_BODY_CL \<longrightarrow> 0 < data_length s) \<and>
     (\<forall>c. hcutter s = Some c \<longrightarrow> octets_seen (base c) < MAX_OCTETS)"

lemma get_cutter_ok: "get_cutter t n = Some c \<Longrightarrow> octets_seen (base c) = 0"
  by (cases t) (auto simp: start_new_def header_new_def cl_new_def chunk_new_def http_cutter_new_def split: if_splits)

lemma after_cut_ok:
  assumes "cutter_cut t st (take (MAX_OCTETS - octets_seen (base c)) data) c lg = (r, c', lg')"
    and "octets_seen (base c) < MAX_OCTETS" and "scan_ok s"
  shows "scan_ok (snd (after_cut type data r c' (s\<lparr>hlog := lg'\<rparr>)))"
    "tcp_close (snd (after_cut type data r c' (s\<lparr>hlog := lg'\<rparr>))) = tcp_close s"
    "expected_trans_num (snd (after_cut type data r c' (s\<lparr>hlog := lg'\<rparr>))) = expected_trans_num s"
proof -
  let ?b = "take (MAX_OCTETS - octets_seen (base c)) data"
  note o = cutter_cut_octets [OF assms(1)]
  note p = cutter_cut_piece [OF assms(1)]
  have "octets_seen (base c') \<le> MAX_OCTETS" using o assms(2) by (auto simp: min_def split: if_splits)
  then show "scan_ok (snd (after_cut type data r c' (s\<lparr>hlog := lg'\<rparr>)))"
    using assms(3) p by (cases r) (auto simp: after_cut_def scan_ok_def prepare_flush_def MAX_OCTETS_def)
  show "tcp_close (snd (after_cut type data r c' (s\<lparr>hlog := lg'\<rparr>))) = tcp_close s"
    "expected_trans_num (snd (after_cut type data r c' (s\<lparr>hlog := lg'\<rparr>))) = expected_trans_num s"
    by (cases r; simp add: after_cut_def prepare_flush_def)+
qed

lemma scan_step:
  assumes "scan_ok s" and "\<not> tcp_close s" and "length data \<le> MAX_OCTETS" and "expected_trans_num s \<noteq> zero_nine_expected"
  shows "\<exists>st s'. scan process zero_nine_expected data s = Some (st, s') \<and> scan_ok s' \<and> \<not> tcp_close s' \<and>
    expected_trans_num s' = expected_trans_num s"
proof (cases "type_expected s = SEC_ABORT")
  case True
  with assms show ?thesis by (simp add: scan_def)
next
  case False
  define s1 where "s1 = (if detection_status s = DET_REACTIVATING then s\<lparr>flow_detection := True, detection_status := DET_ON\<rparr> else s)"
  have s1: "scan_ok s1" "tcp_close s1 = tcp_close s" "expected_trans_num s1 = expected_trans_num s"
    "type_expected s1 = type_expected s" "hcutter s1 = hcutter s" "data_length s1 = data_length s"
    using assms(1) by (simp_all add: s1_def scan_ok_def)
  have "\<exists>c. (case hcutter s1 of Some c \<Rightarrow> Some c | None \<Rightarrow> get_cutter (type_expected s) (data_length s1)) = Some c \<and>
    octets_seen (base c) < MAX_OCTETS"
  proof (cases "hcutter s1")
    case None
    have "\<exists>c. get_cutter (type_expected s) (data_length s1) = Some c"
      using assms(1) False s1(6) by (auto simp: scan_ok_def)
    with None show ?thesis by (auto simp: get_cutter_ok MAX_OCTETS_def)
  next
    case (Some c)
    with s1(1) show ?thesis by (simp add: scan_ok_def)
  qed
  then obtain c where c: "(case hcutter s1 of Some c \<Rightarrow> Some c | None \<Rightarrow> get_cutter (type_expected s) (data_length s1)) = Some c"
    "octets_seen (base c) < MAX_OCTETS" by blast
  obtain r c' lg where k: "cutter_cut (section_size_target s1) (stretch_section_to_packet s1)
      (take (MAX_OCTETS - octets_seen (base c)) data) c (hlog s1) = (r, c', lg)" by (metis prod_cases3)
  have "scan process zero_nine_expected data s = Some (after_cut (type_expected s) data r c' (s1\<lparr>hlog := lg\<rparr>))"
    using False assms s1(3) c(1) k by (simp add: scan_def Let_def s1_def [symmetric])
  moreover obtain st s' where a: "after_cut (type_expected s) data r c' (s1\<lparr>hlog := lg\<rparr>) = (st, s')" by fastforce
  ultimately show ?thesis using after_cut_ok [OF k c(2) s1(1), of "type_expected s"] s1(2,3) assms(2) by simp
qed

text \<open>Segments one after the other, with the state that the inspector leaves after each flush given by \<open>inspect\<close>.\<close>

fun scan_all ::
    "(bytes \<Rightarrow> 'z http_half \<Rightarrow> 'z http_half) \<Rightarrow> nat \<Rightarrow> ('z http_half \<Rightarrow> 'z http_half) \<Rightarrow> bytes list \<Rightarrow> 'z http_half \<Rightarrow>
      (splitter_status list \<times> 'z http_half) option" where
  "scan_all process zne inspect [] s = Some ([], s)"
| "scan_all process zne inspect (d # ds) s =
     (case scan process zne d s of
        None \<Rightarrow> None
      | Some (st, s') \<Rightarrow>
          map_option (\<lambda>(sts, t). (st # sts, t))
            (scan_all process zne inspect ds (case st of FLUSH n \<Rightarrow> inspect s' | _ \<Rightarrow> s')))"

lemma scan_all_ok:
  assumes "\<And>s. scan_ok s \<Longrightarrow> \<not> tcp_close s \<Longrightarrow> expected_trans_num s \<noteq> zne \<Longrightarrow>
      scan_ok (inspect s) \<and> \<not> tcp_close (inspect s) \<and> expected_trans_num (inspect s) \<noteq> zne"
    and "scan_ok s" and "\<not> tcp_close s" and "expected_trans_num s \<noteq> zne" and "\<forall>d\<in>set ds. length d \<le> MAX_OCTETS"
  shows "\<exists>sts t. scan_all process zne inspect ds s = Some (sts, t) \<and> length sts = length ds \<and> scan_ok t"
  using assms(2-5)
proof (induction ds arbitrary: s)
  case (Cons d ds)
  from scan_step [OF Cons.prems(1,2), of d zne process] Cons.prems(3,4) obtain st s' where
    s: "scan process zne d s = Some (st, s')" "scan_ok s'" "\<not> tcp_close s'" "expected_trans_num s' = expected_trans_num s" by auto
  let ?s = "case st of FLUSH n \<Rightarrow> inspect s' | _ \<Rightarrow> s'"
  have "scan_ok ?s \<and> \<not> tcp_close ?s \<and> expected_trans_num ?s \<noteq> zne"
    using assms(1) [OF s(2,3)] s(2-4) Cons.prems(3) by (cases st) simp_all
  with Cons.IH [of ?s] Cons.prems(4) s(1) show ?case by auto
qed simp



section \<open>Sections reach the inspector\<close>

text \<open>The octets of a section of \<open>tot\<close> octets, in pieces of which the last one is the tail.\<close>

fun reassemble_all :: "'z zlib \<Rightarrow> nat \<Rightarrow> bytes list \<Rightarrow> 'z http_half \<Rightarrow> (bytes option \<times> 'z http_half) option" where
  "reassemble_all zl tot [] s = Some (None, s)"
| "reassemble_all zl tot [d] s = reassemble zl False False tot d True s"
| "reassemble_all zl tot (d # e # ds) s =
     (case reassemble zl False False tot d False s of
        None \<Rightarrow> None
      | Some (b, s') \<Rightarrow> reassemble_all zl tot (e # ds) s')"

text \<open>A start line, header or trailer of \<open>n\<close> octets of which \<open>x\<close> have been collected.\<close>

definition gathering :: "nat \<Rightarrow> bytes \<Rightarrow> 'z http_half \<Rightarrow> bool" where
  "gathering n x s \<longleftrightarrow> section_type s \<in> {SEC_REQUEST, SEC_STATUS, SEC_HEADER, SEC_TRAILER} \<and> octets_expected s = n \<and>
     n \<le> MAX_OCTETS \<and> compression s = CMP_NONE \<and> running_total s = length x \<and> section_offset s = length x \<and>
     (section_buffer s = Some x \<and> section_total s = n \<or> section_buffer s = None \<and> x = [])"

lemma reassemble_gather:
  assumes "gathering n x s" and "length x + length d \<le> n"
  shows "\<exists>s'. gathering n (x @ d) s' \<and> section_buffer s' = Some (x @ d) \<and> num_excess s' = num_excess s \<and>
    reassemble zl False False n d tail s = (if tail then reassemble_tail n s' else Some (None, s'))"
proof -
  define s1 where "s1 = s\<lparr>running_total := running_total s + length d\<rparr>"
  define s2 where "s2 = (if section_buffer s1 = None then s1\<lparr>section_buffer := Some [], section_total := n\<rparr> else s1)"
  have s2: "section_buffer s2 = Some x" "section_offset s2 = length x" "section_total s2 = n" "compression s2 = CMP_NONE"
    "running_total s2 = length x + length d" "section_type s2 = section_type s" "octets_expected s2 = n"
    "num_excess s2 = num_excess s"
    using assms(1) by (auto simp: s1_def s2_def gathering_def)
  let ?s = "with_data (x @ d) s2"
  have copy: "decompress_copy zl a d s2 = ?s" for a
    using assms s2 by (intro copy_append) (auto simp: gathering_def)
  have c: "(section_type s = SEC__NOT_COMPUTE) = False" "(MAX_OCTETS < n) = False" "octets_expected s = n"
    "(n < running_total s1) = False" "(section_type s1 = SEC_DISCARD) = False"
    "(section_buffer s1 \<noteq> None \<and> section_total s1 \<noteq> n) = False" "(section_type s2 = SEC_BODY_CHUNK) = False"
    using assms s2(6) by (auto simp: gathering_def s1_def)
  have "reassemble zl False False n d tail s = (if tail then reassemble_tail n ?s else Some (None, ?s))"
    unfolding reassemble_def Let_def
    by (simp only: c simp_thms if_True if_False s1_def [symmetric] s2_def [symmetric] option.case copy)
  moreover have "gathering n (x @ d) ?s"
    using assms s2 by (auto simp: gathering_def with_data_def)
  ultimately show ?thesis using s2(8) by (intro exI [of _ ?s]) (simp add: with_data_def)
qed

lemma reassemble_all_gather:
  assumes "gathering n x s" and "length x + length (concat ds) = n" and "ds \<noteq> []" and "num_excess s \<le> n"
  shows "\<exists>s'. reassemble_all zl n ds s =
    Some (Some (if num_excess s < n then take (n - num_excess s) (x @ concat ds) else [0]), s')"
  using assms
proof (induction ds arbitrary: x s rule: induct_list012)
  case (2 d)
  from reassemble_gather [OF "2.prems"(1), of d zl True] "2.prems"(2) obtain t where
    t: "gathering n (x @ d) t" "section_buffer t = Some (x @ d)" "num_excess t = num_excess s"
    "reassemble zl False False n d True s = reassemble_tail n t" by auto
  have r: "running_total t = n" "section_offset t = n" "n \<le> MAX_OCTETS" using t(1) "2.prems"(2) by (auto simp: gathering_def)
  have "(int n - int (num_excess s)) mod 2 ^ 16 = int (n - num_excess s)"
    using "2.prems"(4) r(3) by (subst mod_pos_pos_trivial) (simp_all add: MAX_OCTETS_def)
  then have size: "nat ((int (section_offset t) - int (num_excess t)) mod 2 ^ 16) = n - num_excess s"
    unfolding t(3) r(2) by (simp only: nat_int)
  show ?case unfolding reassemble_all.simps t(4) reassemble_tail_def Let_def size using t(2) r(1) by auto
next
  case (3 d e ds)
  from reassemble_gather [OF "3.prems"(1), of d zl False] "3.prems"(2) obtain t where
    t: "gathering n (x @ d) t" "num_excess t = num_excess s" "reassemble zl False False n d False s = Some (None, t)" by auto
  have e: "x @ concat (d # e # ds) = (x @ d) @ concat (e # ds)" by simp
  show ?case unfolding reassemble_all.simps t(3) option.case prod.case e t(2) [symmetric]
    by (rule "3.IH"(2) [OF t(1)]) (use "3.prems" t(2) in simp_all)
qed simp

lemma header_cut_found:
  assumes "header_end xs = Some i"
  shows "\<exists>h lg'. header_cut xs (header_new, lg) = (SCAN_FOUND, h, lg') \<and> num_flush h = Suc i \<and>
    num_crlf h = trailing_crlf (take (Suc i) xs) \<and> octets_seen h = 0"
proof -
  have "hstate header_new = header_state_of []" "num_crlf header_new = trailing_crlf []"
    by (simp_all add: header_new_def header_state_of_def)
  from header_scan [OF this, of xs lg] assms obtain h lg' where
    h: "header_cut xs (header_new, lg) = (SCAN_FOUND, h, lg')" "num_flush h = Suc i" "num_crlf h = trailing_crlf (take (Suc i) xs)"
    by (auto simp: header_end_def header_cut_def at_end_def)
  then have "cutter_cut t st xs (HeaderC header_new) lg = (SCAN_FOUND, HeaderC h, lg')" for t st by simp
  from cutter_cut_octets [OF this] h show ?thesis by (simp add: header_new_def)
qed

text \<open>
  C30. A header block reaches the inspector without its separator. Let the splitter expect the header and see \<open>xs\<close>, in
  which the first empty line ends at position \<open>i\<close>. Then \<^verbatim>\<open>scan\<close> flushes up to there, and when the stream hands over the
  flushed octets to \<^verbatim>\<open>reassemble\<close>, in whatever pieces, the last piece delivers the block without the carriage returns and
  line feeds at its end (or a single zero octet in place of an empty block).
\<close>

theorem header_reaches_inspector:
  assumes "type_expected s = SEC_HEADER" and "\<not> tcp_close s" and "hcutter s = None" and "compression s = CMP_NONE"
    and "running_total s = 0" and "section_offset s = 0" and "section_buffer s = None"
    and "length xs \<le> MAX_OCTETS" and "header_end xs = Some i" and "ds \<noteq> []" and "concat ds = take (Suc i) xs"
  defines "m \<equiv> Suc i - trailing_crlf (take (Suc i) xs)"
  shows "\<exists>s' s''. scan process zne xs s = Some (FLUSH (Suc i), s') \<and>
    reassemble_all zl (Suc i) ds s' = Some (Some (if 0 < m then take m xs else [0]), s'')"
proof -
  define s1 where "s1 = (if detection_status s = DET_REACTIVATING then s\<lparr>flow_detection := True, detection_status := DET_ON\<rparr> else s)"
  have s1: "type_expected s1 = SEC_HEADER" "hcutter s1 = None" "compression s1 = CMP_NONE" "running_total s1 = 0"
    "section_offset s1 = 0" "section_buffer s1 = None" using assms by (simp_all add: s1_def)
  from header_cut_found [OF assms(9), of "hlog s1"] obtain h lg where
    h: "header_cut xs (header_new, hlog s1) = (SCAN_FOUND, h, lg)" "num_flush h = Suc i"
    "num_crlf h = trailing_crlf (take (Suc i) xs)" "octets_seen h = 0" by blast
  define s' where "s' = (prepare_flush SEC_HEADER (Suc i) (num_crlf h) (int (num_head_lines h)) False 0 0 True (s1\<lparr>hlog := lg\<rparr>))
    \<lparr>hcutter := None\<rparr>"
  have "scan process zne xs s = Some (FLUSH (Suc i), s')"
    using assms(1,2,8) s1 h by (simp add: scan_def Let_def s1_def [symmetric] header_new_def after_cut_def s'_def)
  moreover have "Suc i \<le> length xs" using assms(9) by (auto simp: header_end_def find_Some_iff)
  then have "gathering (Suc i) [] s'" "length ([] :: bytes) + length (concat ds) = Suc i"
    using s1 assms(8,11) by (simp_all add: gathering_def s'_def prepare_flush_def)
  moreover have ne: "num_excess s' = trailing_crlf (take (Suc i) xs)" using h(3) by (simp add: s'_def prepare_flush_def)
  moreover have "trailing_crlf (take (Suc i) xs) \<le> Suc i"
    using length_takeWhile_le [of is_cr_lf "rev (take (Suc i) xs)"] by (simp add: trailing_crlf_def min_def split: if_splits)
  ultimately show ?thesis
    using reassemble_all_gather [of "Suc i" "[]" s' ds zl] assms(10,11) by (auto simp: m_def min_def)
qed

text \<open>\<open>"A:b\r\n\r\nx"\<close>, reassembled from two pieces.\<close>

theorem header_reaches_inspector_witness:
  "\<exists>s' s''. scan (\<lambda>_ s. s) 0 [65, 58, 98, 13, 10, 13, 10, 120] ((half_new SEC_HEADER) :: unit http_half) = Some (FLUSH 7, s') \<and>
    reassemble_all no_zlib 7 [[65, 58], [98, 13, 10, 13, 10]] s' = Some (Some [65, 58, 98], s'')"
proof -
  let ?xs = "[65, 58, 98, 13, 10, 13, 10, 120] :: bytes" and ?s = "half_new SEC_HEADER :: unit http_half"
  have s: "type_expected ?s = SEC_HEADER" "\<not> tcp_close ?s" "hcutter ?s = None" "compression ?s = CMP_NONE"
    "running_total ?s = 0" "section_offset ?s = 0" "section_buffer ?s = None" by (simp_all add: half_new_def)
  have e: "header_end ?xs = Some 6" "length ?xs \<le> MAX_OCTETS" "trailing_crlf (take (Suc 6) ?xs) = 4"
    by code_simp (simp add: MAX_OCTETS_def, code_simp)
  have d: "[[65, 58], [98, 13, 10, 13, 10]] \<noteq> ([] :: bytes list)" "concat [[65, 58], [98, 13, 10, 13, 10]] = take (Suc 6) ?xs"
    by simp_all
  from header_reaches_inspector [where process = "\<lambda>_ s. s" and zne = 0 and zl = no_zlib, OF s e(2,1) d]
  show ?thesis unfolding e(3) by simp
qed

end
