(* ===== verification/Address_Bits.thy ===== *)
theory Address_Bits
  imports Snort_Prelude
begin

unbundle bit_operations_syntax

text \<open>
  Addresses as 32-bit words. The sources keep them in network order and convert with \<^verbatim>\<open>ntohl\<close> where they need numbers;
  the bits of an address in host order are numbered from the most significant one.
\<close>

definition ntohl :: "u32 \<Rightarrow> u32" where
  "ntohl x = push_bit 24 (x AND 0xff) OR push_bit 8 (x AND 0xff00) OR
             drop_bit 8 (x AND 0xff0000) OR drop_bit 24 (x AND 0xff000000)"

definition abit :: "u32 list \<Rightarrow> nat \<Rightarrow> bool" where
  "abit a k = bit (a ! (k div 32)) (31 - k mod 32)"

definition same_bits :: "u32 list \<Rightarrow> u32 list \<Rightarrow> nat \<Rightarrow> nat \<Rightarrow> bool" where
  "same_bits x y lo n = list_all (\<lambda>k. abit x k = abit y k) [lo..<lo + n]"

lemma same_bits_iff: "same_bits x y b c \<longleftrightarrow> (\<forall>k<c. abit x (b + k) = abit y (b + k))"
  unfolding same_bits_def list_all_iff set_upt Ball_def atLeastLessThan_iff
  by (metis add_less_cancel_left le_Suc_ex le_add1)

lemma same_bits_split: "same_bits x y b (m + n) \<longleftrightarrow> same_bits x y b m \<and> same_bits x y (b + m) n"
proof -
  have "[b..<b + (m + n)] = [b..<b + m] @ [b + m..<b + m + n]" by (metis add.assoc upt_add_eq_append le_add1)
  then show ?thesis by (simp add: same_bits_def)
qed

lemma mask_bits: "bit (0xff :: u32) n \<longleftrightarrow> n < 8" "bit (0xff00 :: u32) n \<longleftrightarrow> 8 \<le> n \<and> n < 16"
  "bit (0xff0000 :: u32) n \<longleftrightarrow> 16 \<le> n \<and> n < 24" "bit (0xff000000 :: u32) n \<longleftrightarrow> 24 \<le> n \<and> n < 32"
proof -
  have "(0xff :: u32) = mask 8" "(0xff00 :: u32) = push_bit 8 (mask 8)" "(0xff0000 :: u32) = push_bit 16 (mask 8)"
    "(0xff000000 :: u32) = push_bit 24 (mask 8)" by (simp_all add: mask_eq_exp_minus_1)
  note e = this
  show "bit (0xff :: u32) n \<longleftrightarrow> n < 8" "bit (0xff00 :: u32) n \<longleftrightarrow> 8 \<le> n \<and> n < 16"
  "bit (0xff0000 :: u32) n \<longleftrightarrow> 16 \<le> n \<and> n < 24" "bit (0xff000000 :: u32) n \<longleftrightarrow> 24 \<le> n \<and> n < 32"
    unfolding e bit_push_bit_iff bit_mask_iff by auto
qed

lemma ntohl_bit: "n < 32 \<Longrightarrow> bit (ntohl x) n = bit x (if n < 8 then n + 24 else if n < 16 then n + 8 else if n < 24 then n - 8 else n - 24)"
  unfolding ntohl_def bit_or_iff bit_push_bit_iff bit_drop_bit_eq bit_and_iff mask_bits o_def by (auto simp: add.commute)

lemma ntohl_ntohl: "ntohl (ntohl x) = x"
  by (rule bit_word_eqI) (auto simp: ntohl_bit)

lemma ntohl_inject: "ntohl x = ntohl y \<longleftrightarrow> x = y"
  by (metis ntohl_ntohl)
text \<open>Comparing addresses word by word: the whole words, then the high bits of the last one.\<close>

lemma abit_word: "r < 32 \<Longrightarrow> abit x (32 * i + r) = bit (x ! i) (31 - r)"
  by (simp add: abit_def)

lemma same_bits_word: "same_bits x y (32 * i) r \<longleftrightarrow> (\<forall>k<r. bit (x ! i) (31 - k) = bit (y ! i) (31 - k))" if "r \<le> 32"
  using that by (simp add: same_bits_iff abit_word)

lemma same_word: "same_bits x y (32 * i) 32 \<longleftrightarrow> x ! i = y ! i"
proof
  assume "same_bits x y (32 * i) 32"
  then have "bit (x ! i) (31 - k) = bit (y ! i) (31 - k)" if "k < 32" for k using that by (simp add: same_bits_word)
  have "bit (x ! i) n = bit (y ! i) n" if "n < 32" for n
  proof -
    have "31 - (31 - n) = n" using that by simp
    with \<open>\<And>k. k < 32 \<Longrightarrow> bit (x ! i) (31 - k) = bit (y ! i) (31 - k)\<close> [of "31 - n"] that show ?thesis by simp
  qed
  then show "x ! i = y ! i" by (intro bit_word_eqI) simp
qed (simp add: same_bits_word)

lemma same_words: "same_bits x y 0 (32 * i) \<longleftrightarrow> (\<forall>j<i. x ! j = y ! j)"
proof (induction i)
  case (Suc i)
  have "same_bits x y 0 (32 * Suc i) \<longleftrightarrow> same_bits x y 0 (32 * i) \<and> same_bits x y (32 * i) 32"
    using same_bits_split [of x y 0 "32 * i" 32] by (simp add: add.commute)
  with Suc show ?case by (auto simp: same_word less_Suc_eq)
qed (simp add: same_bits_iff)

lemma high_bits_eq:
  fixes x y :: u32
  assumes "r < 32" "\<forall>n < 32 - r. \<not> bit x n"
  shows "x = push_bit (32 - r) (drop_bit (32 - r) y) \<longleftrightarrow> (\<forall>k<r. bit x (31 - k) = bit y (31 - k))"
proof
  assume x: "x = push_bit (32 - r) (drop_bit (32 - r) y)"
  show "\<forall>k<r. bit x (31 - k) = bit y (31 - k)"
  proof (intro allI impI)
    fix k assume "k < r"
    then have "32 - r + (31 - k - (32 - r)) = 31 - k" "31 - k < 32" using assms(1) by simp_all
    with \<open>k < r\<close> show "bit x (31 - k) = bit y (31 - k)" by (subst x) (simp add: bit_simps)
  qed
next
  assume r: "\<forall>k<r. bit x (31 - k) = bit y (31 - k)"
  show "x = push_bit (32 - r) (drop_bit (32 - r) y)"
  proof (rule bit_word_eqI)
    fix n assume n: "n < LENGTH(32)"
    show "bit x n = bit (push_bit (32 - r) (drop_bit (32 - r) y)) n"
    proof (cases "n < 32 - r")
      case True
      with assms(2) show ?thesis by (simp add: bit_simps)
    next
      case False
      with n r [rule_format, of "31 - n"] show ?thesis by (auto simp: bit_simps)
    qed
  qed
qed

end
