(* ===== verification/Sfrt_Dir.thy ===== *)
theory Sfrt_Dir
  imports Address_Bits
begin

unbundle bit_operations_syntax

text \<open>
  The DIR-n-m routing table of \<^verbatim>\<open>sfrt/sfrt_dir.cc\<close>: a tree of tables, each indexed by the next bits of the address.
  An element of \<^verbatim>\<open>entries\<close> is a data index or the address of a sub table; the code tells them apart by the element of
  \<^verbatim>\<open>lengths\<close> at the same place, which is 0 for an address. A table keeps the two arrays as one list of pairs.
  \<open>None\<close> stands for undefined behaviour: an index out of range, a shift by the width of the word, an uninitialised
  address word, a data index followed as an address.
\<close>

section \<open>Data\<close>

datatype dir_sub_table = Sub (rows: "(dir_entry \<times> u8) list") (width: nat) (sub_cur_num: int) (filledEntries: int)
and dir_entry = Val u64 | Ptr dir_sub_table

record dir_table =
  dimensions :: "nat list"
  mem_cap :: u32
  dir_cur_num :: int
  allocated :: u32
  sub_table :: dir_sub_table

datatype rt_behavior = RT_FAVOR_TIME | RT_FAVOR_SPECIFIC | RT_FAVOR_ALL

datatype return_codes =
    RT_SUCCESS | RT_INSERT_FAILURE | RT_POLICY_TABLE_EXCEEDED | DIR_INSERT_FAILURE | DIR_LOOKUP_FAILURE
  | MEM_ALLOC_FAILURE | RT_REMOVE_FAILURE

text \<open>\<^verbatim>\<open>sizeof\<close> of the two structures on the 64-bit targets the build supports.\<close>

definition sizeof_dir_sub_table :: nat where
  "sizeof_dir_sub_table = 32"

definition sizeof_dir_table :: nat where
  "sizeof_dir_table = 32"

section \<open>Creation\<close>

text \<open>The outer option is undefined behaviour, the inner one the null pointer.\<close>

definition sub_table_new :: "dir_table \<Rightarrow> nat \<Rightarrow> u32 \<Rightarrow> nat \<Rightarrow> (dir_sub_table option \<times> dir_table) option" where
  "sub_table_new root dimension prefill bit_length =
     (if length (dimensions root) \<le> dimension \<or> 31 \<le> dimensions root ! dimension then None
      else
        (let w = dimensions root ! dimension;
             len = 2 ^ w;
             size = sizeof_dir_sub_table + 8 * len + len
         in if unat (mem_cap root) < unat (allocated root) + size \<or> bit_length > 128 then Some (None, root)
            else Some (Some (Sub (replicate len (Val (ucast prefill), of_nat bit_length)) w 0
                               (if prefill \<noteq> 0 then int len else 0)),
                       root\<lparr>allocated := allocated root + of_nat size, dir_cur_num := dir_cur_num root + 1\<rparr>)))"

definition sfrt_dir_new :: "u32 \<Rightarrow> nat list \<Rightarrow> dir_table option option" where
  "sfrt_dir_new cap dims =
     (case sub_table_new \<lparr>dimensions = dims, mem_cap = cap, dir_cur_num = 0, allocated = 0, sub_table = Sub [] 0 0 0\<rparr>
             0 0 0 of
        None \<Rightarrow> None
      | Some (None, _) \<Rightarrow> Some None
      | Some (Some t, root) \<Rightarrow>
          Some (Some (root\<lparr>sub_table := t,
                           allocated := allocated root + of_nat (sizeof_dir_table + 4 * length dims)\<rparr>)))"

section \<open>Release\<close>

fun sub_table_free :: "dir_sub_table \<Rightarrow> u32 \<Rightarrow> u32 option"
and free_rows :: "(dir_entry \<times> u8) list \<Rightarrow> u32 \<Rightarrow> u32 option"
where
  "sub_table_free (Sub rs w c f) al =
     map_option (\<lambda>al'. al' - of_nat (8 * length rs) - of_nat (length rs) - of_nat sizeof_dir_sub_table) (free_rows rs al)"
| "free_rows [] al = Some al"
| "free_rows ((e, l) # rs) al =
     (if l = 0 \<and> e \<noteq> Val 0
      then (case e of Ptr s \<Rightarrow> Option.bind (sub_table_free s al) (free_rows rs) | Val _ \<Rightarrow> None)
      else free_rows rs al)"

text \<open>What is left of \<^verbatim>\<open>allocated\<close> when \<^verbatim>\<open>sfrt_dir_free\<close> returns.\<close>

definition sfrt_dir_free :: "dir_table \<Rightarrow> u32 option" where
  "sfrt_dir_free root = sub_table_free (sub_table root) (allocated root)"

definition sfrt_dir_usage :: "dir_table \<Rightarrow> u32" where
  "sfrt_dir_usage root = allocated root"

section \<open>The part of the address that indexes a table\<close>

definition dir_index :: "u32 list \<Rightarrow> nat \<Rightarrow> nat \<Rightarrow> nat option" where
  "dir_index addr bits w =
     (let i = (if bits < 32 then 0 else if bits < 64 then 1 else if bits < 96 then 2 else 3)
      in if i < length addr \<and> 0 < w \<and> w \<le> 32
         then Some (unat (drop_bit (32 - w) (push_bit (bits mod 32) (addr ! i))))
         else None)"

section \<open>Filling and clearing rows\<close>

text \<open>
  The loops over \<^verbatim>\<open>index .. fill - 1\<close> start at a row and handle a number of rows. They return the new rows, the change
  of \<^verbatim>\<open>filledEntries\<close> and, where the loop releases tables or reports an index, these.
\<close>

definition fill_all_row :: "nat \<Rightarrow> u32 \<Rightarrow> dir_entry \<times> u8 \<Rightarrow> u32 \<Rightarrow> ((dir_entry \<times> u8) \<times> int \<times> u32) option" where
  "fill_all_row len val = (\<lambda>(e, l) al.
     let new = (Val (ucast val), of_nat len)
     in if e \<noteq> Val 0 then
          if l = 0 then
            (case e of Ptr s \<Rightarrow> map_option (\<lambda>al'. (new, 0, al')) (sub_table_free s al) | Val _ \<Rightarrow> None)
          else Some (new, 0, al)
        else Some (new, 1, al))"

fun dir_fill_all :: "nat \<Rightarrow> nat \<Rightarrow> u32 \<Rightarrow> (dir_entry \<times> u8) list \<Rightarrow> u32 \<Rightarrow> ((dir_entry \<times> u8) list \<times> int \<times> u32) option" where
  "dir_fill_all 0 len val rs al = Some (rs, 0, al)"
| "dir_fill_all (Suc n) len val [] al = None"
| "dir_fill_all (Suc n) len val (r # rs) al =
     (case fill_all_row len val r al of
        None \<Rightarrow> None
      | Some (r', k, al') \<Rightarrow>
          map_option (\<lambda>(rs', k', al''). (r' # rs', k + k', al'')) (dir_fill_all n len val rs al'))"

fun fill_less_row :: "nat \<Rightarrow> u32 \<Rightarrow> dir_entry \<times> u8 \<Rightarrow> ((dir_entry \<times> u8) \<times> int) option"
and dir_fill_less_specific :: "nat \<Rightarrow> nat \<Rightarrow> u32 \<Rightarrow> (dir_entry \<times> u8) list \<Rightarrow> ((dir_entry \<times> u8) list \<times> int) option"
where
  "fill_less_row len val (Ptr (Sub rs w c f), l) =
     (if l = 0 then
        map_option (\<lambda>(rs', k). ((Ptr (Sub rs' w c (f + k)), l), 0)) (dir_fill_less_specific (2 ^ w) len val rs)
      else if unat l \<le> len then Some ((Val (ucast val), of_nat len), 0)
      else Some ((Ptr (Sub rs w c f), l), 0))"
| "fill_less_row len val (Val v, l) =
     (if l = 0 \<and> v \<noteq> 0 then None
      else if unat l \<le> len then Some ((Val (ucast val), of_nat len), if v = 0 then 1 else 0)
      else Some ((Val v, l), 0))"
| "dir_fill_less_specific 0 len val rs = Some (rs, 0)"
| "dir_fill_less_specific (Suc n) len val [] = None"
| "dir_fill_less_specific (Suc n) len val (r # rs) =
     (case fill_less_row len val r of
        None \<Rightarrow> None
      | Some (r', k) \<Rightarrow> map_option (\<lambda>(rs', k'). (r' # rs', k + k')) (dir_fill_less_specific n len val rs))"

definition remove_all_row :: "nat \<Rightarrow> dir_entry \<times> u8 \<Rightarrow> u32 \<Rightarrow> (u32 option \<times> (dir_entry \<times> u8) \<times> int \<times> u32) option" where
  "remove_all_row len = (\<lambda>(e, l) al.
     if e \<noteq> Val 0 then
       if l = 0 then
         (case e of
            Ptr s \<Rightarrow> if len = 0 then None else map_option (\<lambda>al'. (None, (Val 0, 0), -1, al')) (sub_table_free s al)
          | Val _ \<Rightarrow> None)
       else if len = unat l then
         (case e of Val v \<Rightarrow> Some (Some (ucast v), (Val 0, 0), -1, al) | Ptr _ \<Rightarrow> None)
       else Some (None, (Val 0, 0), -1, al)
     else Some (None, (e, l), 0, al))"

text \<open>The last index written to \<^verbatim>\<open>valueIndex\<close> is the one returned.\<close>

definition later :: "'a option \<Rightarrow> 'a option \<Rightarrow> 'a option" where
  "later a b = (case b of None \<Rightarrow> a | Some _ \<Rightarrow> b)"

fun dir_remove_all ::
  "nat \<Rightarrow> nat \<Rightarrow> (dir_entry \<times> u8) list \<Rightarrow> u32 \<Rightarrow> (u32 option \<times> (dir_entry \<times> u8) list \<times> int \<times> u32) option"
where
  "dir_remove_all 0 len rs al = Some (None, rs, 0, al)"
| "dir_remove_all (Suc n) len [] al = None"
| "dir_remove_all (Suc n) len (r # rs) al =
     (case remove_all_row len r al of
        None \<Rightarrow> None
      | Some (i, r', k, al') \<Rightarrow>
          map_option (\<lambda>(i', rs', k', al''). (later i i', r' # rs', k + k', al'')) (dir_remove_all n len rs al'))"

text \<open>The recursive call's result 0 leaves \<^verbatim>\<open>valueIndexRet\<close>; a value of a row is taken whatever it is.\<close>

definition nonzero :: "u32 option \<Rightarrow> u32 option" where
  "nonzero i = (case i of None \<Rightarrow> None | Some v \<Rightarrow> if v = 0 then None else Some v)"

fun remove_less_row ::
  "nat \<Rightarrow> dir_entry \<times> u8 \<Rightarrow> u32 \<Rightarrow> (u32 option \<times> (dir_entry \<times> u8) \<times> int \<times> u32) option"
and dir_remove_less_specific ::
  "nat \<Rightarrow> nat \<Rightarrow> (dir_entry \<times> u8) list \<Rightarrow> u32 \<Rightarrow> (u32 option \<times> (dir_entry \<times> u8) list \<times> int \<times> u32) option"
where
  "remove_less_row len (Ptr (Sub rs w c f), l) al =
     (if l = 0 then
        (case dir_remove_less_specific (2 ^ w) len rs al of
           None \<Rightarrow> None
         | Some (i, rs', k, al') \<Rightarrow>
             if f + k = 0
             then map_option (\<lambda>al''. (nonzero i, (Val 0, 0), -1, al'')) (sub_table_free (Sub rs' w c (f + k)) al')
             else Some (nonzero i, (Ptr (Sub rs' w c (f + k)), l), 0, al'))
      else if len = unat l then None
      else Some (None, (Ptr (Sub rs w c f), l), 0, al))"
| "remove_less_row len (Val v, l) al =
     (if l = 0 \<and> v \<noteq> 0 then None
      else if len = unat l then
        Some (if v \<noteq> 0 then Some (ucast v) else None, (Val 0, 0), if v \<noteq> 0 then -1 else 0, al)
      else Some (None, (Val v, l), 0, al))"
| "dir_remove_less_specific 0 len rs al = Some (None, rs, 0, al)"
| "dir_remove_less_specific (Suc n) len [] al = None"
| "dir_remove_less_specific (Suc n) len (r # rs) al =
     (case remove_less_row len r al of
        None \<Rightarrow> None
      | Some (i, r', k, al') \<Rightarrow>
          map_option (\<lambda>(i', rs', k', al''). (later i i', r' # rs', k + k', al'')) (dir_remove_less_specific n len rs al'))"

section \<open>Insertion\<close>

definition from_row ::
  "nat \<Rightarrow> ('r list \<Rightarrow> 'x option) \<Rightarrow> ('r list \<Rightarrow> 'x \<Rightarrow> 'y) \<Rightarrow> 'r list \<Rightarrow> 'y option"
where
  "from_row index f put rs = map_option (put (take index rs)) (f (drop index rs))"

text \<open>The last table on the way: all rows that share the bits of the prefix.\<close>

definition insert_rows ::
  "nat \<Rightarrow> nat \<Rightarrow> u32 \<Rightarrow> nat \<Rightarrow> rt_behavior \<Rightarrow> dir_sub_table \<Rightarrow> dir_table \<Rightarrow> (dir_sub_table \<times> dir_table) option"
where
  "insert_rows len cur_len val index0 behavior t root =
     (let s = width t - cur_len;
          fill = 2 ^ s;
          index = push_bit s (drop_bit s index0)
      in if behavior = RT_FAVOR_TIME then
           from_row index (\<lambda>rs. dir_fill_all fill len val rs (allocated root))
             (\<lambda>pre (rs', k, al). (Sub (pre @ rs') (width t) (sub_cur_num t) (filledEntries t + k), root\<lparr>allocated := al\<rparr>))
             (rows t)
         else
           from_row index (dir_fill_less_specific fill len val)
             (\<lambda>pre (rs', k). (Sub (pre @ rs') (width t) (sub_cur_num t) (filledEntries t + k), root))
             (rows t))"

function dir_sub_insert ::
  "u32 list \<Rightarrow> nat \<Rightarrow> nat \<Rightarrow> nat \<Rightarrow> u64 \<Rightarrow> nat \<Rightarrow> rt_behavior \<Rightarrow> dir_sub_table \<Rightarrow> dir_table \<Rightarrow>
   (return_codes \<times> dir_sub_table \<times> dir_table) option"
where
  "dir_sub_insert ip bits len cur_len ptr current_depth behavior t root =
     (case dir_index ip bits (width t) of
        None \<Rightarrow> None
      | Some index \<Rightarrow>
          if cur_len \<le> width t then
            map_option (\<lambda>(t', root'). (RT_SUCCESS, t', root'))
              (insert_rows len cur_len (ucast ptr) index behavior t root)
          else if length (rows t) \<le> index then None
          else
            (case rows t ! index of
               (e, l) \<Rightarrow>
                 if e = Val 0 \<or> l \<noteq> 0 then
                   if length (dimensions root) \<le> current_depth then Some (RT_INSERT_FAILURE, t, root)
                   else
                     (case e of
                        Ptr _ \<Rightarrow> None
                      | Val v \<Rightarrow>
                          (case sub_table_new root (current_depth + 1) (ucast v) (unat l) of
                             None \<Rightarrow> None
                           | Some (None, root1) \<Rightarrow>
                               Some (MEM_ALLOC_FAILURE,
                                     Sub ((rows t)[index := (Val 0, 0)]) (width t) (sub_cur_num t + 1)
                                       (filledEntries t + (if v = 0 then 1 else 0)), root1)
                           | Some (Some next_sub, root1) \<Rightarrow>
                               map_option (\<lambda>(rc, next', root2).
                                   (rc, Sub ((rows t)[index := (Ptr next', 0)]) (width t) (sub_cur_num t + 1)
                                          (filledEntries t + (if v = 0 then 1 else 0)), root2))
                                 (dir_sub_insert ip (bits + width t) len (cur_len - width t) ptr (current_depth + 1)
                                    behavior next_sub root1)))
                 else
                   (case e of
                      Val _ \<Rightarrow> None
                    | Ptr next_sub \<Rightarrow>
                        map_option (\<lambda>(rc, next', root2).
                            (rc, Sub ((rows t)[index := (Ptr next', l)]) (width t) (sub_cur_num t) (filledEntries t), root2))
                          (dir_sub_insert ip (bits + width t) len (cur_len - width t) ptr (current_depth + 1)
                             behavior next_sub root))))"
  by pat_completeness auto

termination
  by (relation "measure (\<lambda>(ip, bits, len, cur_len, ptr, d, b, t, root). cur_len)")
     (auto simp: dir_index_def Let_def split: if_splits)

text \<open>The words of the address that the length covers, in host order; the others are zero.\<close>

definition h_addr :: "u32 list \<Rightarrow> nat \<Rightarrow> u32 list option" where
  "h_addr addr len =
     (let n = (if len > 96 then 4 else if len > 64 then 3 else if len > 32 then 2 else 1)
      in if n \<le> length addr then Some (map ntohl (take n addr) @ replicate (4 - n) 0) else None)"

definition sfrt_dir_insert ::
  "u32 list \<Rightarrow> nat \<Rightarrow> u64 \<Rightarrow> rt_behavior \<Rightarrow> dir_table \<Rightarrow> (return_codes \<times> dir_table) option"
where
  "sfrt_dir_insert addr len data_index behavior root =
     (case h_addr addr len of
        None \<Rightarrow> None
      | Some ip \<Rightarrow>
          map_option (\<lambda>(rc, t, root'). (rc, root'\<lparr>sub_table := t\<rparr>))
            (dir_sub_insert ip 0 len len data_index 0 behavior (sub_table root) root))"

section \<open>Lookup\<close>

lemma sub_size: "(Ptr s, l) \<in> set rs \<Longrightarrow> size s < size (Sub rs w c f)"
  by (induction rs) (auto simp: less_Suc_eq_le)

function dir_sub_lookup :: "u32 list \<Rightarrow> nat \<Rightarrow> dir_sub_table \<Rightarrow> (u64 \<times> u64) option" where
  "dir_sub_lookup ip bits t =
     (case dir_index ip bits (width t) of
        None \<Rightarrow> None
      | Some index \<Rightarrow>
          if length (rows t) \<le> index then None
          else
            (case rows t ! index of
               (Val v, l) \<Rightarrow> if v = 0 \<or> l \<noteq> 0 then Some (v, ucast l) else None
             | (Ptr s, l) \<Rightarrow> if l \<noteq> 0 then None else dir_sub_lookup ip (bits + width t) s))"
  by pat_completeness auto

termination
proof (relation "measure (\<lambda>(ip, bits, t). size t)")
  fix ip bits t x2 a b s
  assume "\<not> length (rows t) \<le> x2" "(a, b) = rows t ! x2" "a = Ptr s"
  then have "(Ptr s, b) \<in> set (rows t)" by (metis leI nth_mem)
  from sub_size [OF this] show "((ip, bits + width t, s), ip, bits, t) \<in> measure (\<lambda>(ip, bits, t). size t)"
    by (cases t) simp
qed simp

definition sfrt_dir_lookup :: "u32 list \<Rightarrow> dir_table \<Rightarrow> (u64 \<times> u64) option" where
  "sfrt_dir_lookup addr root =
     (if addr = [] then Some (0, 0)
      else if 4 < length addr then None
      else dir_sub_lookup (map ntohl addr) 0 (sub_table root))"

section \<open>Removal\<close>

definition remove_rows ::
  "nat \<Rightarrow> nat \<Rightarrow> nat \<Rightarrow> rt_behavior \<Rightarrow> dir_sub_table \<Rightarrow> dir_table \<Rightarrow> (u32 \<times> dir_sub_table \<times> dir_table) option"
where
  "remove_rows len cur_len index0 behavior t root =
     (let s = width t - cur_len;
          fill = 2 ^ s;
          index = push_bit s (drop_bit s index0)
      in from_row index
           (\<lambda>rs. if behavior = RT_FAVOR_TIME then dir_remove_all fill len rs (allocated root)
                 else dir_remove_less_specific fill len rs (allocated root))
           (\<lambda>pre (i, rs', k, al).
              (case i of None \<Rightarrow> 0 | Some v \<Rightarrow> v,
               Sub (pre @ rs') (width t) (sub_cur_num t) (filledEntries t + k), root\<lparr>allocated := al\<rparr>))
           (rows t))"

function dir_sub_remove ::
  "u32 list \<Rightarrow> nat \<Rightarrow> nat \<Rightarrow> nat \<Rightarrow> rt_behavior \<Rightarrow> dir_sub_table \<Rightarrow> dir_table \<Rightarrow> (u32 \<times> dir_sub_table \<times> dir_table) option"
where
  "dir_sub_remove ip bits len cur_len behavior t root =
     (case dir_index ip bits (width t) of
        None \<Rightarrow> None
      | Some index \<Rightarrow>
          if cur_len \<le> width t then remove_rows len cur_len index behavior t root
          else if length (rows t) \<le> index then None
          else
            (case rows t ! index of
               (e, l) \<Rightarrow>
                 if e = Val 0 \<or> l \<noteq> 0 then Some (0, t, root)
                 else
                   (case e of
                      Val _ \<Rightarrow> None
                    | Ptr next_sub \<Rightarrow>
                        (case dir_sub_remove ip (bits + width t) len (cur_len - width t) behavior next_sub root of
                           None \<Rightarrow> None
                         | Some (i, next', root1) \<Rightarrow>
                             if filledEntries next' = 0 then
                               map_option (\<lambda>al.
                                   (i, Sub ((rows t)[index := (Val 0, 0)]) (width t) (sub_cur_num t) (filledEntries t - 1),
                                    root1\<lparr>allocated := al, dir_cur_num := dir_cur_num root1 - 1\<rparr>))
                                 (sub_table_free next' (allocated root1))
                             else Some (i, Sub ((rows t)[index := (Ptr next', l)]) (width t) (sub_cur_num t)
                                             (filledEntries t), root1)))))"
  by pat_completeness auto

termination
  by (relation "measure (\<lambda>(ip, bits, len, cur_len, b, t, root). cur_len)")
     (auto simp: dir_index_def Let_def split: if_splits)

text \<open>The \<^verbatim>\<open>int\<close> of the inner function is widened to the \<^verbatim>\<open>word\<close> of the interface.\<close>

definition sfrt_dir_remove ::
  "u32 list \<Rightarrow> nat \<Rightarrow> rt_behavior \<Rightarrow> dir_table \<Rightarrow> (u64 \<times> dir_table) option"
where
  "sfrt_dir_remove addr len behavior root =
     (case h_addr addr len of
        None \<Rightarrow> None
      | Some ip \<Rightarrow>
          map_option (\<lambda>(i, t, root'). (scast i, root'\<lparr>sub_table := t\<rparr>))
            (dir_sub_remove ip 0 len len behavior (sub_table root) root))"

declare dir_sub_insert.simps [simp del] dir_sub_lookup.simps [simp del] dir_sub_remove.simps [simp del]

end
