(* ===== verification/Sfrt_Route.thy ===== *)
theory Sfrt_Route
  imports Sfrt_Dir
begin

unbundle bit_operations_syntax

text \<open>
  What a DIR-n-m table answers. The bits of an address are numbered from the most significant one; a table whose
  dimensions do not straddle the 32-bit words is indexed by the next bits of the address, so a row of a table answers
  for the addresses that share the bits read so far. The loops over rows share one contract, the locale \<open>row_loop\<close>.
\<close>

section \<open>The field of an address that indexes a table\<close>

definition field :: "u32 list \<Rightarrow> nat \<Rightarrow> nat \<Rightarrow> nat" where
  "field a b w = unat (drop_bit (32 - w) (push_bit (b mod 32) (a ! (b div 32))))"

text \<open>The dimensions from bit \<open>b\<close> on never straddle two of the \<open>n\<close> words.\<close>

fun fits :: "nat \<Rightarrow> nat \<Rightarrow> nat list \<Rightarrow> bool" where
  "fits n b [] \<longleftrightarrow> True"
| "fits n b (w # ds) \<longleftrightarrow> 0 < w \<and> w < 31 \<and> b mod 32 + w \<le> 32 \<and> b < 32 * n \<and> n \<le> 4 \<and> fits n (b + w) ds"

lemma dir_index_field:
  assumes "0 < w" "w < 31" "b < 32 * n" "n \<le> 4" "n \<le> length a"
  shows "dir_index a b w = Some (field a b w)"
proof -
  have "(if b < 32 then 0 else if b < 64 then 1 else if b < 96 then 2 else 3) = b div 32"
    using assms(3,4) by auto
  moreover from assms(3,5) have "b div 32 < length a" by (simp add: less_mult_imp_div_less mult.commute order_less_le_trans)
  ultimately show ?thesis using assms(1,2) by (simp add: dir_index_def field_def Let_def)
qed

lemma bit_field_word:
  "bit (drop_bit m (push_bit p (x :: u32))) n \<longleftrightarrow> m + n < 32 \<and> p \<le> m + n \<and> bit x (m + n - p)"
  by (auto simp: bit_simps)

lemma field_word_eq:
  fixes x y :: u32
  assumes "p + c \<le> 32"
  shows "drop_bit (32 - c) (push_bit p x) = drop_bit (32 - c) (push_bit p y) \<longleftrightarrow>
         (\<forall>k<c. bit x (31 - p - k) = bit y (31 - p - k))" (is "?l \<longleftrightarrow> ?r")
proof
  assume l: ?l
  show ?r
  proof (intro allI impI)
    fix k assume k: "k < c"
    from l have "bit (drop_bit (32 - c) (push_bit p x)) (c - 1 - k) = bit (drop_bit (32 - c) (push_bit p y)) (c - 1 - k)"
      by (rule arg_cong)
    moreover have "32 - c + (c - 1 - k) - p = 31 - p - k" "32 - c + (c - 1 - k) < 32" "p \<le> 32 - c + (c - 1 - k)"
      using k assms by linarith+
    ultimately show "bit x (31 - p - k) = bit y (31 - p - k)" unfolding bit_field_word by simp
  qed
next
  assume r: ?r
  show ?l
  proof (rule bit_word_eqI)
    fix n
    show "bit (drop_bit (32 - c) (push_bit p x)) n = bit (drop_bit (32 - c) (push_bit p y)) n"
    proof (cases "n < c")
      case True
      then have "32 - c + n - p = 31 - p - (c - 1 - n)" using assms by linarith
      with r [rule_format, of "c - 1 - n"] True show ?thesis unfolding bit_field_word by simp
    next
      case False
      with assms have "\<not> 32 - c + n < 32" by linarith
      then show ?thesis unfolding bit_field_word by blast
    qed
  qed
qed

lemma unat_drop: "unat (drop_bit n (x :: u32)) = unat x div 2 ^ n"
  unfolding unat_drop_bit_eq by (rule drop_bit_eq_div)

lemma field_drop:
  assumes "c \<le> w" "w < 31"
  shows "field a b w div 2 ^ (w - c) = unat (drop_bit (32 - c) (push_bit (b mod 32) (a ! (b div 32))))"
proof -
  have "32 - c = 32 - w + (w - c)" using assms by simp
  then show ?thesis unfolding field_def unat_drop by (simp only: div_mult2_eq power_add)
qed

lemma abit_field:
  assumes "b mod 32 + k < 32"
  shows "abit a (b + k) = bit (a ! (b div 32)) (31 - b mod 32 - k)"
proof -
  have "b + k = b mod 32 + k + b div 32 * 32" using div_mult_mod_eq [of b 32] by linarith
  moreover have "(b mod 32 + k + b div 32 * 32) div 32 = b div 32" "(b mod 32 + k + b div 32 * 32) mod 32 = b mod 32 + k"
    using assms by (simp_all only: div_mult_self1 mod_mult_self1 mod_less div_less)
  ultimately have "(b + k) div 32 = b div 32" "(b + k) mod 32 = b mod 32 + k" by metis+
  then show ?thesis by (simp add: abit_def)
qed

lemma field_prefix:
  assumes "c \<le> w" "w < 31" "b mod 32 + w \<le> 32"
  shows "field x b w div 2 ^ (w - c) = field y b w div 2 ^ (w - c) \<longleftrightarrow> same_bits x y b c"
proof -
  have "abit a (b + k) = bit (a ! (b div 32)) (31 - b mod 32 - k)" if "k < c" for a k
    by (rule abit_field) (use that assms in linarith)
  then have "same_bits x y b c \<longleftrightarrow>
      (\<forall>k<c. bit (x ! (b div 32)) (31 - b mod 32 - k) = bit (y ! (b div 32)) (31 - b mod 32 - k))"
    by (simp add: same_bits_iff)
  also have "\<dots> \<longleftrightarrow> drop_bit (32 - c) (push_bit (b mod 32) (x ! (b div 32))) =
      drop_bit (32 - c) (push_bit (b mod 32) (y ! (b div 32)))"
    by (rule field_word_eq [symmetric]) (use assms in linarith)
  finally show ?thesis by (simp only: field_drop [OF assms(1,2)] word_unat_eq_iff)
qed

lemma field_less: "w \<le> 32 \<Longrightarrow> field a b w < 2 ^ w"
proof -
  assume "w \<le> 32"
  have "field a b w = unat (push_bit (b mod 32) (a ! (b div 32))) div 2 ^ (32 - w)"
    by (simp only: field_def unat_drop)
  also have "\<dots> < 2 ^ w"
    by (rule less_mult_imp_div_less) (use \<open>w \<le> 32\<close> unsigned_less [of "push_bit (b mod 32) (a ! (b div 32))"] in \<open>simp flip: power_add\<close>)
  finally show ?thesis .
qed

section \<open>Well-formed tables\<close>

definition nz :: "dir_entry \<times> u8 \<Rightarrow> int" where
  "nz r = (if fst r = Val 0 then 0 else 1)"

text \<open>
  A table at bit \<open>b\<close> has as many rows as its width gives, its count of used rows is right, an unused row has length 0,
  a data index comes from a prefix that ends in the table, and a sub table is well-formed at the next dimension.
\<close>

fun wf_sub :: "nat \<Rightarrow> nat list \<Rightarrow> dir_sub_table \<Rightarrow> bool" where
  "wf_sub b [] t \<longleftrightarrow> False"
| "wf_sub b (w # ds) t \<longleftrightarrow>
     width t = w \<and> length (rows t) = 2 ^ w \<and> filledEntries t = sum_list (map nz (rows t)) \<and>
     list_all (\<lambda>(e, l). case e of Val v \<Rightarrow> (v = 0 \<longleftrightarrow> l = 0) \<and> v < 2 ^ 32 \<and> unat l \<le> b + w
                               | Ptr s \<Rightarrow> l = 0 \<and> wf_sub (b + w) ds s) (rows t)"

definition wf_row :: "nat \<Rightarrow> nat list \<Rightarrow> dir_entry \<times> u8 \<Rightarrow> bool" where
  "wf_row b ds = (\<lambda>(e, l). case e of Val v \<Rightarrow> (v = 0 \<longleftrightarrow> l = 0) \<and> v < 2 ^ 32 \<and> unat l \<le> b | Ptr s \<Rightarrow> l = 0 \<and> wf_sub b ds s)"

lemma wf_row_simps [simp]:
  "wf_row b ds (Val v, l) \<longleftrightarrow> (v = 0 \<longleftrightarrow> l = 0) \<and> v < 2 ^ 32 \<and> unat l \<le> b"
  "wf_row b ds (Ptr s, l) \<longleftrightarrow> l = 0 \<and> wf_sub b ds s"
  by (simp_all add: wf_row_def)

lemma wf_row_cases:
  assumes "wf_row b ds r"
  obtains v l where "r = (Val v, l)" "v = 0 \<longleftrightarrow> l = 0" "v < 2 ^ 32" "unat l \<le> b"
        | s where "r = (Ptr s, 0)" "wf_sub b ds s"
  using assms by (cases r; cases "fst r") auto

lemma wf_sub_Cons:
  "wf_sub b (w # ds) t \<longleftrightarrow>
     width t = w \<and> length (rows t) = 2 ^ w \<and> filledEntries t = sum_list (map nz (rows t)) \<and>
     (\<forall>r \<in> set (rows t). wf_row (b + w) ds r)"
  by (simp add: wf_row_def list_all_iff)

declare wf_sub.simps(2) [simp del]

text \<open>What a row answers, and the memory it holds.\<close>

definition row_lookup :: "u32 list \<Rightarrow> nat \<Rightarrow> dir_entry \<times> u8 \<Rightarrow> (u64 \<times> u64) option" where
  "row_lookup a b = (\<lambda>(e, l). case e of Val v \<Rightarrow> Some (v, ucast l) | Ptr s \<Rightarrow> dir_sub_lookup a b s)"

lemma row_lookup_simps [simp]:
  "row_lookup a b (Val v, l) = Some (v, ucast l)"
  "row_lookup a b (Ptr s, l) = dir_sub_lookup a b s"
  by (simp_all add: row_lookup_def)

lemma wf_lookup:
  assumes "wf_sub b (w # ds) t" "fits n b (w # ds)" "n \<le> length a"
  shows "dir_sub_lookup a b t = row_lookup a (b + w) (rows t ! field a b w)"
proof -
  have "w \<le> 32" using assms(2) by simp
  from field_less [OF this] assms(1) have i: "field a b w < length (rows t)" by (simp add: wf_sub_Cons)
  then have "rows t ! field a b w \<in> set (rows t)" by simp
  with assms(1) have r: "wf_row (b + w) ds (rows t ! field a b w)" by (simp add: wf_sub_Cons)
  have "dir_index a b w = Some (field a b w)" using assms(2,3) by (intro dir_index_field [where n = n]) simp_all
  with i assms(1) show ?thesis
    by (subst dir_sub_lookup.simps) (cases rule: wf_row_cases [OF r]; auto simp: wf_sub_Cons)
qed

lemma lookup_total:
  "wf_sub b ds t \<Longrightarrow> fits n b ds \<Longrightarrow> n \<le> length a \<Longrightarrow> \<exists>r. dir_sub_lookup a b t = Some r"
proof (induction ds arbitrary: b t)
  case (Cons w ds)
  have "w \<le> 32" using Cons.prems(2) by simp
  from field_less [OF this] Cons.prems(1) have "field a b w < length (rows t)" by (simp add: wf_sub_Cons)
  then have "rows t ! field a b w \<in> set (rows t)" by simp
  with Cons.prems(1) have "wf_row (b + w) ds (rows t ! field a b w)" by (simp add: wf_sub_Cons)
  with Cons.IH [of "b + w"] Cons.prems show ?case
    by (auto simp: wf_lookup [OF Cons.prems] elim!: wf_row_cases)
qed simp

fun sub_mem :: "dir_sub_table \<Rightarrow> nat" and entry_mem :: "dir_entry \<Rightarrow> nat" where
  "sub_mem (Sub rs w c f) = sizeof_dir_sub_table + 9 * length rs + sum_list (map (\<lambda>r. entry_mem (fst r)) rs)"
| "entry_mem (Val v) = 0"
| "entry_mem (Ptr s) = sub_mem s"

definition row_mem :: "dir_entry \<times> u8 \<Rightarrow> u32" where
  "row_mem r = of_nat (entry_mem (fst r))"

lemma sub_mem_rows: "of_nat (sub_mem t) = of_nat (sizeof_dir_sub_table + 9 * length (rows t)) + sum_list (map row_mem (rows t))"
proof (cases t)
  case (Sub rs w c f)
  have "of_nat (sum_list (map (\<lambda>r. entry_mem (fst r)) rs)) = sum_list (map row_mem rs)"
    by (induction rs) (simp_all add: row_mem_def)
  with Sub show ?thesis by simp
qed

lemma sub_table_free_mem: "wf_sub b ds t \<Longrightarrow> sub_table_free t al = Some (al - of_nat (sub_mem t))"
proof (induction ds arbitrary: b t al)
  case (Cons w ds)
  obtain rs c f where t: "t = Sub rs w c f" using Cons.prems by (cases t) (simp add: wf_sub_Cons)
  have "free_rows rs' al = Some (al - sum_list (map row_mem rs'))" if "set rs' \<subseteq> set rs" for rs' al
    using that
  proof (induction rs' arbitrary: al)
    case (Cons r rs')
    then have "r \<in> set rs" by simp
    with \<open>wf_sub b (w # ds) t\<close> t have "wf_row (b + w) ds r" by (simp add: wf_sub_Cons)
    with Cons \<open>\<And>b t al. wf_sub b ds t \<Longrightarrow> sub_table_free t al = Some (al - of_nat (sub_mem t))\<close> [of "b + w"] show ?case
      by (auto simp: row_mem_def algebra_simps elim!: wf_row_cases)
  qed simp
  from this [OF subset_refl, of al] t sub_mem_rows [of t] show ?case by (simp add: algebra_simps)
qed simp

end
