(* ===== verification/Sfrt_Rows.thy ===== *)
theory Sfrt_Rows
  imports Sfrt_Route
begin

text \<open>
  The four loops over the rows of a table: filling for the most recent or the most specific prefix, and clearing.
  Each handles the rows in order, adds up the change of the count of used rows and threads the allocated size. The
  locale \<open>row_loop\<close> states that contract once; the four interpretations give what each loop does to every row.
\<close>

section \<open>The contract of a loop over rows\<close>

locale row_loop =
  fixes loop :: "nat \<Rightarrow> (dir_entry \<times> u8) list \<Rightarrow> 's \<Rightarrow> ((dir_entry \<times> u8) list \<times> int \<times> 's) option"
    and body :: "dir_entry \<times> u8 \<Rightarrow> 's \<Rightarrow> ((dir_entry \<times> u8) \<times> int \<times> 's) option"
    and cost :: "'s \<Rightarrow> u32"
  assumes loop_none: "loop 0 rs s = Some (rs, 0, s)"
    and loop_more: "loop (Suc n) (r # rs) s =
      (case body r s of
         None \<Rightarrow> None
       | Some (r', k, s') \<Rightarrow> map_option (\<lambda>(rs', k', s''). (r' # rs', k + k', s'')) (loop n rs s'))"
begin

definition handles :: "(dir_entry \<times> u8 \<Rightarrow> dir_entry \<times> u8 \<Rightarrow> bool) \<Rightarrow> dir_entry \<times> u8 \<Rightarrow> bool" where
  "handles Q r \<longleftrightarrow> (\<forall>s. \<exists>r' s'. body r s = Some (r', nz r' - nz r, s') \<and> Q r r' \<and>
     cost s' = cost s + (row_mem r' - row_mem r))"

lemma loop_rows:
  assumes "\<forall>r \<in> set rs. handles Q r" "n \<le> length rs"
  shows "\<exists>rs' s'. loop n rs s = Some (rs', sum_list (map nz rs') - sum_list (map nz rs), s') \<and>
           length rs' = length rs \<and> (\<forall>j < length rs. if j < n then Q (rs ! j) (rs' ! j) else rs' ! j = rs ! j) \<and>
           cost s' = cost s + (sum_list (map row_mem rs') - sum_list (map row_mem rs))"
  using assms
proof (induction n arbitrary: rs s)
  case 0
  then show ?case by (simp add: loop_none)
next
  case (Suc n)
  then obtain r rs1 where rs: "rs = r # rs1" by (cases rs) auto
  with Suc.prems(1) have "handles Q r" by simp
  then obtain r' s' where b: "body r s = Some (r', nz r' - nz r, s')" "Q r r'"
    "cost s' = cost s + (row_mem r' - row_mem r)" unfolding handles_def by blast
  from rs Suc.prems Suc.IH [of rs1 s'] obtain rs' s'' where
    l: "loop n rs1 s' = Some (rs', sum_list (map nz rs') - sum_list (map nz rs1), s'')" "length rs' = length rs1"
      "\<forall>j < length rs1. if j < n then Q (rs1 ! j) (rs' ! j) else rs' ! j = rs1 ! j"
      "cost s'' = cost s' + (sum_list (map row_mem rs') - sum_list (map row_mem rs1))" by auto
  have "\<forall>j < length rs. if j < Suc n then Q (rs ! j) ((r' # rs') ! j) else (r' # rs') ! j = rs ! j"
    using rs b(2) l(3) by (auto simp: nth_Cons split: nat.split if_splits)
  moreover have "loop (Suc n) rs s = Some (r' # rs', sum_list (map nz (r' # rs')) - sum_list (map nz rs), s'')"
    using rs b(1) l(1) by (simp add: loop_more)
  moreover have "cost s'' = cost s + (sum_list (map row_mem (r' # rs')) - sum_list (map row_mem rs))"
    using rs b(3) l(4) by simp
  ultimately show ?case using rs l(2) by (intro exI [of _ "r' # rs'"] exI [of _ s'']) simp
qed

text \<open>The same for a loop that starts at a row in the middle, as the operations on the last table do.\<close>

lemma loop_range:
  assumes "\<forall>r \<in> set rs. handles Q r" "i + n \<le> length rs"
  shows "\<exists>rs' s'. loop n (drop i rs) s = Some (rs', sum_list (map nz (take i rs @ rs')) - sum_list (map nz rs), s') \<and>
           length (take i rs @ rs') = length rs \<and>
           (\<forall>j < length rs. if i \<le> j \<and> j < i + n then Q (rs ! j) ((take i rs @ rs') ! j) else (take i rs @ rs') ! j = rs ! j) \<and>
           cost s' = cost s + (sum_list (map row_mem (take i rs @ rs')) - sum_list (map row_mem rs))"
proof -
  have "\<forall>r \<in> set (drop i rs). handles Q r" "n \<le> length (drop i rs)" using assms by (auto dest: in_set_dropD)
  from loop_rows [OF this, of s] obtain rs' s' where
    l: "loop n (drop i rs) s = Some (rs', sum_list (map nz rs') - sum_list (map nz (drop i rs)), s')"
      "length rs' = length (drop i rs)"
      "\<forall>j < length (drop i rs). if j < n then Q (drop i rs ! j) (rs' ! j) else rs' ! j = drop i rs ! j"
      "cost s' = cost s + (sum_list (map row_mem rs') - sum_list (map row_mem (drop i rs)))" by blast
  have split: "sum_list (map f rs) = sum_list (map f (take i rs)) + sum_list (map f (drop i rs))"
    for f :: "dir_entry \<times> u8 \<Rightarrow> 'b :: comm_monoid_add"
    by (metis append_take_drop_id map_append sum_list_append)
  have "\<forall>j < length rs. if i \<le> j \<and> j < i + n then Q (rs ! j) ((take i rs @ rs') ! j) else (take i rs @ rs') ! j = rs ! j"
  proof (intro allI impI)
    fix j assume j: "j < length rs"
    show "if i \<le> j \<and> j < i + n then Q (rs ! j) ((take i rs @ rs') ! j) else (take i rs @ rs') ! j = rs ! j"
    proof (cases "i \<le> j")
      case True
      then have "drop i rs ! (j - i) = rs ! j" "(take i rs @ rs') ! j = rs' ! (j - i)" "j - i < length (drop i rs)"
        "j - i < n \<longleftrightarrow> j < i + n"
        using j assms(2) by (auto simp: nth_append)
      with l(3) True show ?thesis by metis
    next
      case False
      with j show ?thesis by (simp add: nth_append)
    qed
  qed
  moreover have "length (take i rs @ rs') = length rs" using l(2) assms(2) by simp
  moreover have "sum_list (map nz rs') - sum_list (map nz (drop i rs)) =
      sum_list (map nz (take i rs @ rs')) - sum_list (map nz rs)"
    using split [of nz] by simp
  moreover have "sum_list (map row_mem rs') - sum_list (map row_mem (drop i rs)) =
      sum_list (map row_mem (take i rs @ rs')) - sum_list (map row_mem rs)"
    using split [of row_mem] by simp
  ultimately show ?thesis using l(1,4) by (intro exI [of _ rs'] exI [of _ s']) simp
qed

end

section \<open>Interpretations\<close>

interpretation fa: row_loop "\<lambda>n rs al. dir_fill_all n len val rs al" "fill_all_row len val" "\<lambda>al. al" for len val
  by unfold_locales (simp_all split: option.split)

interpretation fl: row_loop "\<lambda>n rs al. map_option (\<lambda>(rs', k). (rs', k, al)) (dir_fill_less_specific n len val rs)"
  "\<lambda>r al. map_option (\<lambda>(r', k). (r', k, al)) (fill_less_row len val r)" "\<lambda>al. al" for len val
  by unfold_locales (auto simp: map_option_case split: option.split)

lemma later_assoc: "later (later a b) c = later a (later b c)"
  by (simp add: later_def split: option.split)

lemma later_none: "later a None = a"
  by (simp add: later_def)

interpretation ra: row_loop
  "\<lambda>n rs (i, al). map_option (\<lambda>(i', rs', k, al'). (rs', k, later i i', al')) (dir_remove_all n len rs al)"
  "\<lambda>r (i, al). map_option (\<lambda>(i', r', k, al'). (r', k, later i i', al')) (remove_all_row len r al)" snd for len
  by unfold_locales (auto simp: map_option_case later_assoc later_none split: option.splits)

interpretation rl: row_loop
  "\<lambda>n rs (i, al). map_option (\<lambda>(i', rs', k, al'). (rs', k, later i i', al')) (dir_remove_less_specific n len rs al)"
  "\<lambda>r (i, al). map_option (\<lambda>(i', r', k, al'). (r', k, later i i', al')) (remove_less_row len r al)" snd for len
  by unfold_locales (auto simp: map_option_case later_assoc later_none split: option.splits)

end
