(* ===== verification/Sfrt_Change.thy ===== *)
theory Sfrt_Change
  imports Sfrt_Rows
begin

text \<open>
  What the loops do to the answers of a table: every address whose row is handled gets its answer changed by one
  function, the others keep theirs, and the table stays well-formed.
\<close>

section \<open>Changes of a row and of a table\<close>

definition fill_route :: "rt_behavior \<Rightarrow> nat \<Rightarrow> u32 \<Rightarrow> u64 \<times> u64 \<Rightarrow> u64 \<times> u64" where
  "fill_route behavior len val old =
     (if behavior = RT_FAVOR_TIME \<or> unat (snd old) \<le> len then (ucast val, of_nat len) else old)"

definition clear_route :: "nat \<Rightarrow> u64 \<times> u64 \<Rightarrow> u64 \<times> u64" where
  "clear_route len old = (if unat (snd old) = len then (0, 0) else old)"

definition changes :: "nat \<Rightarrow> nat list \<Rightarrow> (u64 \<times> u64 \<Rightarrow> u64 \<times> u64) \<Rightarrow> dir_entry \<times> u8 \<Rightarrow> dir_entry \<times> u8 \<Rightarrow> bool" where
  "changes b ds f r r' \<longleftrightarrow>
     wf_row b ds r' \<and> (\<forall>n a. fits n b ds \<longrightarrow> n \<le> length a \<longrightarrow> row_lookup a b r' = map_option f (row_lookup a b r))"

definition table_changes ::
  "nat \<Rightarrow> nat list \<Rightarrow> (u32 list \<Rightarrow> bool) \<Rightarrow> (u64 \<times> u64 \<Rightarrow> u64 \<times> u64) \<Rightarrow> dir_sub_table \<Rightarrow> dir_sub_table \<Rightarrow> bool"
where
  "table_changes b ds P f t t' \<longleftrightarrow>
     wf_sub b ds t' \<and>
     (\<forall>n a. fits n b ds \<longrightarrow> n \<le> length a \<longrightarrow>
        dir_sub_lookup a b t' = map_option (if P a then f else id) (dir_sub_lookup a b t))"

lemma rows_changed:
  assumes wf: "wf_sub b (w # ds) t" and len: "length rs' = length (rows t)"
    and rows: "\<And>j. j < length (rows t) \<Longrightarrow>
      if P j then changes (b + w) ds f (rows t ! j) (rs' ! j) else rs' ! j = rows t ! j"
    and PQ: "\<And>n a. fits n b (w # ds) \<Longrightarrow> P (field a b w) = Q a"
  shows "table_changes b (w # ds) Q f t (Sub rs' w c (sum_list (map nz rs')))"
proof -
  have "wf_row (b + w) ds (rs' ! j)" if "j < length rs'" for j
    using rows [of j] that len wf by (auto simp: changes_def wf_sub_Cons split: if_splits)
  then have wf': "wf_sub b (w # ds) (Sub rs' w c (sum_list (map nz rs')))"
    using wf len by (auto simp: wf_sub_Cons all_set_conv_all_nth)
  moreover have "dir_sub_lookup a b (Sub rs' w c (sum_list (map nz rs'))) =
      map_option (if Q a then f else id) (dir_sub_lookup a b t)"
    if n: "fits n b (w # ds)" "n \<le> length a" for n a
  proof -
    have "w \<le> 32" using n by simp
    from field_less [OF this] wf have "field a b w < length (rows t)" by (simp add: wf_sub_Cons)
    with rows [OF this] n show ?thesis
      by (auto simp: wf_lookup [OF wf n] wf_lookup [OF wf' n] PQ [OF n(1), symmetric] changes_def option.map_id
          split: if_splits)
  qed
  ultimately show ?thesis unfolding table_changes_def by blast
qed

section \<open>Filling\<close>

lemma length_byte: "len \<le> 128 \<Longrightarrow> unat (of_nat len :: u8) = len"
  by (simp add: unat_of_nat)

lemma length_word: "len \<le> 128 \<Longrightarrow> ucast (of_nat len :: u8) = (of_nat len :: u64)"
  by (rule word_unat_eq_iff [THEN iffD2]) (simp add: unat_of_nat unsigned_ucast_eq take_bit_eq_mod)

lemma new_row:
  fixes val :: u32
  assumes "0 < len" "len \<le> b" "len \<le> 128" "val \<noteq> 0"
  shows "wf_row b ds (Val (ucast val), of_nat len)"
    and "row_lookup a b (Val (ucast val), of_nat len) = Some (ucast val, of_nat len)"
    and "(of_nat len :: u8) \<noteq> 0"
proof -
  have "unat (ucast val :: u64) = unat val" for val :: u32
    using unat_u32_less [of val] by (simp add: unsigned_ucast_eq take_bit_eq_mod)
  moreover note unat_u32_less [of val]
  ultimately have "(ucast val :: u64) < 2 ^ 32" "(ucast val :: u64) \<noteq> 0"
    using assms(4) by (simp_all add: word_less_nat_alt word_unat_eq_iff)
  moreover show nz: "(of_nat len :: u8) \<noteq> 0" using length_byte [OF assms(3)] assms(1) by auto
  ultimately show "wf_row b ds (Val (ucast val), of_nat len)" using assms by (simp add: length_byte)
  show "row_lookup a b (Val (ucast val), of_nat len) = Some (ucast val, of_nat len)"
    using assms(3) by (simp add: length_word)
qed

lemma row_lookup_total:
  assumes "wf_row b ds r" "fits n b ds" "n \<le> length a"
  shows "\<exists>v. row_lookup a b r = Some v"
  using assms(1) by (cases rule: wf_row_cases) (use lookup_total assms in auto)

lemma fill_all_handles:
  assumes "wf_row b ds r" "0 < len" "len \<le> b" "len \<le> 128" "val \<noteq> 0"
  shows "fa.handles len val (changes b ds (fill_route RT_FAVOR_TIME len val)) r"
proof -
  let ?r = "(Val (ucast val), of_nat len) :: dir_entry \<times> u8"
  note new = new_row [OF assms(2-5)]
  have "changes b ds (fill_route RT_FAVOR_TIME len val) r ?r"
    using new row_lookup_total [OF assms(1)] by (fastforce simp: changes_def fill_route_def)
  moreover have "\<exists>al'. fill_all_row len val r al = Some (?r, nz ?r - nz r, al') \<and> al' = al + (row_mem ?r - row_mem r)" for al
    using assms(1)
  proof (cases rule: wf_row_cases)
    case (1 v l)
    then show ?thesis using new(1,3) by (auto simp: fill_all_row_def nz_def row_mem_def)
  next
    case (2 s)
    then show ?thesis using new(1,3) by (auto simp: fill_all_row_def nz_def row_mem_def sub_table_free_mem)
  qed
  ultimately show ?thesis unfolding fa.handles_def by blast
qed

lemma ptr_changed:
  "table_changes b ds (\<lambda>_. True) f s s' \<Longrightarrow> changes b ds f (Ptr s, 0) (Ptr s', 0)"
  by (simp add: changes_def table_changes_def)

lemma row_mem_ptr:
  "row_mem (Ptr (Sub rs w c f), l) = of_nat (sizeof_dir_sub_table + 9 * length rs) + sum_list (map row_mem rs)"
  using sub_mem_rows [of "Sub rs w c f"] by (simp add: row_mem_def)

lemma unat_length: "unat (ucast (l :: u8) :: u64) = unat l"
proof -
  have "unat l < 256" using unsigned_less [of l] by simp
  then show ?thesis by (simp add: unsigned_ucast_eq take_bit_eq_mod)
qed

lemma fill_less_value:
  assumes "v = 0 \<longleftrightarrow> l = 0" "v < 2 ^ 32" "unat l \<le> b" "0 < len" "len \<le> b" "len \<le> 128" "val \<noteq> 0" "behavior \<noteq> RT_FAVOR_TIME"
  shows "fl.handles len val (changes b ds (fill_route behavior len val)) (Val v, l)"
proof (cases "unat l \<le> len")
  case True
  note new = new_row [OF assms(4-7)]
  have "changes b ds (fill_route behavior len val) (Val v, l) (Val (ucast val), of_nat len)"
    using new True by (simp add: changes_def fill_route_def unat_length)
  with True new(1,3) assms(1) show ?thesis by (auto simp: fl.handles_def nz_def row_mem_def)
next
  case False
  then have "changes b ds (fill_route behavior len val) (Val v, l) (Val v, l)"
    using assms by (simp add: changes_def fill_route_def unat_length)
  with False assms(1) show ?thesis by (auto simp: fl.handles_def)
qed

lemma fill_less_table:
  assumes wf: "wf_sub b (w # ds) (Sub rs w c f)" and rows: "\<forall>r \<in> set rs. fl.handles len val (changes (b + w) ds F) r"
  shows "fl.handles len val (changes b (w # ds) F) (Ptr (Sub rs w c f), 0)"
proof -
  from wf have "2 ^ w \<le> length rs" by (simp add: wf_sub_Cons)
  from fl.loop_rows [OF rows this] obtain rs' where
    l: "dir_fill_less_specific (2 ^ w) len val rs = Some (rs', sum_list (map nz rs') - sum_list (map nz rs))"
      "length rs' = length rs" "sum_list (map row_mem rs') = sum_list (map row_mem rs)"
      "\<And>j. j < length rs \<Longrightarrow> changes (b + w) ds F (rs ! j) (rs' ! j)"
    using wf by (fastforce simp: wf_sub_Cons)
  let ?t = "Sub rs' w c (sum_list (map nz rs'))"
  have "table_changes b (w # ds) (\<lambda>_. True) F (Sub rs w c f) ?t"
    by (rule rows_changed [where P = "\<lambda>_. True", OF wf]) (use l in auto)
  moreover have "fill_less_row len val (Ptr (Sub rs w c f), 0) = Some ((Ptr ?t, 0), 0)"
    using l(1) wf by (simp add: wf_sub_Cons)
  moreover have "row_mem (Ptr ?t, 0) = row_mem (Ptr (Sub rs w c f), 0)"
    using l(2,3) by (simp add: row_mem_ptr)
  ultimately show ?thesis unfolding fl.handles_def
    by (intro allI exI [of _ "(Ptr ?t, 0)"] exI) (simp add: nz_def ptr_changed del: fill_less_row.simps)
qed

lemma fill_less_handles:
  assumes "wf_row b ds r" "0 < len" "len \<le> b" "len \<le> 128" "val \<noteq> 0" "behavior \<noteq> RT_FAVOR_TIME"
  shows "fl.handles len val (changes b ds (fill_route behavior len val)) r"
  using assms(1,3)
proof (induction ds arbitrary: b r)
  case Nil
  from Nil(1) show ?case
    by (cases rule: wf_row_cases) (use Nil assms in \<open>auto intro: fill_less_value\<close>)
next
  case (Cons w ds)
  from Cons.prems(1) show ?case
  proof (cases rule: wf_row_cases)
    case (2 s)
    then obtain rs c f where s: "s = Sub rs w c f" by (cases s) (simp add: wf_sub_Cons)
    with 2 have "\<forall>r \<in> set rs. wf_row (b + w) ds r" by (simp add: wf_sub_Cons)
    with Cons.IH [of "b + w"] Cons.prems(2) have "\<forall>r \<in> set rs. fl.handles len val (changes (b + w) ds (fill_route behavior len val)) r"
      by simp
    with fill_less_table 2 s show ?thesis by simp
  qed (use Cons.prems assms in \<open>auto intro: fill_less_value\<close>)
qed

section \<open>Clearing\<close>

lemma empty_table:
  assumes "wf_sub b (w # ds) t" "filledEntries t = 0" "fits n b (w # ds)" "n \<le> length a"
  shows "dir_sub_lookup a b t = Some (0, 0)"
proof -
  have "w \<le> 32" using assms(3) by simp
  from field_less [OF this] assms(1) have "rows t ! field a b w \<in> set (rows t)" by (simp add: wf_sub_Cons)
  moreover from this assms(1) have r: "wf_row (b + w) ds (rows t ! field a b w)" by (simp add: wf_sub_Cons)
  moreover have "sum_list (map nz rs) = 0 \<Longrightarrow> r \<in> set rs \<Longrightarrow> nz r = 0" for r rs
  proof -
    assume "sum_list (map nz rs) = 0" "r \<in> set rs"
    moreover have "\<forall>x \<in> set (map nz rs). 0 \<le> x" by (auto simp: nz_def)
    ultimately have "\<forall>x \<in> set (map nz rs). x = 0" using sum_list_nonneg_eq_0_iff [of "map nz rs"] by blast
    with \<open>r \<in> set rs\<close> show "nz r = 0" by simp
  qed
  ultimately have "nz (rows t ! field a b w) = 0" using assms(1,2) unfolding wf_sub_Cons by metis
  with r have "rows t ! field a b w = (Val 0, 0)" by (cases rule: wf_row_cases) (simp_all add: nz_def split: if_splits)
  then show ?thesis by (simp add: wf_lookup [OF assms(1,3,4)])
qed

lemma remove_value:
  assumes "v = 0 \<longleftrightarrow> l = 0" "v < 2 ^ 32" "unat l \<le> b" "0 < len"
  shows "rl.handles len (changes b ds (clear_route len)) (Val v, l)"
proof (cases "len = unat l")
  case True
  have "changes b ds (clear_route len) (Val v, l) (Val 0, 0)"
    using True by (simp add: changes_def clear_route_def unat_length)
  with True assms show ?thesis by (auto simp: rl.handles_def nz_def row_mem_def)
next
  case False
  then have "changes b ds (clear_route len) (Val v, l) (Val v, l)"
    using assms by (simp add: changes_def clear_route_def unat_length)
  with False assms show ?thesis by (auto simp: rl.handles_def nz_def)
qed

lemma remove_table:
  assumes wf: "wf_sub b (w # ds) (Sub rs w c f)" and rows: "\<forall>r \<in> set rs. rl.handles len (changes (b + w) ds F) r"
  shows "rl.handles len (changes b (w # ds) F) (Ptr (Sub rs w c f), 0)"
proof -
  let ?s = "Sub rs w c f"
  from wf have "2 ^ w \<le> length rs" and f: "f = sum_list (map nz rs)" by (simp_all add: wf_sub_Cons)
  have "\<exists>i' r' al'. remove_less_row len (Ptr ?s, 0) al = Some (i', r', nz r' - 1, al') \<and> changes b (w # ds) F (Ptr ?s, 0) r' \<and>
      al' = al + (row_mem r' - row_mem (Ptr ?s, 0))" for al
  proof -
    from rl.loop_rows [OF rows \<open>2 ^ w \<le> length rs\<close>, of "(None, al)"] wf obtain i rs' al' where
      l: "dir_remove_less_specific (2 ^ w) len rs al = Some (i, rs', sum_list (map nz rs') - sum_list (map nz rs), al')"
        "length rs' = length rs" "al' = al + (sum_list (map row_mem rs') - sum_list (map row_mem rs))"
        "\<And>j. j < length rs \<Longrightarrow> changes (b + w) ds F (rs ! j) (rs' ! j)"
      by (fastforce simp: wf_sub_Cons)
    let ?t = "Sub rs' w c (sum_list (map nz rs'))"
    have t: "table_changes b (w # ds) (\<lambda>_. True) F ?s ?t"
      by (rule rows_changed [where P = "\<lambda>_. True", OF wf]) (use l in auto)
    then have wf': "wf_sub b (w # ds) ?t" by (simp add: table_changes_def)
    show ?thesis
    proof (cases "sum_list (map nz rs') = 0")
      case True
      have "changes b (w # ds) F (Ptr ?s, 0) (Val 0, 0)"
        unfolding changes_def
      proof (intro conjI allI impI)
        fix n and a :: "u32 list" assume n: "fits n b (w # ds)" "n \<le> length a"
        with t have "dir_sub_lookup a b ?t = map_option F (dir_sub_lookup a b ?s)" unfolding table_changes_def by presburger
        with empty_table [OF wf' _ n] True
        show "row_lookup a b (Val 0, 0) = map_option F (row_lookup a b (Ptr ?s, 0))" by simp
      qed simp
      moreover have "al' - of_nat (sub_mem ?t) = al + (row_mem (Val 0, 0) - row_mem (Ptr ?s, 0))"
        using l(2,3) sub_mem_rows [of ?t] by (simp add: row_mem_ptr) (simp add: row_mem_def)
      ultimately show ?thesis using l(1) True f sub_table_free_mem [OF wf', of al'] by (simp add: nz_def)
    next
      case False
      moreover have "al' = al + (row_mem (Ptr ?t, 0) - row_mem (Ptr ?s, 0))" using l(2,3) by (simp add: row_mem_ptr)
      ultimately show ?thesis using l(1) f ptr_changed [OF t]
        by (intro exI [of _ "nonzero i"] exI [of _ "(Ptr ?t, 0)"] exI [of _ al']) (simp add: nz_def)
    qed
  qed
  moreover have "nz (Ptr ?s, 0) = 1" by (simp add: nz_def)
  ultimately show ?thesis unfolding rl.handles_def split_paired_All
    by (metis (mono_tags, lifting) case_prod_conv option.simps(9) snd_conv)
qed

lemma remove_handles:
  assumes "wf_row b ds r" "0 < len"
  shows "rl.handles len (changes b ds (clear_route len)) r"
  using assms(1)
proof (induction ds arbitrary: b r)
  case Nil
  from Nil(1) show ?case
    by (cases rule: wf_row_cases) (use Nil assms in \<open>auto intro: remove_value\<close>)
next
  case (Cons w ds)
  from Cons.prems(1) show ?case
  proof (cases rule: wf_row_cases)
    case (2 s)
    then obtain rs c f where s: "s = Sub rs w c f" by (cases s) (simp add: wf_sub_Cons)
    with 2 have "\<forall>r \<in> set rs. wf_row (b + w) ds r" by (simp add: wf_sub_Cons)
    with Cons.IH [of "b + w"] have "\<forall>r \<in> set rs. rl.handles len (changes (b + w) ds (clear_route len)) r"
      by simp
    with remove_table 2 s show ?thesis by simp
  qed (use Cons.prems assms in \<open>auto intro: remove_value\<close>)
qed

end
