(* ===== verification/Sfrt_Lpm.thy ===== *)
theory Sfrt_Lpm
  imports Sfrt_Change
begin

text \<open>
  Insertion and removal in a tree of tables: both change the answers of exactly the addresses of the prefix, and the
  allocated size follows the tables that are created and released.
\<close>

section \<open>The rows of a prefix\<close>

lemma prefix_range:
  fixes i w s :: nat
  assumes "i < 2 ^ w" "s \<le> w"
  shows "push_bit s (drop_bit s i) + 2 ^ s \<le> 2 ^ w"
    and "push_bit s (drop_bit s i) \<le> j \<and> j < push_bit s (drop_bit s i) + 2 ^ s \<longleftrightarrow> j div 2 ^ s = i div 2 ^ s"
proof -
  have b: "push_bit s (drop_bit s i) = i div 2 ^ s * 2 ^ s" by (simp add: push_bit_eq_mult drop_bit_eq_div)
  have "i div 2 ^ s < 2 ^ (w - s)"
    by (rule less_mult_imp_div_less) (use assms in \<open>simp flip: power_add\<close>)
  then have "(i div 2 ^ s + 1) * 2 ^ s \<le> 2 ^ (w - s) * 2 ^ s" by (intro mult_right_mono) simp_all
  then show "push_bit s (drop_bit s i) + 2 ^ s \<le> 2 ^ w" using assms(2) by (simp add: b flip: power_add)
  have "j div 2 ^ s = q \<longleftrightarrow> q * 2 ^ s \<le> j \<and> j < q * 2 ^ s + 2 ^ s" for q
    using div_nat_eqI [of "2 ^ s" q j] dividend_less_times_div [of "2 ^ s" j] times_div_less_eq_dividend [of "2 ^ s" j]
    by (auto simp: algebra_simps)
  then show "push_bit s (drop_bit s i) \<le> j \<and> j < push_bit s (drop_bit s i) + 2 ^ s \<longleftrightarrow> j div 2 ^ s = i div 2 ^ s"
    by (simp add: b)
qed

definition row_start :: "u32 list \<Rightarrow> nat \<Rightarrow> nat \<Rightarrow> nat \<Rightarrow> nat" where
  "row_start ip b w c = push_bit (w - c) (drop_bit (w - c) (field ip b w))"

context row_loop
begin

lemma range_changes:
  assumes wf: "wf_sub b (w # ds) t" and fit: "fits n b (w # ds)" and c: "c \<le> w"
    and rows: "\<forall>r \<in> set (rows t). handles (changes (b + w) ds f) r"
  shows "\<exists>rs' s' t'. loop (2 ^ (w - c)) (drop (row_start ip b w c) (rows t)) s = Some (rs', filledEntries t' - filledEntries t, s') \<and>
           t' = Sub (take (row_start ip b w c) (rows t) @ rs') w (sub_cur_num t) (filledEntries t') \<and>
           table_changes b (w # ds) (\<lambda>a. same_bits ip a b c) f t t' \<and>
           cost s' = cost s + (of_nat (sub_mem t') - of_nat (sub_mem t))"
proof -
  have w: "w < 31" "b mod 32 + w \<le> 32" using fit by simp_all
  from field_less [of w ip b] w(1) have lt: "field ip b w < 2 ^ w" by simp
  from prefix_range(1) [OF lt, of "w - c"] wf have "row_start ip b w c + 2 ^ (w - c) \<le> length (rows t)"
    by (simp add: wf_sub_Cons row_start_def)
  from loop_range [OF rows this, of s] obtain rs' s' where
    l: "loop (2 ^ (w - c)) (drop (row_start ip b w c) (rows t)) s =
          Some (rs', sum_list (map nz (take (row_start ip b w c) (rows t) @ rs')) - sum_list (map nz (rows t)), s')"
      "length (take (row_start ip b w c) (rows t) @ rs') = length (rows t)"
      "\<forall>j < length (rows t). if row_start ip b w c \<le> j \<and> j < row_start ip b w c + 2 ^ (w - c)
         then changes (b + w) ds f (rows t ! j) ((take (row_start ip b w c) (rows t) @ rs') ! j)
         else (take (row_start ip b w c) (rows t) @ rs') ! j = rows t ! j"
      "cost s' = cost s + (sum_list (map row_mem (take (row_start ip b w c) (rows t) @ rs')) - sum_list (map row_mem (rows t)))"
    by blast
  let ?rs = "take (row_start ip b w c) (rows t) @ rs'"
  let ?t = "Sub ?rs w (sub_cur_num t) (sum_list (map nz ?rs))"
  have "table_changes b (w # ds) (\<lambda>a. same_bits ip a b c) f t ?t"
  proof (rule rows_changed [OF wf l(2), where P = "\<lambda>j. row_start ip b w c \<le> j \<and> j < row_start ip b w c + 2 ^ (w - c)"])
    show "(row_start ip b w c \<le> field a b w \<and> field a b w < row_start ip b w c + 2 ^ (w - c)) = same_bits ip a b c" for a
      using prefix_range(2) [OF lt, of "w - c" "field a b w"] field_prefix [OF c w, of ip a] unfolding row_start_def by auto
  qed (use l(3) in auto)
  moreover have "of_nat (sub_mem ?t) - (of_nat (sub_mem t) :: u32) =
      sum_list (map row_mem ?rs) - sum_list (map row_mem (rows t))"
    using l(2) sub_mem_rows [of ?t] sub_mem_rows [of t] by simp
  moreover have "filledEntries t = sum_list (map nz (rows t))" using wf by (simp add: wf_sub_Cons)
  ultimately show ?thesis using l(1,4)
    by (intro exI [of _ rs'] exI [of _ s'] exI [of _ ?t]) simp
qed

end

section \<open>One row\<close>

lemma sum_list_replace:
  fixes xs :: "'a :: ab_group_add list"
  shows "j < length xs \<Longrightarrow> sum_list (xs[j := y]) = sum_list xs + (y - xs ! j)"
proof (induction xs arbitrary: j)
  case (Cons x xs)
  then show ?case by (cases j) (simp_all add: algebra_simps)
qed simp

lemma sub_mem_replace:
  assumes "j < length (rows t)"
  shows "of_nat (sub_mem (Sub ((rows t)[j := r']) w c fe)) = (of_nat (sub_mem t) + (row_mem r' - row_mem (rows t ! j)) :: u32)"
  using assms sub_mem_rows [of "Sub ((rows t)[j := r']) w c fe"] sub_mem_rows [of t]
  by (simp add: map_update sum_list_replace)

lemma row_replaced:
  assumes wf: "wf_sub b (w # ds) t" and fit: "fits N b (w # ds)" and j: "j = field ip b w"
    and r': "wf_row (b + w) ds r'"
      "\<And>n a. fits n (b + w) ds \<Longrightarrow> n \<le> length a \<Longrightarrow>
         row_lookup a (b + w) r' = map_option (if P a then f else id) (row_lookup a (b + w) (rows t ! j))"
    and fe: "fe = filledEntries t + (nz r' - nz (rows t ! j))"
  shows "table_changes b (w # ds) (\<lambda>a. same_bits ip a b w \<and> P a) f t (Sub ((rows t)[j := r']) w c fe)"
proof -
  have w: "w < 31" "b mod 32 + w \<le> 32" using fit by simp_all
  from field_less [of w ip b] w(1) wf j have lt: "j < length (rows t)" by (simp add: wf_sub_Cons)
  have upd: "sum_list (map nz ((rows t)[j := r'])) = sum_list (map nz (rows t)) + (nz r' - nz (rows t ! j))"
    using lt by (simp add: map_update sum_list_replace)
  let ?t = "Sub ((rows t)[j := r']) w c fe"
  have "\<forall>r \<in> set ((rows t)[j := r']). wf_row (b + w) ds r"
    using r'(1) wf set_update_subset_insert [of "rows t" j r'] by (auto simp: wf_sub_Cons)
  then have wf': "wf_sub b (w # ds) ?t" using wf fe upd by (simp add: wf_sub_Cons)
  show "table_changes b (w # ds) (\<lambda>a. same_bits ip a b w \<and> P a) f t ?t"
    unfolding table_changes_def
  proof (intro conjI allI impI, rule wf')
    fix n and a :: "u32 list" assume n: "fits n b (w # ds)" "n \<le> length a"
    have "field a b w = j \<longleftrightarrow> same_bits ip a b w"
      using field_prefix [OF order_refl w, of ip a] j by auto
    with r'(2) [of n a] n lt show "dir_sub_lookup a b ?t =
        map_option (if same_bits ip a b w \<and> P a then f else id) (dir_sub_lookup a b t)"
      by (auto simp: wf_lookup [OF wf' n] wf_lookup [OF wf n] option.map_id nth_list_update)
  qed
qed

section \<open>Insertion\<close>

lemma insert_rows_changes:
  assumes wf: "wf_sub b (w # ds) t" and fit: "fits n b (w # ds)" and c: "0 < cur_len" "cur_len \<le> w"
    and len: "len = b + cur_len" "len \<le> 128" and val: "val \<noteq> 0"
  shows "\<exists>t'. insert_rows len cur_len val (field ip b w) behavior t root =
             Some (t', root\<lparr>allocated := allocated root + (of_nat (sub_mem t') - of_nat (sub_mem t))\<rparr>) \<and>
           table_changes b (w # ds) (\<lambda>a. same_bits ip a b cur_len) (fill_route behavior len val) t t'"
proof -
  have rows: "wf_row (b + w) ds r" if "r \<in> set (rows t)" for r using wf that by (simp add: wf_sub_Cons)
  have wt: "width t = w" using wf by (simp add: wf_sub_Cons)
  show ?thesis
  proof (cases "behavior = RT_FAVOR_TIME")
    case True
    have "\<forall>r \<in> set (rows t). fa.handles len val (changes (b + w) ds (fill_route behavior len val)) r"
      using rows c len val True by (auto intro!: fill_all_handles)
    from fa.range_changes [OF wf fit c(2) this, where ip = ip and s = "allocated root"] True wt show ?thesis
      by (auto simp: insert_rows_def from_row_def row_start_def Let_def)
  next
    case False
    have "\<forall>r \<in> set (rows t). fl.handles len val (changes (b + w) ds (fill_route behavior len val)) r"
      using rows c len val False by (auto intro!: fill_less_handles)
    from fl.range_changes [OF wf fit c(2) this, where ip = ip and s = "allocated root"] False wt show ?thesis
      by (auto simp: insert_rows_def from_row_def row_start_def Let_def)
  qed
qed

lemma ucast_index: "v < 2 ^ 32 \<Longrightarrow> ucast (ucast (v :: u64) :: u32) = v"
  by (rule word_unat_eq_iff [THEN iffD2])
     (simp add: unsigned_ucast_eq unsigned_take_bit_eq word_less_nat_alt take_bit_nat_eq_self)

lemma new_sub_table:
  fixes l :: u8
  assumes dims: "drop d (dimensions root) = w # ds" and w: "w < 31"
    and row: "v = 0 \<longleftrightarrow> l = 0" "v < 2 ^ 32" "unat l \<le> b"
  obtains "sub_table_new root d (ucast v) (unat l) = Some (None, root)"
    | t root' where "sub_table_new root d (ucast v) (unat l) = Some (Some t, root')" "wf_sub b (w # ds) t"
        "dimensions root' = dimensions root" "mem_cap root' = mem_cap root"
        "allocated root' = allocated root + of_nat (sub_mem t)"
        "\<And>n a. fits n b (w # ds) \<Longrightarrow> n \<le> length a \<Longrightarrow> dir_sub_lookup a b t = Some (v, ucast l)"
proof -
  have d: "d < length (dimensions root)" "dimensions root ! d = w"
    using dims by (metis drop_all leI list.distinct(1)) (metis dims hd_drop_conv_nth drop_all leI list.distinct(1) list.sel(1))
  show thesis
  proof (cases "unat (mem_cap root) < unat (allocated root) + (sizeof_dir_sub_table + 8 * 2 ^ w + 2 ^ w) \<or> unat l > 128")
    case True
    with d w have "sub_table_new root d (ucast v) (unat l) = Some (None, root)"
      by (simp add: sub_table_new_def Let_def add.assoc)
    then show thesis by (rule that(1))
  next
    case False
    let ?rs = "replicate (2 ^ w) (Val v, l)" let ?t = "Sub ?rs w 0 (if v \<noteq> 0 then int (2 ^ w) else 0)"
    have z: "ucast v \<noteq> (0 :: u32) \<longleftrightarrow> v \<noteq> 0" using ucast_index [OF row(2)] by force
    have mem: "sub_mem ?t = sizeof_dir_sub_table + 8 * 2 ^ w + 2 ^ w"
      by (simp add: sum_list_replicate)
    have new: "sub_table_new root d (ucast v) (unat l) = Some (Some ?t,
        root\<lparr>allocated := allocated root + of_nat (sub_mem ?t), dir_cur_num := dir_cur_num root + 1\<rparr>)"
      unfolding mem using False d w z ucast_index [OF row(2)] by (simp add: sub_table_new_def Let_def add.assoc)
    have wf: "wf_sub b (w # ds) ?t"
      using row by (simp add: wf_sub_Cons nz_def sum_list_replicate)
    have "dir_sub_lookup a b ?t = Some (v, ucast l)" if n: "fits n b (w # ds)" "n \<le> length a" for n a
    proof -
      have "field a b w < 2 ^ w" using field_less [of w a b] w by simp
      then show ?thesis by (simp add: wf_lookup [OF wf n])
    qed
    with that(2) [OF new wf] show thesis by (simp del: fits.simps sub_mem.simps)
  qed
qed

text \<open>
  The outcome of an insertion into a table: it returns; the allocated size follows the tables; and the answers of the
  addresses of the prefix change, or, when the memory cap is met, are lost.
\<close>

definition inserted ::
  "nat \<Rightarrow> nat list \<Rightarrow> (u32 list \<Rightarrow> bool) \<Rightarrow> (u64 \<times> u64 \<Rightarrow> u64 \<times> u64) \<Rightarrow> dir_sub_table \<Rightarrow> dir_table \<Rightarrow>
   (return_codes \<times> dir_sub_table \<times> dir_table) option \<Rightarrow> bool"
where
  "inserted b ds P f t root out \<longleftrightarrow>
     (\<exists>rc t' root'. out = Some (rc, t', root') \<and>
        dimensions root' = dimensions root \<and> mem_cap root' = mem_cap root \<and>
        allocated root' = allocated root + (of_nat (sub_mem t') - of_nat (sub_mem t)) \<and>
        (rc = MEM_ALLOC_FAILURE \<and>
           (\<forall>n a. fits n b ds \<longrightarrow> n \<le> length a \<longrightarrow> P a \<longrightarrow> dir_sub_lookup a b t' = Some (0, 0)) \<or>
         rc = RT_SUCCESS \<and> table_changes b ds P f t t'))"

lemma replaced_lookup:
  assumes "wf_sub b (w # ds) t" "fits n b (w # ds)" "n \<le> length a" "same_bits ip a b w" "j = field ip b w"
  shows "dir_sub_lookup a b (Sub ((rows t)[j := (Ptr s, 0)]) w c fe) = dir_sub_lookup a (b + w) s"
    and "dir_sub_lookup a b (Sub ((rows t)[j := (Val 0, 0)]) w c fe) = Some (0, 0)"
proof -
  have w: "w < 31" "b mod 32 + w \<le> 32" using assms(2) by simp_all
  have "field a b w = j" using field_prefix [OF order_refl w, of ip a] assms(4,5) by simp
  moreover have "dir_index a b w = Some (field a b w)"
    using assms(2,3) by (intro dir_index_field [where n = n]) simp_all
  moreover have "j < length (rows t)" using field_less [of w ip b] w assms(1,5) by (simp add: wf_sub_Cons)
  ultimately show "dir_sub_lookup a b (Sub ((rows t)[j := (Ptr s, 0)]) w c fe) = dir_sub_lookup a (b + w) s"
    "dir_sub_lookup a b (Sub ((rows t)[j := (Val 0, 0)]) w c fe) = Some (0, 0)"
    by (subst dir_sub_lookup.simps, simp)+
qed

lemma inserted_below:
  assumes wf: "wf_sub b (w # ds) t" and fit: "fits N b (w # ds)" and j: "j = field ip b w"
    and ins: "inserted (b + w) ds P f next root1 out"
    and same: "\<And>n a. fits n (b + w) ds \<Longrightarrow> n \<le> length a \<Longrightarrow> row_lookup a (b + w) (rows t ! j) = dir_sub_lookup a (b + w) next"
    and root1: "dimensions root1 = dimensions root" "mem_cap root1 = mem_cap root"
      "allocated root1 = allocated root + (of_nat (sub_mem next) - row_mem (rows t ! j))"
    and fe: "fe = filledEntries t + (1 - nz (rows t ! j))"
  shows "inserted b (w # ds) (\<lambda>a. same_bits ip a b w \<and> P a) f t root
           (map_option (\<lambda>(rc, next', root2). (rc, Sub ((rows t)[j := (Ptr next', 0)]) w c fe, root2)) out)"
proof -
  from ins obtain rc next' root2 where o: "out = Some (rc, next', root2)" "dimensions root2 = dimensions root1"
    "mem_cap root2 = mem_cap root1" "allocated root2 = allocated root1 + (of_nat (sub_mem next') - of_nat (sub_mem next))"
    "rc = MEM_ALLOC_FAILURE \<and>
       (\<forall>n a. fits n (b + w) ds \<longrightarrow> n \<le> length a \<longrightarrow> P a \<longrightarrow> dir_sub_lookup a (b + w) next' = Some (0, 0)) \<or>
     rc = RT_SUCCESS \<and> table_changes (b + w) ds P f next next'"
    unfolding inserted_def by blast
  have "j < length (rows t)" using field_less [of w ip b] fit wf j by (simp add: wf_sub_Cons)
  from sub_mem_replace [OF this, of "(Ptr next', 0)" w c fe]
  have m: "allocated root2 = allocated root + (of_nat (sub_mem (Sub ((rows t)[j := (Ptr next', 0)]) w c fe)) - of_nat (sub_mem t))"
    using o(4) root1(3) by (simp add: row_mem_def)
  have "rc = RT_SUCCESS \<Longrightarrow>
      table_changes b (w # ds) (\<lambda>a. same_bits ip a b w \<and> P a) f t (Sub ((rows t)[j := (Ptr next', 0)]) w c fe)"
  proof (rule row_replaced [OF wf fit j])
    assume "rc = RT_SUCCESS"
    with o(5) have t: "table_changes (b + w) ds P f next next'" by simp
    then show "wf_row (b + w) ds (Ptr next', 0)" by (simp add: table_changes_def)
    show "row_lookup a (b + w) (Ptr next', 0) = map_option (if P a then f else id) (row_lookup a (b + w) (rows t ! j))"
      if "fits n (b + w) ds" "n \<le> length a" for n a
      using t that same [OF that] unfolding table_changes_def by auto
  qed (use fe in \<open>simp add: nz_def\<close>)
  moreover have "dir_sub_lookup a b (Sub ((rows t)[j := (Ptr next', 0)]) w c fe) = Some (0, 0)"
    if "rc = MEM_ALLOC_FAILURE" "fits n b (w # ds)" "n \<le> length a" "same_bits ip a b w \<and> P a" for n a
    using replaced_lookup(1) [OF wf that(2,3) _ j] that o(5) by auto
  ultimately show ?thesis using o m root1(1,2) unfolding inserted_def by (auto simp del: fits.simps)
qed

lemma insert_inserted:
  assumes "wf_sub b ds t" "fits N b ds" "N \<le> length ip" "0 < cur_len" "cur_len \<le> sum_list ds" "len = b + cur_len"
    "len \<le> 128" "(ucast ptr :: u32) \<noteq> 0" "drop depth (dimensions root) = ds"
  shows "inserted b ds (\<lambda>a. same_bits ip a b cur_len) (fill_route behavior len (ucast ptr)) t root
           (dir_sub_insert ip b len cur_len ptr depth behavior t root)"
  using assms
proof (induction ds arbitrary: b t cur_len depth root)
  case (Cons w ds)
  note wf = Cons.prems(1) and fit = Cons.prems(2)
  let ?j = "field ip b w" let ?f = "fill_route behavior len (ucast ptr)"
  have wt: "width t = w" using wf by (simp add: wf_sub_Cons)
  have ix: "dir_index ip b (width t) = Some ?j"
    unfolding wt using fit Cons.prems(3) by (intro dir_index_field [where n = N]) simp_all
  show ?case
  proof (cases "cur_len \<le> w")
    case True
    from insert_rows_changes [OF wf fit Cons.prems(4) True Cons.prems(6-8), of ip behavior root] obtain t' where
      "insert_rows len cur_len (ucast ptr) ?j behavior t root =
         Some (t', root\<lparr>allocated := allocated root + (of_nat (sub_mem t') - of_nat (sub_mem t))\<rparr>)"
      "table_changes b (w # ds) (\<lambda>a. same_bits ip a b cur_len) ?f t t'" by blast
    then show ?thesis using True ix wt by (subst dir_sub_insert.simps) (simp add: inserted_def)
  next
    case False
    have j: "?j < length (rows t)" using field_less [of w ip b] fit wf by (simp add: wf_sub_Cons)
    then have row: "wf_row (b + w) ds (rows t ! ?j)" using wf by (simp add: wf_sub_Cons)
    have P: "(\<lambda>a. same_bits ip a b cur_len) = (\<lambda>a. same_bits ip a b w \<and> same_bits ip a (b + w) (cur_len - w))"
      using same_bits_split [of ip _ b w "cur_len - w"] False by (simp add: fun_eq_iff)
    have dims: "drop (depth + 1) (dimensions root) = ds" "\<not> length (dimensions root) \<le> depth"
      using Cons.prems(9) by (metis Suc_eq_plus1 drop_Suc list.sel(3) tl_drop) (metis Cons.prems(9) drop_all list.distinct(1))
    have IH: "inserted (b + w) ds (\<lambda>a. same_bits ip a (b + w) (cur_len - w)) ?f s root1
        (dir_sub_insert ip (b + w) len (cur_len - w) ptr (depth + 1) behavior s root1)"
      if "wf_sub (b + w) ds s" "dimensions root1 = dimensions root" for s root1
      by (rule Cons.IH) (use that False Cons.prems dims(1) in auto)
    from row show ?thesis
    proof (cases rule: wf_row_cases)
      case (1 v l)
      have new_ds: "drop (depth + 1) (dimensions root) = hd ds # tl ds" "hd ds < 31"
        using dims(1) False Cons.prems(5) fit by (cases ds; simp)+
      from new_sub_table [OF new_ds 1(2-4)] show ?thesis
      proof (cases)
        case a: 1
        from sub_mem_replace [OF j, of "(Val 0, 0)" w "sub_cur_num t + 1" "filledEntries t + (if v = 0 then 1 else 0)"] 1(1)
        show ?thesis unfolding P using False j ix wt 1 dims(2) a replaced_lookup(2) [OF wf _ _ _ refl]
          by (subst dir_sub_insert.simps) (auto simp: inserted_def row_mem_def)
      next
        case (2 s root1)
        have ds: "ds = hd ds # tl ds" using dims(1) new_ds(1) by simp
        have "inserted b (w # ds) (\<lambda>a. same_bits ip a b w \<and> same_bits ip a (b + w) (cur_len - w)) ?f t root
          (map_option (\<lambda>(rc, next', root2). (rc, Sub ((rows t)[?j := (Ptr next', 0)]) w (sub_cur_num t + 1)
             (filledEntries t + (if v = 0 then 1 else 0)), root2))
           (dir_sub_insert ip (b + w) len (cur_len - w) ptr (depth + 1) behavior s root1))"
        proof (rule inserted_below [OF wf fit refl IH])
          show "wf_sub (b + w) ds s" using 2(2) ds by simp
          show "row_lookup a (b + w) (rows t ! ?j) = dir_sub_lookup a (b + w) s"
            if "fits n (b + w) ds" "n \<le> length a" for n a
            using 2(6) [of n a] that ds 1(1) by simp
        qed (use 1 2 in \<open>auto simp: nz_def row_mem_def\<close>)
        then show ?thesis unfolding P
          using False j ix wt 1 dims(2) 2(1) by (subst dir_sub_insert.simps) simp
      qed
    next
      case (2 s)
      have "inserted b (w # ds) (\<lambda>a. same_bits ip a b w \<and> same_bits ip a (b + w) (cur_len - w)) ?f t root
          (map_option (\<lambda>(rc, next', root2). (rc, Sub ((rows t)[?j := (Ptr next', 0)]) w (sub_cur_num t) (filledEntries t), root2))
           (dir_sub_insert ip (b + w) len (cur_len - w) ptr (depth + 1) behavior s root))"
        by (rule inserted_below [OF wf fit refl IH]) (use 2 in \<open>auto simp: nz_def row_mem_def\<close>)
      then show ?thesis unfolding P
        using False j ix wt 2 by (subst dir_sub_insert.simps) simp
    qed
  qed
qed simp

section \<open>Removal\<close>

definition removed ::
  "nat \<Rightarrow> nat list \<Rightarrow> (u32 list \<Rightarrow> bool) \<Rightarrow> (u64 \<times> u64 \<Rightarrow> u64 \<times> u64) \<Rightarrow> dir_sub_table \<Rightarrow> dir_table \<Rightarrow>
   (u32 \<times> dir_sub_table \<times> dir_table) option \<Rightarrow> bool"
where
  "removed b ds P f t root out \<longleftrightarrow>
     (\<exists>i t' root'. out = Some (i, t', root') \<and> dimensions root' = dimensions root \<and> mem_cap root' = mem_cap root \<and>
        allocated root' = allocated root + (of_nat (sub_mem t') - of_nat (sub_mem t)) \<and> table_changes b ds P f t t')"

lemma remove_rows_changes:
  assumes wf: "wf_sub b (w # ds) t" and fit: "fits n b (w # ds)" and c: "cur_len \<le> w"
    and len: "0 < len" and beh: "behavior \<noteq> RT_FAVOR_TIME"
  shows "removed b (w # ds) (\<lambda>a. same_bits ip a b cur_len) (clear_route len) t root
           (remove_rows len cur_len (field ip b w) behavior t root)"
proof -
  have rows: "wf_row (b + w) ds r" if "r \<in> set (rows t)" for r using wf that by (simp add: wf_sub_Cons)
  have wt: "width t = w" using wf by (simp add: wf_sub_Cons)
  have "\<forall>r \<in> set (rows t). rl.handles len (changes (b + w) ds (clear_route len)) r"
    using rows len by (auto intro!: remove_handles)
  from rl.range_changes [OF wf fit c this, where ip = ip and s = "(None, allocated root)"] beh wt show ?thesis
    by (auto simp: remove_rows_def from_row_def row_start_def Let_def removed_def)
qed

lemma collapsed:
  assumes t: "table_changes b ds P f s s'" and e: "filledEntries s' = 0" and n: "fits n b ds" "n \<le> length a"
  shows "row_lookup a b (Val 0, 0) = map_option (if P a then f else id) (dir_sub_lookup a b s)"
proof -
  from t have wf: "wf_sub b ds s'" by (simp add: table_changes_def)
  then obtain w ds' where "ds = w # ds'" by (cases ds) auto
  with empty_table [of b w ds' s' n a] wf e n have "dir_sub_lookup a b s' = Some (0, 0)" by simp
  with t n show ?thesis unfolding table_changes_def by auto
qed

lemma remove_removed:
  assumes "wf_sub b ds t" "fits N b ds" "N \<le> length ip" "0 < cur_len" "len = b + cur_len" "behavior \<noteq> RT_FAVOR_TIME"
  shows "removed b ds (\<lambda>a. same_bits ip a b cur_len) (clear_route len) t root
           (dir_sub_remove ip b len cur_len behavior t root)"
  using assms
proof (induction ds arbitrary: b t cur_len root)
  case (Cons w ds)
  note wf = Cons.prems(1) and fit = Cons.prems(2)
  let ?j = "field ip b w"
  have wt: "width t = w" using wf by (simp add: wf_sub_Cons)
  have ix: "dir_index ip b (width t) = Some ?j"
    unfolding wt using fit Cons.prems(3) by (intro dir_index_field [where n = N]) simp_all
  show ?case
  proof (cases "cur_len \<le> w")
    case True
    with remove_rows_changes [OF wf fit True _ Cons.prems(6), of len ip root] Cons.prems(4,5) ix wt
    show ?thesis by (subst dir_sub_remove.simps) simp
  next
    case False
    have j: "?j < length (rows t)" using field_less [of w ip b] fit wf by (simp add: wf_sub_Cons)
    then have row: "wf_row (b + w) ds (rows t ! ?j)" using wf by (simp add: wf_sub_Cons)
    have P: "(\<lambda>a. same_bits ip a b cur_len) = (\<lambda>a. same_bits ip a b w \<and> same_bits ip a (b + w) (cur_len - w))"
      using same_bits_split [of ip _ b w "cur_len - w"] False by (simp add: fun_eq_iff)
    have t: "t = Sub (rows t) w (sub_cur_num t) (filledEntries t)" using wt by (cases t) simp
    from row show ?thesis
    proof (cases rule: wf_row_cases)
      case (1 v l)
      have "table_changes b (w # ds) (\<lambda>a. same_bits ip a b w \<and> same_bits ip a (b + w) (cur_len - w)) (clear_route len) t
          (Sub ((rows t)[?j := rows t ! ?j]) w (sub_cur_num t) (filledEntries t))"
        by (rule row_replaced [OF wf fit refl row]) (use 1 False Cons.prems in \<open>auto simp: clear_route_def unat_length\<close>)
      then show ?thesis unfolding P list_update_id t [symmetric] using False j ix wt 1
        by (subst dir_sub_remove.simps) (auto simp: removed_def)
    next
      case (2 s)
      have "removed (b + w) ds (\<lambda>a. same_bits ip a (b + w) (cur_len - w)) (clear_route len) s root
          (dir_sub_remove ip (b + w) len (cur_len - w) behavior s root)"
        by (rule Cons.IH) (use 2 False Cons.prems in auto)
      then obtain i s' root' where o: "dir_sub_remove ip (b + w) len (cur_len - w) behavior s root = Some (i, s', root')"
        "dimensions root' = dimensions root" "mem_cap root' = mem_cap root"
        "allocated root' = allocated root + (of_nat (sub_mem s') - of_nat (sub_mem s))"
        "table_changes (b + w) ds (\<lambda>a. same_bits ip a (b + w) (cur_len - w)) (clear_route len) s s'"
        unfolding removed_def by blast
      then have wf': "wf_sub (b + w) ds s'" by (simp add: table_changes_def)
      let ?r = "if filledEntries s' = 0 then (Val 0, 0) else (Ptr s', 0)"
      let ?t = "Sub ((rows t)[?j := ?r]) w (sub_cur_num t) (filledEntries t + (nz ?r - nz (rows t ! ?j)))"
      have "table_changes b (w # ds) (\<lambda>a. same_bits ip a b w \<and> same_bits ip a (b + w) (cur_len - w)) (clear_route len) t ?t"
      proof (rule row_replaced [OF wf fit refl _ _ refl])
        show "wf_row (b + w) ds ?r" using wf' by simp
        show "row_lookup a (b + w) ?r = map_option (if same_bits ip a (b + w) (cur_len - w) then clear_route len else id)
            (row_lookup a (b + w) (rows t ! ?j))" if n: "fits n (b + w) ds" "n \<le> length a" for n a
        proof (cases "filledEntries s' = 0")
          case True
          from collapsed [OF o(5) this n] True 2(1) show ?thesis by simp
        next
          case False
          with o(5) n 2(1) show ?thesis unfolding table_changes_def by auto
        qed
      qed
      moreover have "of_nat (sub_mem ?t) = (of_nat (sub_mem t) + (row_mem ?r - of_nat (sub_mem s)) :: u32)"
        using sub_mem_replace [OF j] 2(1) by (simp add: row_mem_def)
      ultimately show ?thesis unfolding P
        using False j ix wt 2 o sub_table_free_mem [OF wf']
        by (subst dir_sub_remove.simps) (auto simp: removed_def nz_def row_mem_def split: if_splits)
    qed
  qed
qed simp

end
