(* ===== verification/Sfrt_Session.thy ===== *)
theory Sfrt_Session
  imports Sfrt_Lpm Simulation
begin

text \<open>
  Sessions on a DIR-n-m table against a map from addresses to routes: every lookup answers the route that the
  insertions and removals before it leave, which for a session of insertions is the longest prefix that matches, and
  the allocated size is the size of the tables, so that releasing them leaves what the root itself takes.
\<close>

section \<open>Sessions\<close>

datatype dir_op = Insert "u32 list" nat u64 | Remove "u32 list" nat | Lookup "u32 list"
datatype dir_answer = Code return_codes | Removed | Found "u64 \<times> u64"

fun dir_step :: "rt_behavior \<Rightarrow> dir_op \<Rightarrow> dir_table \<Rightarrow> (dir_answer \<times> dir_table) option" where
  "dir_step behavior (Insert addr len i) root = map_option (apfst Code) (sfrt_dir_insert addr len i behavior root)"
| "dir_step behavior (Remove addr len) root = map_option (apfst (\<lambda>_. Removed)) (sfrt_dir_remove addr len behavior root)"
| "dir_step behavior (Lookup addr) root = map_option (\<lambda>r. (Found r, root)) (sfrt_dir_lookup addr root)"

text \<open>The specification: a map from addresses to the index and length of the route that applies.\<close>

definition in_prefix :: "u32 list \<Rightarrow> nat \<Rightarrow> u32 list \<Rightarrow> bool" where
  "in_prefix addr len q = same_bits (map ntohl addr) (map ntohl q) 0 len"

fun route_step :: "rt_behavior \<Rightarrow> dir_op \<Rightarrow> (u32 list \<Rightarrow> u64 \<times> u64) \<Rightarrow> dir_answer \<times> (u32 list \<Rightarrow> u64 \<times> u64)" where
  "route_step behavior (Insert addr len i) m =
     (Code RT_SUCCESS, \<lambda>q. if in_prefix addr len q then fill_route behavior len (ucast i) (m q) else m q)"
| "route_step behavior (Remove addr len) m =
     (Removed, \<lambda>q. if in_prefix addr len q then clear_route len (m q) else m q)"
| "route_step behavior (Lookup addr) m = (Found (m addr), m)"

text \<open>
  What a session may do: addresses have the words that the dimensions cover, lengths are between 1 and the number of
  bits, data indices are not 0, removal is for sessions that favor specific routes, and memory does not run out.
\<close>

fun dir_ok :: "nat \<Rightarrow> rt_behavior \<Rightarrow> dir_op \<Rightarrow> dir_table \<Rightarrow> bool" where
  "dir_ok n behavior (Insert addr len i) root \<longleftrightarrow>
     length addr = n \<and> 0 < len \<and> len \<le> sum_list (dimensions root) \<and> (ucast i :: u32) \<noteq> 0 \<and>
     map_option fst (sfrt_dir_insert addr len i behavior root) \<noteq> Some MEM_ALLOC_FAILURE"
| "dir_ok n behavior (Remove addr len) root \<longleftrightarrow>
     length addr = n \<and> 0 < len \<and> len \<le> sum_list (dimensions root) \<and> behavior \<noteq> RT_FAVOR_TIME"
| "dir_ok n behavior (Lookup addr) root \<longleftrightarrow> length addr = n"

definition tables_ok :: "nat \<Rightarrow> dir_table \<Rightarrow> bool" where
  "tables_ok n root \<longleftrightarrow>
     0 < n \<and> fits n 0 (dimensions root) \<and> wf_sub 0 (dimensions root) (sub_table root) \<and>
     allocated root = of_nat (sizeof_dir_table + 4 * length (dimensions root) + sub_mem (sub_table root))"

definition routes :: "nat \<Rightarrow> dir_table \<Rightarrow> (u32 list \<Rightarrow> u64 \<times> u64) \<Rightarrow> bool" where
  "routes n root m \<longleftrightarrow> tables_ok n root \<and> (\<forall>q. length q = n \<longrightarrow> sfrt_dir_lookup q root = Some (m q))"

lemma fits_bits: "fits n b ds \<Longrightarrow> ds \<noteq> [] \<Longrightarrow> b + sum_list ds \<le> 32 * n \<and> n \<le> 4"
proof (induction ds arbitrary: b)
  case (Cons w ds)
  have "b mod 32 + w \<le> 32" using Cons.prems(1) by simp
  then have "b + w \<le> 32 * (b div 32 + 1)" by presburger
  also have "b div 32 < n" by (rule less_mult_imp_div_less) (use Cons.prems(1) in simp)
  then have "32 * (b div 32 + 1) \<le> 32 * n" by simp
  finally show ?case using Cons.IH [of "b + w"] Cons.prems(1) by (cases ds) auto
qed simp

lemma h_addr_prefix:
  assumes "length addr = n" "0 < len" "len \<le> 32 * n" "n \<le> 4"
  shows "\<exists>ip. h_addr addr len = Some ip \<and> length ip = 4 \<and>
           (\<forall>q. same_bits ip q 0 len = same_bits (map ntohl addr) q 0 len)"
proof -
  define k :: nat where "k = (if len > 96 then 4 else if len > 64 then 3 else if len > 32 then 2 else 1)"
  have k: "k \<le> n" "len \<le> 32 * k" "k \<le> 4" using assms by (auto simp: k_def)
  let ?ip = "map ntohl (take k addr) @ replicate (4 - k) 0"
  have "h_addr addr len = Some ?ip" using k assms(1) by (simp add: h_addr_def Let_def k_def [symmetric])
  moreover have "abit ?ip i = abit (map ntohl addr) i" if "i < len" for i
  proof -
    have "i div 32 < k" using that k(2) by (simp add: less_mult_imp_div_less mult.commute order_less_le_trans)
    then show ?thesis using k assms(1) by (simp add: abit_def nth_append)
  qed
  ultimately show ?thesis using k assms(1) by (intro exI [of _ ?ip]) (simp add: same_bits_iff)
qed

lemma tables_ok_dims:
  assumes "tables_ok n root"
  shows "dimensions root \<noteq> []" "n \<le> 4" "sum_list (dimensions root) \<le> 32 * n" "n > 0"
proof -
  show d: "dimensions root \<noteq> []" using assms by (auto simp: tables_ok_def)
  from assms have "fits n 0 (dimensions root)" by (simp add: tables_ok_def)
  from fits_bits [OF this d] show "n \<le> 4" "sum_list (dimensions root) \<le> 32 * n" by simp_all
  show "n > 0" using assms by (simp add: tables_ok_def)
qed

lemma lookup_words:
  "0 < length q \<Longrightarrow> length q \<le> 4 \<Longrightarrow> sfrt_dir_lookup q root = dir_sub_lookup (map ntohl q) 0 (sub_table root)"
  by (auto simp: sfrt_dir_lookup_def)

lemma routes_changed:
  assumes R: "routes n root m"
    and t: "table_changes 0 (dimensions root) P f (sub_table root) t'"
    and root': "dimensions root' = dimensions root"
      "allocated root' = allocated root + (of_nat (sub_mem t') - of_nat (sub_mem (sub_table root)))"
    and P: "\<And>q. P (map ntohl q) = Q q"
  shows "routes n (root'\<lparr>sub_table := t'\<rparr>) (\<lambda>q. if Q q then f (m q) else m q)"
proof -
  from R have ok: "tables_ok n root" by (simp add: routes_def)
  have ok': "tables_ok n (root'\<lparr>sub_table := t'\<rparr>)"
    using ok t root' by (simp add: tables_ok_def table_changes_def)
  have "sfrt_dir_lookup q (root'\<lparr>sub_table := t'\<rparr>) = Some (if Q q then f (m q) else m q)" if q: "length q = n" for q
  proof -
    have "fits n 0 (dimensions root)" using ok by (simp add: tables_ok_def)
    with t q have "dir_sub_lookup (map ntohl q) 0 t' =
        map_option (if P (map ntohl q) then f else id) (dir_sub_lookup (map ntohl q) 0 (sub_table root))"
      unfolding table_changes_def by simp
    moreover have "dir_sub_lookup (map ntohl q) 0 (sub_table root) = Some (m q)"
      using R q tables_ok_dims [OF ok] by (simp add: routes_def lookup_words)
    ultimately show ?thesis using q tables_ok_dims [OF ok] by (simp add: P lookup_words)
  qed
  with ok' show ?thesis by (simp add: routes_def)
qed

lemma insert_outcome:
  assumes t: "tables_ok n root" and addr: "length addr = n" "0 < len" "len \<le> sum_list (dimensions root)" "(ucast i :: u32) \<noteq> 0"
  shows "\<exists>rc root'. sfrt_dir_insert addr len i behavior root = Some (rc, root') \<and> dimensions root' = dimensions root \<and>
    (rc = RT_SUCCESS \<and> (\<forall>m. routes n root m \<longrightarrow>
       routes n root' (\<lambda>q. if in_prefix addr len q then fill_route behavior len (ucast i) (m q) else m q)) \<or>
     rc = MEM_ALLOC_FAILURE \<and> (\<forall>q. length q = n \<longrightarrow> in_prefix addr len q \<longrightarrow> sfrt_dir_lookup q root' = Some (0, 0)))"
proof -
  note d = tables_ok_dims [OF t]
  from addr(3) d have len: "len \<le> 32 * n" by simp
  from h_addr_prefix [OF addr(1,2) this d(2)] obtain ip where ip: "h_addr addr len = Some ip" "length ip = 4"
    "\<And>q. same_bits ip q 0 len = same_bits (map ntohl addr) q 0 len" by blast
  have "inserted 0 (dimensions root) (\<lambda>a. same_bits ip a 0 len) (fill_route behavior len (ucast i)) (sub_table root) root
      (dir_sub_insert ip 0 len len i 0 behavior (sub_table root) root)"
    by (rule insert_inserted [where N = n]) (use t d addr ip(2) len in \<open>auto simp: tables_ok_def\<close>)
  then obtain rc t' root' where o: "dir_sub_insert ip 0 len len i 0 behavior (sub_table root) root = Some (rc, t', root')"
    "dimensions root' = dimensions root"
    "allocated root' = allocated root + (of_nat (sub_mem t') - of_nat (sub_mem (sub_table root)))"
    "rc = MEM_ALLOC_FAILURE \<and> (\<forall>m a. fits m 0 (dimensions root) \<longrightarrow> m \<le> length a \<longrightarrow> same_bits ip a 0 len \<longrightarrow>
       dir_sub_lookup a 0 t' = Some (0, 0)) \<or>
     rc = RT_SUCCESS \<and>
       table_changes 0 (dimensions root) (\<lambda>a. same_bits ip a 0 len) (fill_route behavior len (ucast i)) (sub_table root) t'"
    unfolding inserted_def by blast
  have e: "sfrt_dir_insert addr len i behavior root = Some (rc, root'\<lparr>sub_table := t'\<rparr>)"
    using ip(1) o(1) by (simp add: sfrt_dir_insert_def)
  from o(4) show ?thesis
  proof (elim disjE conjE)
    assume rc: "rc = MEM_ALLOC_FAILURE" and lost: "\<forall>m a. fits m 0 (dimensions root) \<longrightarrow> m \<le> length a \<longrightarrow> same_bits ip a 0 len \<longrightarrow>
       dir_sub_lookup a 0 t' = Some (0, 0)"
    have "sfrt_dir_lookup q (root'\<lparr>sub_table := t'\<rparr>) = Some (0, 0)" if "length q = n" "in_prefix addr len q" for q
      using that lost [rule_format, of n "map ntohl q"] t d ip(3) by (auto simp: lookup_words in_prefix_def tables_ok_def)
    with e rc o(2) show ?thesis by auto
  next
    assume rc: "rc = RT_SUCCESS" and c: "table_changes 0 (dimensions root) (\<lambda>a. same_bits ip a 0 len)
      (fill_route behavior len (ucast i)) (sub_table root) t'"
    from routes_changed [OF _ c o(2,3), of n _ "in_prefix addr len"] ip(3) e rc o(2) show ?thesis by (simp add: in_prefix_def)
  qed
qed

lemma insert_step:
  assumes R: "routes n root m" and ok: "dir_ok n behavior (Insert addr len i) root"
  shows "\<exists>root'. sfrt_dir_insert addr len i behavior root = Some (RT_SUCCESS, root') \<and>
           routes n root' (\<lambda>q. if in_prefix addr len q then fill_route behavior len (ucast i) (m q) else m q)"
proof -
  from R have "tables_ok n root" by (simp add: routes_def)
  from insert_outcome [OF this, of addr len i behavior] ok R show ?thesis by auto
qed

lemma remove_step:
  assumes R: "routes n root m" and ok: "dir_ok n behavior (Remove addr len) root"
  shows "\<exists>i root'. sfrt_dir_remove addr len behavior root = Some (i, root') \<and>
           routes n root' (\<lambda>q. if in_prefix addr len q then clear_route len (m q) else m q)"
proof -
  from R have t: "tables_ok n root" by (simp add: routes_def)
  note d = tables_ok_dims [OF t]
  from ok d have len: "length addr = n" "0 < len" "len \<le> 32 * n" by auto
  from h_addr_prefix [OF this d(2)] obtain ip where ip: "h_addr addr len = Some ip" "length ip = 4"
    "\<And>q. same_bits ip q 0 len = same_bits (map ntohl addr) q 0 len" by blast
  have "removed 0 (dimensions root) (\<lambda>a. same_bits ip a 0 len) (clear_route len) (sub_table root) root
      (dir_sub_remove ip 0 len len behavior (sub_table root) root)"
    by (rule remove_removed [where N = n]) (use t d ok ip(2) len in \<open>auto simp: tables_ok_def\<close>)
  then obtain i t' root' where o: "dir_sub_remove ip 0 len len behavior (sub_table root) root = Some (i, t', root')"
    "dimensions root' = dimensions root"
    "allocated root' = allocated root + (of_nat (sub_mem t') - of_nat (sub_mem (sub_table root)))"
    "table_changes 0 (dimensions root) (\<lambda>a. same_bits ip a 0 len) (clear_route len) (sub_table root) t'"
    unfolding removed_def by blast
  from routes_changed [OF R o(4,2,3), of "in_prefix addr len"] ip(1,3) o(1) show ?thesis
    by (simp add: in_prefix_def sfrt_dir_remove_def)
qed

interpretation dir: simulation "dir_step behavior" "route_step behavior" "routes n" "dir_ok n behavior" for n behavior
proof unfold_locales
  fix root m x assume R: "routes n root m" and ok: "dir_ok n behavior x root"
  show "\<exists>root'. dir_step behavior x root = Some (fst (route_step behavior x m), root') \<and> routes n root' (snd (route_step behavior x m))"
  proof (cases x)
    case (Insert addr len i)
    with insert_step [OF R, of behavior addr len i] ok show ?thesis by auto
  next
    case (Remove addr len)
    with remove_step [OF R, of behavior addr len] ok show ?thesis by auto
  next
    case (Lookup addr)
    with R ok show ?thesis by (simp add: routes_def)
  qed
qed

lemma new_routes:
  assumes new: "sfrt_dir_new cap dims = Some (Some root)" and fit: "fits n 0 dims" "0 < n"
  shows "routes n root (\<lambda>_. (0, 0))"
proof -
  let ?r = "\<lparr>dimensions = dims, mem_cap = cap, dir_cur_num = 0, allocated = 0, sub_table = Sub [] 0 0 0\<rparr>"
  from new obtain w ds where dims: "dims = w # ds"
    by (cases dims) (simp_all add: sfrt_dir_new_def sub_table_new_def)
  have 1: "drop 0 (dimensions ?r) = w # ds" "w < 31" using dims fit by simp_all
  have 2: "(0 :: u64) = 0 \<longleftrightarrow> (0 :: u8) = 0" "(0 :: u64) < 2 ^ 32" "unat (0 :: u8) \<le> 0" by simp_all
  from new_sub_table [OF 1 2] show ?thesis
  proof cases
    case a: 1
    with new show ?thesis by (simp add: sfrt_dir_new_def)
  next
    case (2 t root1)
    from 2(1) new have root: "root = root1\<lparr>sub_table := t,
        allocated := allocated root1 + of_nat (sizeof_dir_table + 4 * length dims)\<rparr>"
      by (simp add: sfrt_dir_new_def)
    have ok: "tables_ok n root" using 2(2-5) root dims fit by (simp add: tables_ok_def)
    have "sfrt_dir_lookup q root = Some (0, 0)" if "length q = n" for q
      using tables_ok_dims [OF ok] 2(6) [of n "map ntohl q"] that root fit dims by (simp add: lookup_words)
    with ok show ?thesis by (simp add: routes_def)
  qed
qed

section \<open>The longest prefix\<close>

definition route_len :: "u32 list \<times> nat \<times> u64 \<Rightarrow> nat" where
  "route_len r = fst (snd r)"

definition best_route :: "(u32 list \<times> nat \<times> u64) list \<Rightarrow> u32 list \<Rightarrow> u64 \<times> u64" where
  "best_route rs q =
     (let ms = filter (\<lambda>(addr, len, i). in_prefix addr len q) rs;
          longest = Max (set (map route_len ms))
      in if ms = [] then (0, 0)
         else (case last (filter (\<lambda>r. route_len r = longest) ms) of
                 (addr, len, i) \<Rightarrow> (ucast (ucast i :: u32), of_nat len)))"

definition inserts :: "(u32 list \<times> nat \<times> u64) list \<Rightarrow> dir_op list" where
  "inserts rs = map (\<lambda>(addr, len, i). Insert addr len i) rs"

lemma unat_len: "len \<le> 128 \<Longrightarrow> unat (of_nat len :: u64) = len"
  by (simp add: unat_of_nat)

lemma best_route_snoc:
  assumes "\<forall>(a, l, i) \<in> set rs. 0 < l \<and> l \<le> 128"
  shows "best_route (rs @ [(addr, len, i)]) q =
           (if in_prefix addr len q then fill_route RT_FAVOR_SPECIFIC len (ucast i) (best_route rs q) else best_route rs q)"
proof (cases "in_prefix addr len q")
  case True
  define ms where "ms = filter (\<lambda>(addr, len, i). in_prefix addr len q) rs"
  let ?out = "\<lambda>(a :: u32 list, l :: nat, i :: u64). (ucast (ucast i :: u32), of_nat l) :: u64 \<times> u64"
  have new: "best_route (rs @ [(addr, len, i)]) q =
      ?out (last (filter (\<lambda>r. route_len r = Max (set (map route_len (ms @ [(addr, len, i)])))) (ms @ [(addr, len, i)])))"
    using True by (simp add: best_route_def Let_def ms_def)
  show ?thesis
  proof (cases "ms = []")
    case e: True
    then have "best_route rs q = (0, 0)" by (simp add: best_route_def Let_def ms_def)
    with True new e show ?thesis by (simp add: fill_route_def)
  next
    case e: False
    let ?m = "Max (set (map route_len ms))"
    have mem: "?m \<in> set (map route_len ms)" using e by (intro Max_in) simp_all
    then obtain y where "y \<in> set ms" "route_len y = ?m" by auto
    then have ne: "filter (\<lambda>r. route_len r = ?m) ms \<noteq> []" by (auto simp: filter_empty_conv)
    have old: "best_route rs q = ?out (last (filter (\<lambda>r. route_len r = ?m) ms))"
      using e by (simp add: best_route_def Let_def ms_def)
    have "last (filter (\<lambda>r. route_len r = ?m) ms) \<in> set (filter (\<lambda>r. route_len r = ?m) ms)" using ne by (rule last_in_set)
    then have "route_len (last (filter (\<lambda>r. route_len r = ?m) ms)) = ?m" by simp
    moreover have "snd (?out r) = of_nat (route_len r)" for r by (cases r) (simp add: route_len_def)
    ultimately have "snd (best_route rs q) = of_nat ?m" unfolding old by metis
    moreover have "?m \<le> 128" using mem assms by (auto simp: ms_def route_len_def)
    ultimately have u: "unat (snd (best_route rs q)) = ?m" by (simp add: unat_len)
    have mx: "Max (set (map route_len (ms @ [(addr, len, i)]))) = max len ?m" using e by (simp add: route_len_def)
    show ?thesis
    proof (cases "?m \<le> len")
      case le: True
      with True new u mx show ?thesis by (simp add: fill_route_def max_absorb1 route_len_def)
    next
      case False
      then have "max len ?m = ?m" by simp
      with False True new u mx ne old show ?thesis by (simp add: fill_route_def route_len_def)
    qed
  qed
next
  case False
  then show ?thesis by (simp add: best_route_def)
qed

lemma spec_inserts:
  assumes "\<forall>(a, l, i) \<in> set rs. 0 < l \<and> l \<le> 128" "\<forall>(a, l, i) \<in> set rs0. 0 < l \<and> l \<le> 128"
  shows "spec_run (route_step RT_FAVOR_SPECIFIC) (inserts rs @ [Lookup q]) (best_route rs0) =
           (replicate (length rs) (Code RT_SUCCESS) @ [Found (best_route (rs0 @ rs) q)], best_route (rs0 @ rs))"
  using assms
proof (induction rs arbitrary: rs0)
  case (Cons r rs)
  obtain a l i where r: "r = (a, l, i)" by (cases r)
  have "(\<lambda>x. if in_prefix a l x then fill_route RT_FAVOR_SPECIFIC l (ucast i) (best_route rs0 x) else best_route rs0 x) =
      best_route (rs0 @ [r])"
    unfolding r by (simp add: fun_eq_iff best_route_snoc [OF Cons.prems(2)])
  with Cons.IH [of "rs0 @ [r]"] Cons.prems r show ?case by (simp add: inserts_def)
qed (simp add: inserts_def)

section \<open>Properties\<close>


text \<open>A session on the \<^verbatim>\<open>DIR_2x16\<close> table: two routes for 10.0.0.0/8 and 10.1.0.0/16, then the removal of the second.\<close>

definition dir_2x16 :: dir_table where
  "dir_2x16 = the (the (sfrt_dir_new 3000 (replicate 16 2)))"

lemma dir_2x16_new: "sfrt_dir_new 3000 (replicate 16 2) = Some (Some dir_2x16)"
  by code_simp


text \<open>
  C5. Longest prefix match: after any insertions that favor specific routes and succeed, a lookup returns the index
  and the length of the longest inserted prefix that the address has, the last one inserted of that length, and index
  0 when it has none.
\<close>

theorem dir_longest_prefix:
  assumes "sfrt_dir_new cap dims = Some (Some root)" "fits n 0 dims" "0 < n"
    and "\<forall>(a, l, i) \<in> set rs. 0 < l \<and> l \<le> 128"
    and "allowed (dir_step RT_FAVOR_SPECIFIC) (dir_ok n RT_FAVOR_SPECIFIC) (inserts rs @ [Lookup q]) root"
  shows "\<exists>root'. run (dir_step RT_FAVOR_SPECIFIC) (inserts rs @ [Lookup q]) root =
           Some (replicate (length rs) (Code RT_SUCCESS) @ [Found (best_route rs q)], root')"
proof -
  have "best_route [] = (\<lambda>_. (0, 0))" by (simp add: fun_eq_iff best_route_def)
  with spec_inserts [OF assms(4), of "[]" q]
  have "fst (spec_run (route_step RT_FAVOR_SPECIFIC) (inserts rs @ [Lookup q]) (\<lambda>_. (0, 0))) =
      replicate (length rs) (Code RT_SUCCESS) @ [Found (best_route rs q)]" by simp
  with dir.run_sim [OF new_routes [OF assms(1-3)] assms(5)] show ?thesis by force
qed

theorem dir_longest_prefix_witness:
  "\<exists>root'. run (dir_step RT_FAVOR_SPECIFIC)
       (inserts [([0x010a], 16, 2), ([0x0a], 8, 1), ([0x00fe010a], 24, 3)] @ [Lookup [0x0302010a]]) dir_2x16 =
     Some ([Code RT_SUCCESS, Code RT_SUCCESS, Code RT_SUCCESS, Found (2, 16)], root')"
proof -
  let ?rs = "[([0x010a], 16, 2), ([0x0a], 8, 1), ([0x00fe010a], 24, 3)] :: (u32 list \<times> nat \<times> u64) list"
  have "fits 1 0 (replicate 16 2)" by code_simp
  moreover have "allowed (dir_step RT_FAVOR_SPECIFIC) (dir_ok 1 RT_FAVOR_SPECIFIC) (inserts ?rs @ [Lookup [0x0302010a]]) dir_2x16"
    by code_simp
  moreover have "best_route ?rs [0x0302010a] = (2, 16)" by code_simp
  ultimately show ?thesis
    using dir_longest_prefix [OF dir_2x16_new, of 1 ?rs "[0x0302010a]"] by (simp add: numeral_3_eq_3)
qed


text \<open>A table with room for its root only: a route of two bits, then one of four below it.\<close>

definition dir_full :: dir_table where
  "dir_full = snd (the (sfrt_dir_insert [0x40] 2 1 RT_FAVOR_SPECIFIC (the (the (sfrt_dir_new 120 [2, 2])))))"

definition dir_full_after :: dir_table where
  "dir_full_after = snd (the (sfrt_dir_insert [0x50] 4 2 RT_FAVOR_SPECIFIC dir_full))"


end
