(* ===== verification/Sf_Ip.thy ===== *)
theory Sf_Ip
  imports Address_Bits
begin

unbundle bit_operations_syntax

text \<open>
  IP addresses and CIDR blocks of \<^verbatim>\<open>sfip/sf_ip.h\<close>, \<^verbatim>\<open>sfip/sf_ip.cc\<close>, \<^verbatim>\<open>sfip/sf_cidr.h\<close> and \<^verbatim>\<open>sfip/sf_cidr.cc\<close>. An address is
  four 32-bit words in network order, an IPv4 address being kept as the IPv6 address that maps it; the union gives the
  same memory as 16-bit and 8-bit values, in the order of a little-endian host.
\<close>

section \<open>Addresses\<close>

record sf_ip =
  ip32 :: "u32 list"
  family :: int

definition AF_INET :: int where
  "AF_INET = 2"

definition AF_INET6 :: int where
  "AF_INET6 = 10"

datatype sf_ip_ret =
    SFIP_SUCCESS | SFIP_FAILURE | SFIP_LESSER | SFIP_GREATER | SFIP_EQUAL | SFIP_ARG_ERR | SFIP_CONTAINS | SFIP_NOT_CONTAINS

definition ip16 :: "sf_ip \<Rightarrow> nat \<Rightarrow> u16" where
  "ip16 ip k = ucast (drop_bit (16 * (k mod 2)) (ip32 ip ! (k div 2)))"

definition ip8 :: "sf_ip \<Rightarrow> nat \<Rightarrow> u8" where
  "ip8 ip k = ucast (drop_bit (8 * (k mod 4)) (ip32 ip ! (k div 4)))"

definition ip_clear :: "sf_ip \<Rightarrow> sf_ip" where
  "ip_clear ip = ip\<lparr>family := 0, ip32 := [0, 0, 0, 0]\<rparr>"

definition get_ip4_value :: "sf_ip \<Rightarrow> u32" where
  "get_ip4_value ip = ip32 ip ! 3"

definition is_ip6 :: "sf_ip \<Rightarrow> bool" where
  "is_ip6 ip \<longleftrightarrow> family ip = AF_INET6"

definition is_ip4 :: "sf_ip \<Rightarrow> bool" where
  "is_ip4 ip \<longleftrightarrow> family ip = AF_INET"

definition is_set :: "sf_ip \<Rightarrow> bool" where
  "is_set ip \<longleftrightarrow>
     family ip = AF_INET \<and> ip32 ip ! 3 \<noteq> 0 \<or>
     family ip = AF_INET6 \<and>
       (ip32 ip ! 0 \<noteq> 0 \<or> ip32 ip ! 1 \<noteq> 0 \<or> ip32 ip ! 3 \<noteq> 0 \<or> ip16 ip 4 \<noteq> 0 \<or> ip16 ip 5 \<noteq> 0 \<and> ip16 ip 5 \<noteq> 0xffff)"

definition is_loopback :: "sf_ip \<Rightarrow> bool" where
  "is_loopback ip \<longleftrightarrow>
     (if ip32 ip ! 0 \<noteq> 0 \<or> ip32 ip ! 1 \<noteq> 0 \<or> ip16 ip 4 \<noteq> 0 then False
      else if ip16 ip 5 = 0xffff then ip8 ip 12 = 0x7f
      else if ip16 ip 5 = 0 then ip32 ip ! 3 = ntohl 1 \<or> ip8 ip 12 = 0x7f
      else False)"

definition private4 :: "sf_ip \<Rightarrow> bool" where
  "private4 ip \<longleftrightarrow> ip8 ip 12 = 10 \<or> ip8 ip 12 = 172 \<and> ip8 ip 13 AND 0xf0 = 16 \<or> ip8 ip 12 = 192 \<and> ip8 ip 13 = 168"

definition is_private :: "sf_ip \<Rightarrow> bool" where
  "is_private ip \<longleftrightarrow>
     (if ip32 ip ! 0 \<noteq> 0 \<or> ip32 ip ! 1 \<noteq> 0 \<or> ip16 ip 4 \<noteq> 0 then False
      else if ip16 ip 5 = 0xffff then private4 ip
      else if ip16 ip 5 = 0 then private4 ip \<or> ip32 ip ! 3 = ntohl 1
      else False)"

definition is_mapped :: "sf_ip \<Rightarrow> bool" where
  "is_mapped ip \<longleftrightarrow>
     \<not> (ip32 ip ! 0 \<noteq> 0 \<or> ip32 ip ! 1 \<noteq> 0 \<or> ip16 ip 4 \<noteq> 0 \<or> ip16 ip 5 \<noteq> 0xffff \<and> ip16 ip 5 \<noteq> 0)"

text \<open>The raw setters take the words that the source pointer points to.\<close>

definition set_raw :: "u32 list \<Rightarrow> int \<Rightarrow> sf_ip \<Rightarrow> sf_ip_ret \<times> sf_ip" where
  "set_raw src fam ip =
     (if fam = AF_INET then (SFIP_SUCCESS, ip\<lparr>family := fam, ip32 := [0, 0, 0xffff0000, src ! 0]\<rparr>)
      else if fam = AF_INET6 then (SFIP_SUCCESS, ip\<lparr>family := fam, ip32 := take 4 src\<rparr>)
      else (SFIP_ARG_ERR, ip\<lparr>family := fam\<rparr>))"

definition set_raw6 :: "u32 list \<Rightarrow> sf_ip \<Rightarrow> sf_ip_ret \<times> sf_ip" where
  "set_raw6 src ip =
     (if src ! 0 = 0 \<and> src ! 1 = 0 \<and> src ! 2 = 0xffff0000 then set_raw [src ! 3] AF_INET ip
      else set_raw src AF_INET6 ip)"

section \<open>Comparison\<close>

definition is_equals :: "sf_ip \<Rightarrow> sf_ip \<Rightarrow> bool" where
  "is_equals ip rhs \<longleftrightarrow>
     (if is_ip4 ip then is_ip4 rhs \<and> ip32 ip ! 3 = ip32 rhs ! 3
      else if is_ip6 ip then
        is_ip6 rhs \<and> ip32 ip ! 0 = ip32 rhs ! 0 \<and> ip32 ip ! 1 = ip32 rhs ! 1 \<and> ip32 ip ! 2 = ip32 rhs ! 2 \<and>
        ip32 ip ! 3 = ip32 rhs ! 3
      else False)"

definition is_lesser :: "sf_ip \<Rightarrow> sf_ip \<Rightarrow> bool" where
  "is_lesser ip rhs \<longleftrightarrow>
     (if is_ip4 ip then is_ip4 rhs \<and> ntohl (ip32 ip ! 3) < ntohl (ip32 rhs ! 3)
      else if is_ip6 ip then
        is_ip6 rhs \<and> ntohl (ip32 ip ! 0) < ntohl (ip32 rhs ! 0) \<and> ntohl (ip32 ip ! 1) < ntohl (ip32 rhs ! 1) \<and>
        ntohl (ip32 ip ! 2) < ntohl (ip32 rhs ! 2) \<and> ntohl (ip32 ip ! 3) < ntohl (ip32 rhs ! 3)
      else False)"

definition ip_equals :: "sf_ip \<Rightarrow> sf_ip \<Rightarrow> bool \<Rightarrow> bool" where
  "ip_equals ip rhs match_unset = (if \<not> is_set ip \<or> \<not> is_set rhs then match_unset else is_equals ip rhs)"

definition less_than :: "sf_ip \<Rightarrow> sf_ip \<Rightarrow> bool" where
  "less_than ip rhs \<longleftrightarrow> (if \<not> is_set ip \<or> \<not> is_set rhs then False else is_lesser ip rhs)"

definition greater_than :: "sf_ip \<Rightarrow> sf_ip \<Rightarrow> bool" where
  "greater_than ip rhs \<longleftrightarrow> (if \<not> is_set ip \<or> \<not> is_set rhs then False else is_lesser rhs ip)"

definition ip4_cmp :: "u32 \<Rightarrow> u32 \<Rightarrow> sf_ip_ret" where
  "ip4_cmp ip1 ip2 =
     (if ntohl ip1 < ntohl ip2 then SFIP_LESSER else if ntohl ip1 > ntohl ip2 then SFIP_GREATER else SFIP_EQUAL)"

definition ip6_cmp :: "sf_ip \<Rightarrow> sf_ip \<Rightarrow> sf_ip_ret" where
  "ip6_cmp ip ip2 =
     (let r0 = ip4_cmp (ip32 ip ! 0) (ip32 ip2 ! 0); r1 = ip4_cmp (ip32 ip ! 1) (ip32 ip2 ! 1);
          r2 = ip4_cmp (ip32 ip ! 2) (ip32 ip2 ! 2); r3 = ip4_cmp (ip32 ip ! 3) (ip32 ip2 ! 3)
      in if r0 \<noteq> SFIP_EQUAL then r0 else if r1 \<noteq> SFIP_EQUAL then r1 else if r2 \<noteq> SFIP_EQUAL then r2 else r3)"

definition ip_compare :: "sf_ip \<Rightarrow> sf_ip \<Rightarrow> bool \<Rightarrow> sf_ip_ret" where
  "ip_compare ip ip2 match_unset =
     (if \<not> is_set ip \<or> \<not> is_set ip2 then (if match_unset then SFIP_EQUAL else SFIP_FAILURE)
      else if is_ip4 ip \<and> is_ip4 ip2 then ip4_cmp (get_ip4_value ip) (get_ip4_value ip2)
      else ip6_cmp ip ip2)"

definition fast_eq4 :: "sf_ip \<Rightarrow> sf_ip \<Rightarrow> bool" where
  "fast_eq4 ip ip2 \<longleftrightarrow> get_ip4_value ip = get_ip4_value ip2"

definition fast_lt6 :: "sf_ip \<Rightarrow> sf_ip \<Rightarrow> bool" where
  "fast_lt6 ip ip2 =
     (let p1 = ip32 ip; p2 = ip32 ip2
      in if p1 ! 0 < p2 ! 0 then True else if p1 ! 0 > p2 ! 0 then False
         else if p1 ! 1 < p2 ! 1 then True else if p1 ! 1 > p2 ! 1 then False
         else if p1 ! 2 < p2 ! 2 then True else if p1 ! 2 > p2 ! 2 then False
         else if p1 ! 3 < p2 ! 3 then True else False)"

definition fast_gt6 :: "sf_ip \<Rightarrow> sf_ip \<Rightarrow> bool" where
  "fast_gt6 ip ip2 =
     (let p1 = ip32 ip; p2 = ip32 ip2
      in if p1 ! 0 > p2 ! 0 then True else if p1 ! 0 < p2 ! 0 then False
         else if p1 ! 1 > p2 ! 1 then True else if p1 ! 1 < p2 ! 1 then False
         else if p1 ! 2 > p2 ! 2 then True else if p1 ! 2 < p2 ! 2 then False
         else if p1 ! 3 > p2 ! 3 then True else False)"

definition fast_eq6 :: "sf_ip \<Rightarrow> sf_ip \<Rightarrow> bool" where
  "fast_eq6 ip ip2 =
     (let p1 = ip32 ip; p2 = ip32 ip2
      in if p1 ! 0 \<noteq> p2 ! 0 then False else if p1 ! 1 \<noteq> p2 ! 1 then False
         else if p1 ! 2 \<noteq> p2 ! 2 then False else if p1 ! 3 \<noteq> p2 ! 3 then False else True)"

definition fast_equals_raw :: "sf_ip \<Rightarrow> sf_ip \<Rightarrow> bool" where
  "fast_equals_raw ip ip2 =
     (if family ip = AF_INET then family ip2 = AF_INET \<and> fast_eq4 ip ip2
      else if family ip = AF_INET6 then family ip2 = AF_INET6 \<and> fast_eq6 ip ip2
      else False)"

section \<open>Masks and blocks\<close>

text \<open>The mask of the last word that is kept in part.\<close>

definition high_mask :: "nat \<Rightarrow> u32" where
  "high_mask b = push_bit b (drop_bit b (NOT 0))"

definition cidr_mask :: "int \<Rightarrow> sf_ip \<Rightarrow> sf_ip_ret \<times> sf_ip" where
  "cidr_mask val ip =
     (if val < 0 \<or> val > 128 then (SFIP_ARG_ERR, ip)
      else if val = 128 then (SFIP_SUCCESS, ip)
      else
        (let index = (val + 31) div 32 - 1;
             b = 32 - (val - index * 32);
             p = (if b \<noteq> 0 then (ip32 ip)[nat index := ip32 ip ! nat index AND ntohl (high_mask (nat b))] else ip32 ip)
         in (SFIP_SUCCESS, ip\<lparr>ip32 := take (nat (index + 1)) p @ replicate (4 - nat (index + 1)) 0\<rparr>)))"

record sf_cidr =
  addr :: sf_ip
  cbits :: nat

definition cidr_set_bits :: "nat \<Rightarrow> sf_cidr \<Rightarrow> sf_cidr" where
  "cidr_set_bits new_bits c = (if new_bits > 128 then c else c\<lparr>cbits := new_bits\<rparr>)"

definition cidr_set_ip :: "sf_ip \<Rightarrow> sf_cidr \<Rightarrow> sf_cidr" where
  "cidr_set_ip src c = c\<lparr>addr := src, cbits := 128\<rparr>"

definition cidr_clear :: "sf_cidr \<Rightarrow> sf_cidr" where
  "cidr_clear c = c\<lparr>addr := ip_clear (addr c), cbits := 0\<rparr>"

definition cidr_set_raw :: "u32 list \<Rightarrow> int \<Rightarrow> sf_cidr \<Rightarrow> sf_ip_ret \<times> sf_cidr" where
  "cidr_set_raw src fam c =
     (case set_raw src fam (addr c) of
        (ret, a) \<Rightarrow> (ret, if ret \<noteq> SFIP_SUCCESS then c\<lparr>addr := a\<rparr> else c\<lparr>addr := a, cbits := 128\<rparr>))"

definition cidr_is_set :: "sf_cidr \<Rightarrow> bool" where
  "cidr_is_set c \<longleftrightarrow> is_set (addr c) \<or> (family (addr c) = AF_INET \<or> family (addr c) = AF_INET6) \<and> cbits c \<noteq> 128"

text \<open>A shift by 32 or more is undefined; the null pointer of \<^verbatim>\<open>contains\<close> is \<open>None\<close> of its argument.\<close>

definition fast_cont4 :: "sf_cidr \<Rightarrow> sf_ip \<Rightarrow> bool option" where
  "fast_cont4 c ip =
     (let shift = 128 - cbits c;
          needle = ntohl (get_ip4_value ip);
          haystack = ntohl (get_ip4_value (addr c))
      in if haystack = 0 then Some True
         else if 128 < cbits c \<or> 32 \<le> shift then None
         else Some (haystack = push_bit shift (drop_bit shift needle)))"

fun words_equal :: "nat \<Rightarrow> u32 list \<Rightarrow> u32 list \<Rightarrow> bool" where
  "words_equal 0 p q = True"
| "words_equal (Suc n) p q = (if hd p \<noteq> hd q then False else words_equal n (tl p) (tl q))"

definition fast_cont6 :: "sf_cidr \<Rightarrow> sf_ip \<Rightarrow> bool" where
  "fast_cont6 c ip =
     (let words = cbits c div 32; shift = 32 - cbits c mod 32
      in if \<not> words_equal words (ip32 (addr c)) (ip32 ip) then False
         else if shift = 32 then True
         else ntohl (ip32 (addr c) ! words) = push_bit shift (drop_bit shift (ntohl (ip32 ip ! words))))"

definition contains :: "sf_cidr \<Rightarrow> sf_ip option \<Rightarrow> sf_ip_ret" where
  "contains c ip =
     (case ip of
        None \<Rightarrow> SFIP_CONTAINS
      | Some ip \<Rightarrow>
          (let i = cbits c div 32; pn = ip32 (addr c); pi = ip32 ip; mask = 32 - (cbits c - 32 * i)
           in if \<not> words_equal i pn pi then SFIP_NOT_CONTAINS
              else if mask = 32 then SFIP_CONTAINS
              else if ntohl (pn ! i) = push_bit mask (drop_bit mask (ntohl (pi ! i))) then SFIP_CONTAINS
              else SFIP_NOT_CONTAINS))"

definition cidr_compare :: "sf_cidr \<Rightarrow> sf_cidr \<Rightarrow> sf_ip_ret" where
  "cidr_compare c cidr2 =
     (let ret = ip_compare (addr c) (addr cidr2) True
      in if ret = SFIP_EQUAL then
           (if cbits c < cbits cidr2 then SFIP_LESSER else if cbits c > cbits cidr2 then SFIP_GREATER else ret)
         else ret)"

text \<open>An index of -1, from a block of 0 bits, is a write before the array: \<open>None\<close>.\<close>

definition obfuscate :: "sf_cidr option \<Rightarrow> sf_ip \<Rightarrow> sf_ip option" where
  "obfuscate ob ip =
     (case ob of
        None \<Rightarrow> Some ip
      | Some ob \<Rightarrow>
          (let index = (int (cbits ob) + 31) div 32 - 1;
               mask = of_nat (2 ^ nat (32 - (int (cbits ob) - index * 32)) - 1) :: u32;
               i = nat index;
               p = (ip32 ip)[i := ntohl (ntohl (ip32 ip ! i) AND mask)];
               q = replicate i 0 @ drop i p
           in if index < 0 \<or> 3 < index then None
              else Some (ip\<lparr>ip32 := map2 (OR) q (ip32 (addr ob))\<rparr>)))"

end
