(* ===== verification/Sf_Cidr.thy ===== *)
theory Sf_Cidr
  imports Sf_Ip
begin

unbundle bit_operations_syntax

text \<open>
  Blocks and prefixes: masking an address to a block clears exactly the bits after the prefix, the three containment
  tests decide membership in the prefix, and the comparison orders addresses by value.
\<close>

section \<open>Masked addresses\<close>

definition host_words :: "sf_ip \<Rightarrow> u32 list" where
  "host_words ip = map ntohl (ip32 ip)"

text \<open>An address of a block of \<open>n\<close> bits has no bits after the prefix.\<close>

definition masked :: "nat \<Rightarrow> sf_ip \<Rightarrow> bool" where
  "masked n ip \<longleftrightarrow> length (ip32 ip) = 4 \<and> n \<le> 128 \<and> list_all (\<lambda>k. \<not> abit (host_words ip) k) [n..<128]"

lemma words_equal_iff: "n \<le> length p \<Longrightarrow> n \<le> length q \<Longrightarrow> words_equal n p q \<longleftrightarrow> (\<forall>j<n. p ! j = q ! j)"
proof (induction n arbitrary: p q)
  case (Suc n)
  obtain x p' y q' where "p = x # p'" "q = y # q'" using Suc.prems by (cases p; cases q) auto
  with Suc show ?case by (auto simp: less_Suc_eq_0_disj)
qed simp

lemma masked_word:
  assumes "masked n ip" "n div 32 < 4" "m < 32 - n mod 32"
  shows "\<not> bit (ntohl (ip32 ip ! (n div 32))) m"
proof -
  have "n = 32 * (n div 32) + n mod 32" by simp
  then have "n \<le> 32 * (n div 32) + (31 - m)" "32 * (n div 32) + (31 - m) < 128" using assms(2,3) by linarith+
  with assms(1) have "\<not> abit (host_words ip) (32 * (n div 32) + (31 - m))" by (auto simp: masked_def list_all_iff)
  moreover have "abit (host_words ip) (32 * (n div 32) + (31 - m)) = bit (host_words ip ! (n div 32)) (31 - (31 - m))"
    by (rule abit_word) simp
  moreover have "31 - (31 - m) = m" using assms(3) by simp
  ultimately show ?thesis using assms(1,2) by (simp only: host_words_def masked_def nth_map) simp
qed

lemma prefix_words:
  assumes c: "masked n a" and ip: "length (ip32 ip) = 4" and n: "n \<le> 128"
  shows "same_bits (host_words a) (host_words ip) 0 n \<longleftrightarrow>
    words_equal (n div 32) (ip32 a) (ip32 ip) \<and>
    (n mod 32 = 0 \<or> ntohl (ip32 a ! (n div 32)) =
       push_bit (32 - n mod 32) (drop_bit (32 - n mod 32) (ntohl (ip32 ip ! (n div 32)))))"
proof -
  let ?i = "n div 32" let ?r = "n mod 32"
  have l: "length (ip32 a) = 4" "?i \<le> 4" using c n by (auto simp: masked_def)
  have "same_bits (host_words a) (host_words ip) 0 n \<longleftrightarrow>
      same_bits (host_words a) (host_words ip) 0 (32 * ?i) \<and> same_bits (host_words a) (host_words ip) (32 * ?i) ?r"
    using same_bits_split [of "host_words a" "host_words ip" 0 "32 * ?i" ?r] by simp
  moreover have "same_bits (host_words a) (host_words ip) 0 (32 * ?i) \<longleftrightarrow> words_equal ?i (ip32 a) (ip32 ip)"
    using l ip by (auto simp: same_words words_equal_iff host_words_def ntohl_inject)
  moreover have "same_bits (host_words a) (host_words ip) (32 * ?i) ?r \<longleftrightarrow>
      ?r = 0 \<or> ntohl (ip32 a ! ?i) = push_bit (32 - ?r) (drop_bit (32 - ?r) (ntohl (ip32 ip ! ?i)))"
  proof (cases "?r = 0")
    case False
    then have "n \<noteq> 128" by auto
    with n have i: "?i < 4" by (intro less_mult_imp_div_less) simp
    have "ntohl (ip32 a ! ?i) = push_bit (32 - ?r) (drop_bit (32 - ?r) (ntohl (ip32 ip ! ?i))) \<longleftrightarrow>
        (\<forall>k<?r. bit (ntohl (ip32 a ! ?i)) (31 - k) = bit (ntohl (ip32 ip ! ?i)) (31 - k))"
      by (rule high_bits_eq) (use masked_word [OF c i] in auto)
    with False i l ip show ?thesis by (simp add: same_bits_word host_words_def)
  qed (simp add: same_bits_iff)
  ultimately show ?thesis by simp
qed

lemma ntohl_and: "ntohl (x AND y) = ntohl x AND ntohl y"
  by (rule bit_word_eqI) (simp add: ntohl_bit bit_simps)

lemma bit_high_mask: "bit (high_mask b) m \<longleftrightarrow> b \<le> m \<and> m < 32"
  by (auto simp: high_mask_def bit_simps)

lemma cidr_mask_bits:
  assumes "length (ip32 ip) = 4" "n \<le> 128"
  shows "\<exists>p. cidr_mask (int n) ip = (SFIP_SUCCESS, ip\<lparr>ip32 := p\<rparr>) \<and> length p = 4 \<and>
           (\<forall>i<128. abit (map ntohl p) i \<longleftrightarrow> i < n \<and> abit (map ntohl (ip32 ip)) i)"
proof (cases "n = 128")
  case True
  with assms show ?thesis by (auto simp: cidr_mask_def intro!: exI [of _ "ip32 ip"])
next
  case False
  define k where "k = (n + 31) div 32"
  define b where "b = 32 * k - n"
  have k: "n \<le> 32 * k" "32 * k < n + 32" unfolding k_def by presburger+
  have k4: "k \<le> 4" using k False assms(2) by linarith
  have b: "b < 32" "n + b = 32 * k" using k by (auto simp: b_def)
  have i1: "(int n + 31) div 32 - 1 = int k - 1" by (simp add: k_def zdiv_int)
  have ib: "32 - (int n - (int k - 1) * 32) = int b" using b by simp
  have p0: "n = 0" if "k = 0" using that k by simp
  define p where "p = take k (if b \<noteq> 0 then (ip32 ip)[k - 1 := ip32 ip ! (k - 1) AND ntohl (high_mask b)] else ip32 ip) @ replicate (4 - k) 0"
  have "nat (int k - 1) = k - 1" "nat (int k - 1 + 1) = k" by auto
  then have e: "cidr_mask (int n) ip = (SFIP_SUCCESS, ip\<lparr>ip32 := p\<rparr>)"
    using False assms(2) unfolding cidr_mask_def Let_def i1 ib p_def by simp
  have l: "length p = 4" using assms(1) k4 by (simp add: p_def)
  have w: "ntohl (p ! j) = (if j + 1 < k then ntohl (ip32 ip ! j) else if j + 1 = k then ntohl (ip32 ip ! j) AND high_mask b else 0)"
    if "j < 4" for j
  proof -
    have "high_mask 0 = NOT 0" by (simp add: high_mask_def)
    moreover have "ntohl 0 = 0" by (simp add: ntohl_def)
    ultimately show ?thesis using that assms(1) k4 by (auto simp: p_def nth_append ntohl_and ntohl_ntohl min_def)
  qed
  have "abit (map ntohl p) i \<longleftrightarrow> i < n \<and> abit (map ntohl (ip32 ip)) i" if "i < 128" for i
  proof -
    let ?j = "i div 32" let ?r = "i mod 32"
    have j: "?j < 4" using that by (intro less_mult_imp_div_less) simp
    have i: "i = 32 * ?j + ?r" "?r < 32" by simp_all
    have x: "abit (map ntohl q) i = bit (ntohl (q ! ?j)) (31 - ?r)" if "length q = 4" for q
      using that j by (simp add: abit_def)
    consider "?j + 1 < k" | "?j + 1 = k" | "k \<le> ?j" by linarith
    then show ?thesis
    proof cases
      case 1
      then have "i < n" using i b by linarith
      with 1 show ?thesis using x [OF l] x [OF assms(1)] w [OF j] by simp
    next
      case 2
      then have "i < n \<longleftrightarrow> b \<le> 31 - ?r" using i b by linarith
      moreover have "31 - ?r < 32" by simp
      ultimately show ?thesis using 2 x [OF l] x [OF assms(1)] w [OF j] by (auto simp: bit_and_iff bit_high_mask)
    next
      case 3
      then have "\<not> i < n" using i k by linarith
      with 3 show ?thesis using x [OF l] w [OF j] by simp
    qed
  qed
  with e l show ?thesis by blast
qed

section \<open>Membership\<close>

lemma contains_prefix:
  assumes "masked (cbits c) (addr c)" "length (ip32 ip) = 4"
  shows "contains c (Some ip) = SFIP_CONTAINS \<longleftrightarrow> same_bits (host_words (addr c)) (host_words ip) 0 (cbits c)"
    and "fast_cont6 c ip \<longleftrightarrow> same_bits (host_words (addr c)) (host_words ip) 0 (cbits c)"
proof -
  have "cbits c \<le> 128" using assms(1) by (simp add: masked_def)
  note p = prefix_words [OF assms this]
  have "cbits c - 32 * (cbits c div 32) = cbits c mod 32" by (simp add: minus_mult_div_eq_mod)
  moreover have "32 - cbits c mod 32 = 32 \<longleftrightarrow> cbits c mod 32 = 0"
    using mod_less_divisor [of 32 "cbits c"] by linarith
  ultimately show "contains c (Some ip) = SFIP_CONTAINS \<longleftrightarrow> same_bits (host_words (addr c)) (host_words ip) 0 (cbits c)"
    "fast_cont6 c ip \<longleftrightarrow> same_bits (host_words (addr c)) (host_words ip) 0 (cbits c)"
    unfolding p by (auto simp: contains_def fast_cont6_def Let_def)
qed

lemma masked_block:
  assumes "length (ip32 a) = 4" "n \<le> 128"
  obtains p where "cidr_mask (int n) a = (SFIP_SUCCESS, a\<lparr>ip32 := p\<rparr>)" "masked n (a\<lparr>ip32 := p\<rparr>)"
    "\<And>y. same_bits (host_words (a\<lparr>ip32 := p\<rparr>)) y 0 n = same_bits (host_words a) y 0 n"
proof -
  from cidr_mask_bits [OF assms] obtain p where p: "cidr_mask (int n) a = (SFIP_SUCCESS, a\<lparr>ip32 := p\<rparr>)" "length p = 4"
    "\<And>i. i < 128 \<Longrightarrow> abit (map ntohl p) i \<longleftrightarrow> i < n \<and> abit (map ntohl (ip32 a)) i" by blast
  from p(2,3) assms have "masked n (a\<lparr>ip32 := p\<rparr>)" by (auto simp: masked_def host_words_def list_all_iff)
  moreover have "same_bits (host_words (a\<lparr>ip32 := p\<rparr>)) y 0 n = same_bits (host_words a) y 0 n" for y
    using p(3) assms(2) by (simp add: same_bits_iff host_words_def)
  ultimately show thesis by (intro that [OF p(1)])
qed

lemma fast_cont4_prefix:
  assumes c: "masked (cbits c) (addr c)" "length (ip32 ip) = 4" and n: "96 < cbits c"
    and w: "\<forall>j<3. ip32 (addr c) ! j = ip32 ip ! j"
  shows "fast_cont4 c ip = Some (get_ip4_value (addr c) = 0 \<or> same_bits (host_words (addr c)) (host_words ip) 0 (cbits c))"
proof -
  let ?x = "host_words (addr c)" and ?y = "host_words ip"
  define r where "r = cbits c - 96"
  have l: "length (ip32 (addr c)) = 4" "cbits c \<le> 128" using c(1) by (simp_all add: masked_def)
  have r: "cbits c = 32 * 3 + r" "0 < r" "r \<le> 32" using n l by (auto simp: r_def)
  have "same_bits ?x ?y 0 (32 * 3)" using w l c(2) unfolding same_words by (simp add: host_words_def)
  then have same: "same_bits ?x ?y 0 (cbits c) \<longleftrightarrow> same_bits ?x ?y (32 * 3) r"
    using same_bits_split [of ?x ?y 0 "32 * 3" r] unfolding r(1) by simp
  have xy: "?x ! 3 = ntohl (get_ip4_value (addr c))" "?y ! 3 = ntohl (get_ip4_value ip)"
    using l c(2) by (simp_all add: host_words_def get_ip4_value_def)
  have sh: "128 - cbits c = 32 - r" using r(1) by simp
  have "same_bits ?x ?y (32 * 3) r \<longleftrightarrow> ?x ! 3 = push_bit (32 - r) (drop_bit (32 - r) (?y ! 3))"
  proof (cases "r = 32")
    case True
    have "same_bits ?x ?y (32 * 3) 32 \<longleftrightarrow> ?x ! 3 = ?y ! 3" by (rule same_word)
    with True show ?thesis by simp
  next
    case False
    with r(3) have r32: "r < 32" by simp
    have "cbits c mod 32 = r mod 32" unfolding r(1) by (rule mod_mult_self4)
    then have i: "cbits c div 32 = 3" "cbits c mod 32 = r" using r(1) r32 by simp_all
    have "\<forall>m < 32 - r. \<not> bit (?x ! 3) m"
      using masked_word [OF c(1)] l(1) unfolding i by (simp add: host_words_def)
    from high_bits_eq [OF r32 this] show ?thesis using same_bits_word [of r ?x ?y 3] r32 by simp
  qed
  moreover have "ntohl (get_ip4_value (addr c)) = 0 \<longleftrightarrow> get_ip4_value (addr c) = 0"
    using ntohl_inject [of "get_ip4_value (addr c)" 0] by (simp add: ntohl_def)
  moreover have "\<not> (128 < cbits c \<or> 32 \<le> 32 - r)" using l(2) r by linarith
  ultimately show ?thesis unfolding same xy fast_cont4_def Let_def sh by auto
qed



section \<open>Order\<close>

definition ip_value :: "sf_ip \<Rightarrow> nat" where
  "ip_value ip = fold (\<lambda>w v. v * 2 ^ 32 + unat w) (host_words ip) 0"

text \<open>What the setters establish: four words, an IPv4 address being mapped.\<close>

definition wf_ip :: "sf_ip \<Rightarrow> bool" where
  "wf_ip ip \<longleftrightarrow> length (ip32 ip) = 4 \<and> (is_ip4 ip \<longrightarrow> take 3 (ip32 ip) = [0, 0, 0xffff0000])"

definition value_order :: "nat \<Rightarrow> nat \<Rightarrow> sf_ip_ret" where
  "value_order x y = (if x < y then SFIP_LESSER else if x > y then SFIP_GREATER else SFIP_EQUAL)"

lemma value_order_digits:
  assumes "b < 2 ^ 32" "d < 2 ^ 32"
  shows "value_order (a * 2 ^ 32 + b) (c * 2 ^ 32 + d) =
           (if value_order a c \<noteq> SFIP_EQUAL then value_order a c else value_order b d)"
proof -
  have "a * 2 ^ 32 + b < c * 2 ^ 32 + d" if "a < c" "b < 2 ^ 32" for a b c d :: nat
  proof -
    have "(a + 1) * 2 ^ 32 \<le> c * 2 ^ 32" using that by (intro mult_right_mono) simp_all
    with that(2) show ?thesis by simp
  qed
  with assms show ?thesis by (cases a c rule: linorder_cases) (auto simp: value_order_def dest: less_asym)
qed

lemma ip4_cmp_value: "ip4_cmp x y = value_order (unat (ntohl x)) (unat (ntohl y))"
  by (simp add: ip4_cmp_def value_order_def word_less_nat_alt)

lemma ip6_cmp_value:
  assumes "length (ip32 x) = 4" "length (ip32 y) = 4"
  shows "ip6_cmp x y = value_order (ip_value x) (ip_value y)"
proof -
  obtain a b c d a' b' c' d' where w: "ip32 x = [a, b, c, d]" "ip32 y = [a', b', c', d']"
    using assms by (auto simp: numeral_eq_Suc length_Suc_conv)
  have v: "ip_value x = ((unat (ntohl a) * 2 ^ 32 + unat (ntohl b)) * 2 ^ 32 + unat (ntohl c)) * 2 ^ 32 + unat (ntohl d)"
    "ip_value y = ((unat (ntohl a') * 2 ^ 32 + unat (ntohl b')) * 2 ^ 32 + unat (ntohl c')) * 2 ^ 32 + unat (ntohl d')"
    using w by (simp_all add: ip_value_def host_words_def)
  show ?thesis unfolding v value_order_digits [OF unat_u32_less unat_u32_less]
    by (simp add: ip6_cmp_def Let_def w ip4_cmp_value)
qed

text \<open>
  C28. The comparison of two set addresses is the order of their 128-bit values, also between an IPv4 address and an
  IPv6 one, where the IPv4 address counts as the IPv6 address that maps it; and when \<^verbatim>\<open>less_than\<close> or \<^verbatim>\<open>equals\<close> hold,
  the comparison agrees.
\<close>

theorem ip_compare_by_value:
  assumes "wf_ip x" "wf_ip y" "is_set x" "is_set y"
  shows "ip_compare x y m = value_order (ip_value x) (ip_value y) \<and>
    (less_than x y \<longrightarrow> ip_value x < ip_value y) \<and> (ip_equals x y m \<longrightarrow> ip_value x = ip_value y)"
proof -
  have l: "length (ip32 x) = 4" "length (ip32 y) = 4" using assms by (simp_all add: wf_ip_def)
  have four: "p = [0, 0, 0xffff0000, p ! 3]" if "length p = 4" "take 3 p = [0, 0, 0xffff0000]" for p :: "u32 list"
    using that by (auto simp: numeral_eq_Suc length_Suc_conv)
  have x4: "ip32 x = [0, 0, 0xffff0000, ip32 x ! 3]" if "is_ip4 x" using four assms(1) that by (simp add: wf_ip_def)
  have y4: "ip32 y = [0, 0, 0xffff0000, ip32 y ! 3]" if "is_ip4 y" using four assms(2) that by (simp add: wf_ip_def)
  have e: "ip6_cmp x y = ip4_cmp (get_ip4_value x) (get_ip4_value y)" if "is_ip4 x" "is_ip4 y"
  proof -
    from x4 [OF that(1)] y4 [OF that(2)] obtain u v where "ip32 x = [0, 0, 0xffff0000, u]" "ip32 y = [0, 0, 0xffff0000, v]" by blast
    then show ?thesis by (simp add: ip6_cmp_def Let_def ip4_cmp_def get_ip4_value_def)
  qed
  have c: "ip_compare x y m = value_order (ip_value x) (ip_value y)"
    using assms(3,4) e ip6_cmp_value [OF l] by (simp add: ip_compare_def)
  have "ip_value x < ip_value y" if "less_than x y"
  proof -
    from that have "is_lesser x y" by (simp add: less_than_def split: if_splits)
    then have "ip6_cmp x y = SFIP_LESSER"
      using e by (auto simp: is_lesser_def ip6_cmp_def ip4_cmp_def get_ip4_value_def Let_def split: if_splits)
    then show ?thesis using ip6_cmp_value [OF l] by (simp add: value_order_def split: if_splits)
  qed
  moreover have "ip_value x = ip_value y" if "ip_equals x y m"
  proof -
    from that assms(3,4) have "is_equals x y" by (simp add: ip_equals_def)
    then have "ip6_cmp x y = SFIP_EQUAL"
      using e by (auto simp: is_equals_def ip6_cmp_def ip4_cmp_def get_ip4_value_def Let_def split: if_splits)
    then show ?thesis using ip6_cmp_value [OF l] by (simp add: value_order_def split: if_splits)
  qed
  ultimately show ?thesis using c by blast
qed

theorem ip_compare_by_value_witness:
  "let x = \<lparr>ip32 = [0, 0, 0xffff0000, 0x0100000a], family = AF_INET\<rparr>; y = \<lparr>ip32 = [0x20, 0, 0, 1], family = AF_INET6\<rparr>
   in wf_ip x \<and> wf_ip y \<and> is_set x \<and> is_set y \<and> ip_compare x y True = value_order (ip_value x) (ip_value y)"
proof -
  let ?x = "\<lparr>ip32 = [0, 0, 0xffff0000, 0x0100000a], family = AF_INET\<rparr>" let ?y = "\<lparr>ip32 = [0x20, 0, 0, 1], family = AF_INET6\<rparr>"
  have "wf_ip ?x" "wf_ip ?y" "is_set ?x" "is_set ?y"
    by (simp_all add: wf_ip_def is_ip4_def is_set_def AF_INET_def AF_INET6_def)
  with ip_compare_by_value [of ?x ?y True] show ?thesis by (simp add: Let_def)
qed

text \<open>
  The converse fails for IPv6: \<^verbatim>\<open>less_than\<close> asks for every word to be smaller, so that 2000::1 is neither less than nor
  greater than 2000::2.
\<close>

lemma less_than_partial:
  "let x = \<lparr>ip32 = [0x20, 0, 0, 0x01000000], family = AF_INET6\<rparr>; y = \<lparr>ip32 = [0x20, 0, 0, 0x02000000], family = AF_INET6\<rparr>
   in ip_compare x y True = SFIP_LESSER \<and> \<not> less_than x y \<and> \<not> greater_than x y \<and> \<not> ip_equals x y True"
  by code_simp

end
