(* ===== verification/Sfrt.thy ===== *)
theory Sfrt
  imports Sfrt_Session Sf_Cidr
begin

text \<open>
  The routing table interface of \<^verbatim>\<open>sfrt/sfrt.cc\<close>: a data table of pointers and one DIR-n-m table per family whose
  routes are indices into it; index 0 means that no route applies. A pointer is an option, \<open>None\<close> being null. As for the
  DIR-n-m tables an outer \<open>None\<close> is undefined behaviour.
\<close>

section \<open>Tables\<close>

datatype rt_types =
    DIR_24_8 | DIR_16x2 | DIR_16_8x2 | DIR_16_4x4 | DIR_8x4 | DIR_4x8 | DIR_2x16 | DIR_16_4x4_16x5_4x4 | DIR_16x7_4x4
  | DIR_16x8 | DIR_8x16 | IPv4 | IPv6

record 'd rt_table =
  data :: "'d option list"
  num_ent :: u32
  max_size :: u32
  lastAllocatedIndex :: u32
  ip_type :: rt_types
  table_type :: rt_types
  rt_allocated :: u32
  rt :: "dir_table option"
  rt6 :: "dir_table option"

definition sizeof_rt_table :: nat where
  "sizeof_rt_table = 96"

text \<open>The dimensions of the two tables of a type; \<open>None\<close> for a type that is not a table.\<close>

fun rt_dimensions :: "rt_types \<Rightarrow> (nat list \<times> nat list option) option" where
  "rt_dimensions DIR_24_8 = Some ([24, 8], None)"
| "rt_dimensions DIR_16x2 = Some ([16, 16], None)"
| "rt_dimensions DIR_16_8x2 = Some ([16, 8, 8], None)"
| "rt_dimensions DIR_16_4x4 = Some ([16, 4, 4, 4, 4], None)"
| "rt_dimensions DIR_8x4 = Some ([8, 8, 8, 8], None)"
| "rt_dimensions DIR_4x8 = Some ([4, 4, 4, 4, 4, 4, 4, 4], None)"
| "rt_dimensions DIR_2x16 = Some ([2, 2, 2, 2, 2, 2, 2, 2, 2, 2, 2, 2, 2, 2, 2, 2], None)"
| "rt_dimensions DIR_16_4x4_16x5_4x4 = Some ([16, 4, 4, 4, 4], Some [16, 4, 4, 4, 4, 16, 16, 16, 16, 16, 4, 4, 4, 4])"
| "rt_dimensions DIR_16x7_4x4 = Some ([16, 4, 4, 4, 4], Some [16, 16, 16, 16, 16, 16, 16, 4, 4, 4, 4])"
| "rt_dimensions DIR_16x8 = Some ([16, 16], Some [16, 16, 16, 16, 16, 16, 16, 16])"
| "rt_dimensions DIR_8x16 = Some ([16, 8, 4, 4], Some [8, 8, 8, 8, 8, 8, 8, 8, 8, 8, 8, 8, 8, 8, 8, 8])"
| "rt_dimensions IPv4 = None"
| "rt_dimensions IPv6 = None"

text \<open>\<^verbatim>\<open>long\<close> has 64 bits; the size is kept in 32 bits and the memory cap is scaled in 32 bits.\<close>

definition sfrt_new :: "rt_types \<Rightarrow> rt_types \<Rightarrow> u64 \<Rightarrow> u32 \<Rightarrow> 'd rt_table option option" where
  "sfrt_new ttype iptype data_size cap_mb =
     (if sint data_size \<ge> 0x800000000000000 then Some None
      else
        (let cap = cap_mb * (1024 * 1024);
             size = (ucast data_size :: u32)
         in case rt_dimensions ttype of
              None \<Rightarrow> Some None
            | Some (dims, dims6) \<Rightarrow>
                (case (sfrt_dir_new cap dims, case dims6 of None \<Rightarrow> Some None | Some d \<Rightarrow> sfrt_dir_new cap d) of
                   (Some t, Some t6) \<Rightarrow>
                     if t = None \<or> t6 = None then Some None
                     else Some (Some \<lparr>data = replicate (unat size) None, num_ent = 1, max_size = size,
                                      lastAllocatedIndex = 0, ip_type = iptype, table_type = ttype,
                                      rt_allocated = of_nat sizeof_rt_table + 8 * size, rt = t, rt6 = t6\<rparr>)
                 | _ \<Rightarrow> None)))"

section \<open>Lookup\<close>

text \<open>The words and the table of the family of an address.\<close>

definition ip_words :: "sf_ip \<Rightarrow> u32 list" where
  "ip_words ip = (if is_ip4 ip then drop 3 (ip32 ip) else ip32 ip)"

definition family_table :: "sf_ip \<Rightarrow> 'd rt_table \<Rightarrow> dir_table option" where
  "family_table ip t = (if is_ip4 ip then rt t else rt6 t)"

definition data_at :: "'d rt_table \<Rightarrow> nat \<Rightarrow> 'd option option" where
  "data_at t i = (if i < length (data t) then Some (data t ! i) else None)"

definition put_family_table :: "sf_ip \<Rightarrow> dir_table \<Rightarrow> 'd rt_table \<Rightarrow> 'd rt_table" where
  "put_family_table ip root t = (if is_ip4 ip then t\<lparr>rt := Some root\<rparr> else t\<lparr>rt6 := Some root\<rparr>)"

text \<open>The calls through the function pointers of the table, which check for a null DIR-n-m table.\<close>

definition table_lookup :: "sf_ip \<Rightarrow> 'd rt_table \<Rightarrow> (u64 \<times> u64) option" where
  "table_lookup ip t =
     (case family_table ip t of None \<Rightarrow> Some (0, 0) | Some root \<Rightarrow> sfrt_dir_lookup (ip_words ip) root)"

definition table_insert ::
  "sf_ip \<Rightarrow> u8 \<Rightarrow> u32 \<Rightarrow> rt_behavior \<Rightarrow> 'd rt_table \<Rightarrow> (return_codes \<times> 'd rt_table) option"
where
  "table_insert ip len index behavior t =
     (case family_table ip t of
        None \<Rightarrow> Some (DIR_INSERT_FAILURE, t)
      | Some root \<Rightarrow>
          map_option (\<lambda>(res, root'). (res, put_family_table ip root' t))
            (sfrt_dir_insert (ip_words ip) (unat len) (scast index) behavior root))"

definition table_remove :: "sf_ip \<Rightarrow> u8 \<Rightarrow> rt_behavior \<Rightarrow> 'd rt_table \<Rightarrow> (u64 \<times> 'd rt_table) option" where
  "table_remove ip len behavior t =
     (case family_table ip t of
        None \<Rightarrow> Some (0, t)
      | Some root \<Rightarrow>
          map_option (\<lambda>(i, root'). (i, put_family_table ip root' t))
            (sfrt_dir_remove (ip_words ip) (unat len) behavior root))"

definition sfrt_lookup :: "sf_ip \<Rightarrow> 'd rt_table \<Rightarrow> 'd option option" where
  "sfrt_lookup ip t =
     (if family_table ip t = None then Some None
      else (case table_lookup ip t of
              None \<Rightarrow> None
            | Some (index, len) \<Rightarrow> if index \<ge> ucast (max_size t) then Some None else data_at t (unat index)))"

definition sfrt_search :: "sf_ip \<Rightarrow> u8 \<Rightarrow> 'd rt_table \<Rightarrow> 'd option option" where
  "sfrt_search ip len t =
     (if len = 0 then Some None
      else if \<not> is_ip4 ip \<and> \<not> is_ip6 ip then Some None
      else if ip_type t = IPv6 then Some None
      else if ip_type t = IPv4 \<and> len > 32 \<or> ip_type t = IPv6 \<and> len > 128 then Some None
      else (case table_lookup ip t of
              None \<Rightarrow> None
            | Some (index, l) \<Rightarrow> if l \<noteq> ucast len then Some None else data_at t (unat index)))"

section \<open>Insertion\<close>

text \<open>
  The search for a free index may run forever (\<open>None\<close>); when it returns, it has read past the data table
  (\<open>Overrun\<close>) or found an index, 0 if there is none.
\<close>

datatype index_search = Overrun | Index u32

partial_function (option) free_index :: "'d rt_table \<Rightarrow> u32 \<Rightarrow> index_search option" where
  "free_index t index =
     (if index = lastAllocatedIndex t then Some (Index 0)
      else if index \<noteq> 0 \<and> length (data t) \<le> unat index then Some Overrun
      else if index \<noteq> 0 \<and> data t ! unat index = None then Some (Index index)
      else free_index t ((index + 1) mod max_size t))"

declare free_index.simps [code]

definition allocateTableIndex :: "'d rt_table \<Rightarrow> (index_search \<times> 'd rt_table) option" where
  "allocateTableIndex t =
     map_option (\<lambda>r. (r, case r of Index i \<Rightarrow> if i \<noteq> 0 then t\<lparr>lastAllocatedIndex := i\<rparr> else t | Overrun \<Rightarrow> t))
       (free_index t (lastAllocatedIndex t + 1))"

text \<open>The tail of the insertion, with the index chosen; \<open>fresh\<close> tells whether it is a new one.\<close>

definition insert_index ::
  "sf_ip \<Rightarrow> u8 \<Rightarrow> 'd \<Rightarrow> rt_behavior \<Rightarrow> u32 \<Rightarrow> bool \<Rightarrow> 'd rt_table \<Rightarrow> (return_codes \<times> 'd rt_table) option"
where
  "insert_index ip len ptr behavior index fresh t =
     (case table_insert ip len index behavior t of
        None \<Rightarrow> None
      | Some (res, t') \<Rightarrow>
          if res = RT_SUCCESS \<and> fresh then
            (if unat index < length (data t')
             then Some (res, t'\<lparr>num_ent := num_ent t' + 1, data := (data t')[unat index := Some ptr]\<rparr>) else None)
          else Some (res, t'))"

text \<open>The checks on the arguments that insertion and removal share.\<close>

definition refused :: "sf_ip \<Rightarrow> u8 \<Rightarrow> 'd rt_table \<Rightarrow> bool" where
  "refused ip len t \<longleftrightarrow>
     len = 0 \<or> ip_type t = IPv4 \<and> len > 32 \<or> ip_type t = IPv6 \<and> len > 128 \<or>
     is_ip4 ip \<and> len < 96 \<or> \<not> is_ip4 ip \<and> \<not> is_ip6 ip"

definition family_len :: "sf_ip \<Rightarrow> u8 \<Rightarrow> u8" where
  "family_len ip len = (if is_ip4 ip then len - 96 else len)"

definition sfrt_insert ::
  "sf_cidr option \<Rightarrow> u8 \<Rightarrow> 'd \<Rightarrow> rt_behavior \<Rightarrow> 'd rt_table \<Rightarrow> (return_codes \<times> 'd rt_table) option"
where
  "sfrt_insert cidr len0 ptr behavior t =
     (case cidr of
        None \<Rightarrow> Some (RT_INSERT_FAILURE, t)
      | Some cidr \<Rightarrow>
          (let ip = addr cidr; len = family_len ip len0
           in if refused ip len0 t then Some (RT_INSERT_FAILURE, t)
              else (case table_lookup ip t of
                      None \<Rightarrow> None
                    | Some (index, l) \<Rightarrow>
                        if l \<noteq> ucast len then
                          if num_ent t \<ge> max_size t then Some (RT_POLICY_TABLE_EXCEEDED, t)
                          else (case allocateTableIndex t of
                                  None \<Rightarrow> None
                                | Some (Overrun, _) \<Rightarrow> None
                                | Some (Index i, t1) \<Rightarrow>
                                    if i = 0 then Some (RT_POLICY_TABLE_EXCEEDED, t1)
                                    else insert_index ip len ptr behavior i True t1)
                        else insert_index ip len ptr behavior (ucast index) False t)))"

section \<open>Removal and the rest\<close>

text \<open>The middle component is the pointer stored through the argument, if it is.\<close>

definition sfrt_remove ::
  "sf_cidr option \<Rightarrow> u8 \<Rightarrow> rt_behavior \<Rightarrow> 'd rt_table \<Rightarrow> (return_codes \<times> 'd option option \<times> 'd rt_table) option"
where
  "sfrt_remove cidr len0 behavior t =
     (case cidr of
        None \<Rightarrow> Some (RT_REMOVE_FAILURE, None, t)
      | Some cidr \<Rightarrow>
          if refused (addr cidr) len0 t then Some (RT_REMOVE_FAILURE, None, t)
          else (case table_remove (addr cidr) (family_len (addr cidr) len0) behavior t of
                  None \<Rightarrow> None
                | Some (w, t') \<Rightarrow>
                    (let index = (ucast w :: u32)
                     in if index = 0 then Some (RT_SUCCESS, None, t')
                        else map_option (\<lambda>p. (RT_SUCCESS, Some p,
                                 t'\<lparr>data := (data t')[unat index := None], num_ent := num_ent t' - 1\<rparr>))
                               (data_at t' (unat index)))))"

text \<open>The pointers handed to the callback, in order, and the table afterwards.\<close>

fun cleanup_loop :: "nat \<Rightarrow> 'd option list \<Rightarrow> 'd list \<times> 'd option list" where
  "cleanup_loop left [] = ([], [])"
| "cleanup_loop left (None # ds) = (case cleanup_loop left ds of (cs, ds') \<Rightarrow> (cs, None # ds'))"
| "cleanup_loop left (Some p # ds) =
     (if left = 1 then ([p], None # ds) else (case cleanup_loop (left - 1) ds of (cs, ds') \<Rightarrow> (p # cs, None # ds')))"

definition sfrt_cleanup :: "'d rt_table \<Rightarrow> 'd list \<times> 'd rt_table" where
  "sfrt_cleanup t = (case cleanup_loop (unat (num_ent t)) (data t) of (cs, ds) \<Rightarrow> (cs, t\<lparr>data := ds\<rparr>))"

definition sfrt_num_entries :: "'d rt_table \<Rightarrow> u32" where
  "sfrt_num_entries t = (if rt t = None \<or> rt_allocated t = 0 then 0 else num_ent t - 1)"

definition sfrt_usage :: "'d rt_table \<Rightarrow> u32" where
  "sfrt_usage t =
     (case rt t of
        None \<Rightarrow> 0
      | Some root \<Rightarrow>
          if rt_allocated t = 0 then 0
          else rt_allocated t + sfrt_dir_usage root + (case rt6 t of None \<Rightarrow> 0 | Some r6 \<Rightarrow> sfrt_dir_usage r6))"

text \<open>The outcome of releasing the two DIR-n-m tables: what stays accounted for in each.\<close>

definition sfrt_free :: "'d rt_table \<Rightarrow> u32 option option \<times> u32 option option" where
  "sfrt_free t = (map_option sfrt_dir_free (rt t), map_option sfrt_dir_free (rt6 t))"

end
