(* ===== verification/Sfrt_Data.thy ===== *)
theory Sfrt_Data
  imports Sfrt
begin

text \<open>
  The data table behind the routes: the search for a free index ends, every route leads to a pointer, and an insertion
  gives its pointer to the addresses of its block.
\<close>

section \<open>The search for a free index\<close>

lemma next_index:
  fixes i m :: u32
  assumes "i < m"
  shows "unat ((i + 1) mod m) = (unat i + 1) mod unat m"
proof -
  have "unat i < unat m" using assms by (simp add: word_less_nat_alt)
  with unat_u32_less [of m] have "unat (i + 1) = unat i + 1" by (simp add: unat_word_ariths)
  then show ?thesis by (simp add: unat_mod)
qed

text \<open>Index 0 is the answer when the \<open>k\<close> places from the start on are in use.\<close>

definition search_result :: "'d rt_table \<Rightarrow> nat \<Rightarrow> u32 \<Rightarrow> index_search option \<Rightarrow> bool" where
  "search_result t k start r \<longleftrightarrow>
     (\<exists>i. r = Some (Index i) \<and>
        (i = 0 \<and> (\<forall>d<k. let p = (unat start + d) mod unat (max_size t) in p = 0 \<or> data t ! p \<noteq> None) \<or>
         i \<noteq> 0 \<and> i < max_size t \<and> data t ! unat i = None))"

lemma free_index_cycle:
  assumes t: "lastAllocatedIndex t < max_size t" "length (data t) = unat (max_size t)"
    and k: "k < unat (max_size t)" and i: "unat i = (unat (lastAllocatedIndex t) + (unat (max_size t) - k)) mod unat (max_size t)"
  shows "search_result t k i (free_index t i)"
  using k i
proof (induction k arbitrary: i)
  case 0
  have "unat (lastAllocatedIndex t) < unat (max_size t)" using t(1) by (simp add: word_less_nat_alt)
  with 0 have "i = lastAllocatedIndex t" by (simp add: word_unat_eq_iff)
  then show ?case by (subst free_index.simps) (simp add: search_result_def)
next
  case (Suc k)
  have im: "i < max_size t" using Suc.prems by (simp add: word_less_nat_alt)
  have "unat ((i + 1) mod max_size t) = (unat i + 1) mod unat (max_size t)" by (rule next_index [OF im])
  also have "\<dots> = (unat (lastAllocatedIndex t) + (unat (max_size t) - Suc k) + 1) mod unat (max_size t)"
    unfolding Suc.prems(2) by (rule mod_add_left_eq)
  also have "unat (lastAllocatedIndex t) + (unat (max_size t) - Suc k) + 1 =
      unat (lastAllocatedIndex t) + (unat (max_size t) - k)" using Suc.prems(1) by linarith
  finally have IH: "search_result t k ((i + 1) mod max_size t) (free_index t ((i + 1) mod max_size t))"
    using Suc.IH Suc.prems(1) by simp
  have lt: "unat i < unat (max_size t)" using im by (simp add: word_less_nat_alt)
  then have nl: "\<not> length (data t) \<le> unat i" using t(2) by simp
  show ?case
  proof (cases "i = lastAllocatedIndex t \<or> i \<noteq> 0 \<and> data t ! unat i = None")
    case True
    have "i \<noteq> lastAllocatedIndex t"
    proof
      assume "i = lastAllocatedIndex t"
      moreover have "unat (lastAllocatedIndex t) < unat (max_size t)" using t(1) by (simp add: word_less_nat_alt)
      ultimately show False using Suc.prems by (auto simp: mod_if split: if_splits)
    qed
    with True im nl show ?thesis by (subst free_index.simps) (auto simp: search_result_def)
  next
    case False
    have "(unat i + Suc d) mod unat (max_size t) = (unat ((i + 1) mod max_size t) + d) mod unat (max_size t)" for d
      unfolding next_index [OF im] by (metis add_Suc_right add_Suc_shift mod_add_left_eq Suc_eq_plus1)
    then have "search_result t (Suc k) i (free_index t ((i + 1) mod max_size t))"
      using IH False lt unfolding search_result_def Let_def by (auto simp: All_less_Suc2 unat_eq_zero)
    with False nl show ?thesis by (subst free_index.simps) auto
  qed
qed

lemma search_from_last:
  assumes "lastAllocatedIndex t < max_size t" "length (data t) = unat (max_size t)"
  shows "lastAllocatedIndex t + 1 = max_size t \<Longrightarrow> free_index t (lastAllocatedIndex t + 1) = Some Overrun"
    and "lastAllocatedIndex t + 1 \<noteq> max_size t \<Longrightarrow>
      search_result t (unat (max_size t) - 1) (lastAllocatedIndex t + 1) (free_index t (lastAllocatedIndex t + 1)) \<and>
      unat (lastAllocatedIndex t + 1) = unat (lastAllocatedIndex t) + 1 \<and> unat (lastAllocatedIndex t) + 1 < unat (max_size t)"
proof -
  let ?l = "lastAllocatedIndex t" let ?m = "max_size t"
  have lm: "unat ?l < unat ?m" using assms(1) by (simp add: word_less_nat_alt)
  with unat_u32_less [of ?m] have l1: "unat (?l + 1) = unat ?l + 1" by (simp add: unat_word_ariths)
  then have "?l + 1 \<noteq> ?l" "?l + 1 \<noteq> 0" by auto
  with assms(2) show "free_index t (?l + 1) = Some Overrun" if "?l + 1 = ?m"
    using that by (subst free_index.simps) simp
  assume "?l + 1 \<noteq> ?m"
  then have lt: "unat ?l + 1 < unat ?m" using l1 lm by (metis Suc_eq_plus1 Suc_lessI word_unat_eq_iff)
  have "search_result t (unat ?m - 1) (?l + 1) (free_index t (?l + 1))"
    by (rule free_index_cycle [OF assms, of "unat ?m - 1"]) (use lt l1 in auto)
  with l1 lt show "search_result t (unat ?m - 1) (?l + 1) (free_index t (?l + 1)) \<and>
      unat (?l + 1) = unat ?l + 1 \<and> unat ?l + 1 < unat ?m" by blast
qed

text \<open>
  C26. The search for a free index of the data table always ends. It returns an unused index inside the table, or 0 when
  every index other than the last one handed out is in use, with one exception: after the last index of the table was handed out, the search starts at the
  element behind the table.
\<close>

theorem allocate_index_returns:
  assumes "lastAllocatedIndex t < max_size t" "length (data t) = unat (max_size t)"
  shows "\<exists>r t'. allocateTableIndex t = Some (r, t') \<and>
    (if lastAllocatedIndex t + 1 = max_size t then r = Overrun
     else \<exists>i. r = Index i \<and> (i = 0 \<and> t' = t \<and> list_all (\<lambda>j. j = unat (lastAllocatedIndex t) \<or> data t ! j \<noteq> None) [1..<unat (max_size t)] \<or>
       i \<noteq> 0 \<and> i < max_size t \<and> data t ! unat i = None \<and> t' = t\<lparr>lastAllocatedIndex := i\<rparr>))"
proof -
  let ?l = "lastAllocatedIndex t" let ?m = "max_size t"
  show ?thesis
  proof (cases "?l + 1 = ?m")
    case True
    with search_from_last(1) [OF assms] show ?thesis by (simp add: allocateTableIndex_def)
  next
    case False
    with search_from_last(2) [OF assms] have r: "search_result t (unat ?m - 1) (?l + 1) (free_index t (?l + 1))"
      and l1: "unat (?l + 1) = unat ?l + 1" and lt: "unat ?l + 1 < unat ?m" by auto
    have all: "j = unat ?l \<or> data t ! j \<noteq> None"
      if "\<forall>d < unat ?m - 1. let p = (unat (?l + 1) + d) mod unat ?m in p = 0 \<or> data t ! p \<noteq> None" "1 \<le> j" "j < unat ?m" for j
    proof (rule disjCI)
      assume "\<not> data t ! j \<noteq> None"
      show "j = unat ?l"
      proof (rule ccontr)
        assume j: "j \<noteq> unat ?l"
        define d where "d = (if unat ?l < j then j - (unat ?l + 1) else j + unat ?m - (unat ?l + 1))"
        have "d < unat ?m - 1" "(unat (?l + 1) + d) mod unat ?m = j"
          using j that(3) lt l1 by (auto simp: d_def mod_if)
        with that(1,2) \<open>\<not> data t ! j \<noteq> None\<close> show False by (auto simp: Let_def)
      qed
    qed
    show ?thesis
    proof (cases "free_index t (?l + 1) = Some (Index 0)")
      case True
      with r all show ?thesis using False by (auto simp: search_result_def allocateTableIndex_def list_all_iff)
    next
      case n: False
      with r False show ?thesis by (auto simp: search_result_def allocateTableIndex_def)
    qed
  qed
qed

definition four_slots :: "char rt_table" where
  "four_slots = \<lparr>data = [None, Some CHR ''a'', None, Some CHR ''b''], num_ent = 3, max_size = 4, lastAllocatedIndex = 1,
     ip_type = IPv6, table_type = DIR_8x16, rt_allocated = 128, rt = None, rt6 = None\<rparr>"

theorem allocate_index_returns_witness:
  "\<exists>r t'. allocateTableIndex four_slots = Some (r, t') \<and>
     (\<exists>i. r = Index i \<and> (i = 0 \<and> t' = four_slots \<or> i \<noteq> 0 \<and> i < 4 \<and> t' = four_slots\<lparr>lastAllocatedIndex := i\<rparr>))"
  using allocate_index_returns [of four_slots] by (auto simp: four_slots_def)

section \<open>Routes and pointers\<close>

text \<open>
  Both families have a well-formed DIR-n-m table that covers all bits of an address, and a route, other than the
  missing one, has a length and leads to a pointer.
\<close>

definition family_words :: "sf_ip \<Rightarrow> nat" where
  "family_words ip = (if is_ip4 ip then 1 else 4)"

definition good_route :: "'d rt_table \<Rightarrow> u64 \<times> u64 \<Rightarrow> bool" where
  "good_route t r \<longleftrightarrow>
     r = (0, 0) \<or> snd r \<noteq> 0 \<and> fst r \<noteq> 0 \<and> unat (fst r) < length (data t) \<and> data t ! unat (fst r) \<noteq> None"

definition rt_ok :: "'d rt_table \<Rightarrow> bool" where
  "rt_ok t \<longleftrightarrow>
     ip_type t = IPv6 \<and> length (data t) = unat (max_size t) \<and> 0 < unat (max_size t) \<and> data t ! 0 = None \<and> lastAllocatedIndex t < max_size t \<and>
     (\<exists>r4 r6. rt t = Some r4 \<and> rt6 t = Some r6 \<and>
        tables_ok 1 r4 \<and> sum_list (dimensions r4) = 32 \<and> tables_ok 4 r6 \<and> sum_list (dimensions r6) = 128) \<and>
     (\<forall>ip. length (ip32 ip) = 4 \<longrightarrow> (\<exists>r. table_lookup ip t = Some r \<and> good_route t r))"

lemma allocated_index:
  assumes "rt_ok t" "allocateTableIndex t = Some (Index i, t1)" "i \<noteq> 0"
  shows "i < max_size t" "data t ! unat i = None" "t1 = t\<lparr>lastAllocatedIndex := i\<rparr>"
proof -
  have t: "lastAllocatedIndex t < max_size t" "length (data t) = unat (max_size t)" using assms(1) by (simp_all add: rt_ok_def)
  from assms(2) have f: "free_index t (lastAllocatedIndex t + 1) = Some (Index i)"
    and t1: "t1 = (if i \<noteq> 0 then t\<lparr>lastAllocatedIndex := i\<rparr> else t)" by (auto simp: allocateTableIndex_def)
  have "lastAllocatedIndex t + 1 \<noteq> max_size t" using search_from_last(1) [OF t] f by auto
  with search_from_last(2) [OF t] f assms(3) show "i < max_size t" "data t ! unat i = None"
    by (auto simp: search_result_def)
  show "t1 = t\<lparr>lastAllocatedIndex := i\<rparr>" using t1 assms(3) by simp
qed

lemma ok_family:
  assumes "rt_ok t"
  obtains root where "family_table ip t = Some root" "tables_ok (family_words ip) root"
    "sum_list (dimensions root) = 32 * family_words ip"
  using assms by (cases "is_ip4 ip") (auto simp: rt_ok_def family_table_def family_words_def)

lemma ip_words_length: "length (ip32 ip) = 4 \<Longrightarrow> length (ip_words ip) = family_words ip"
  by (simp add: ip_words_def family_words_def)

lemma tables_routes:
  assumes "tables_ok n root"
  shows "routes n root (\<lambda>q. the (sfrt_dir_lookup q root))"
proof -
  have "\<exists>r. sfrt_dir_lookup q root = Some r" if "length q = n" for q
    using lookup_total [of 0 "dimensions root" "sub_table root" n "map ntohl q"] tables_ok_dims [OF assms] assms that
    by (simp add: lookup_words tables_ok_def)
  with assms show ?thesis by (fastforce simp: routes_def)
qed

lemma ucast_scast_index: "ucast (scast (i :: u32) :: u64) = i"
  by (rule bit_word_eqI) (simp add: bit_simps)

lemma table_insert_routes:
  assumes ok: "rt_ok t" and ip: "length (ip32 ip) = 4" and len: "0 < len" "unat len \<le> 32 * family_words ip" and i: "i \<noteq> 0"
    and ins: "table_insert ip len i behavior t = Some (RT_SUCCESS, t')"
  obtains root' where "t' = put_family_table ip root' t" "tables_ok (family_words ip) root'"
    "sum_list (dimensions root') = 32 * family_words ip"
    "\<And>ip'. length (ip32 ip') = 4 \<Longrightarrow> table_lookup ip' t' =
       Some (if is_ip4 ip' = is_ip4 ip \<and> in_prefix (ip_words ip) (unat len) (ip_words ip')
             then fill_route behavior (unat len) i (the (table_lookup ip' t)) else the (table_lookup ip' t))"
proof -
  from ok_family [OF ok, of ip] obtain root where r: "family_table ip t = Some root" "tables_ok (family_words ip) root"
    "sum_list (dimensions root) = 32 * family_words ip" .
  have l: "length (ip_words ip) = family_words ip" "0 < unat len" "unat len \<le> sum_list (dimensions root)"
    "(ucast (scast i :: u64) :: u32) \<noteq> 0"
    using ip_words_length [OF ip] len r(3) i by (simp_all add: ucast_scast_index word_less_nat_alt)
  from insert_outcome [OF r(2) l, of behavior] obtain root' where
    s: "sfrt_dir_insert (ip_words ip) (unat len) (scast i) behavior root = Some (RT_SUCCESS, root')"
      "dimensions root' = dimensions root"
      "\<And>m. routes (family_words ip) root m \<Longrightarrow> routes (family_words ip) root'
         (\<lambda>q. if in_prefix (ip_words ip) (unat len) q then fill_route behavior (unat len) (ucast (scast i :: u64)) (m q) else m q)"
    using ins r(1) by (auto simp: table_insert_def)
  note m = s(3) [OF tables_routes [OF r(2)], unfolded ucast_scast_index]
  have t': "t' = put_family_table ip root' t" using ins r(1) s(1) by (simp add: table_insert_def)
  have "table_lookup ip' t' =
       Some (if is_ip4 ip' = is_ip4 ip \<and> in_prefix (ip_words ip) (unat len) (ip_words ip')
             then fill_route behavior (unat len) i (the (table_lookup ip' t)) else the (table_lookup ip' t))"
    if ip': "length (ip32 ip') = 4" for ip'
  proof (cases "is_ip4 ip' = is_ip4 ip")
    case True
    then have "family_table ip' t' = Some root'" "family_table ip' t = Some root" "length (ip_words ip') = family_words ip"
      using t' r(1) ip_words_length [OF ip'] by (auto simp: family_table_def put_family_table_def family_words_def)
    with True m show ?thesis by (simp add: table_lookup_def routes_def)
  next
    case False
    then have "family_table ip' t' = family_table ip' t"
      using t' by (auto simp: family_table_def put_family_table_def)
    moreover from ok ip' obtain x where "table_lookup ip' t = Some x" by (auto simp: rt_ok_def)
    ultimately show ?thesis using False by (simp add: table_lookup_def)
  qed
  moreover have "tables_ok (family_words ip) root'" using m by (simp add: routes_def)
  ultimately show thesis using that t' r(3) s(2) by simp
qed

lemma good_lookup:
  assumes ok: "rt_ok t" and ip: "length (ip32 ip) = 4"
  shows "sfrt_lookup ip t = Some (data t ! unat (fst (the (table_lookup ip t))))"
    and "good_route t (the (table_lookup ip t))"
proof -
  from ok ip obtain r where r: "table_lookup ip t = Some r" "good_route t r" by (auto simp: rt_ok_def)
  then show "good_route t (the (table_lookup ip t))" by simp
  have l: "length (data t) = unat (max_size t)" "0 < unat (max_size t)" using ok unfolding rt_ok_def by blast+
  have i: "unat (fst r) < unat (max_size t)" using r(2) l by (auto simp: good_route_def)
  moreover have "unat (ucast (max_size t) :: u64) = unat (max_size t)"
    using unat_u32_less [of "max_size t"] by (simp add: unsigned_ucast_eq take_bit_eq_mod)
  ultimately have "\<not> fst r \<ge> ucast (max_size t)" by (simp add: word_le_nat_alt)
  moreover obtain root where "family_table ip t = Some root" using ok_family [OF ok] by blast
  ultimately show "sfrt_lookup ip t = Some (data t ! unat (fst (the (table_lookup ip t))))"
    using r(1) i l(1) by (cases r) (simp add: sfrt_lookup_def data_at_def)
qed

text \<open>Which addresses a successful insertion that favors specific routes reaches.\<close>

definition takes_route :: "sf_ip \<Rightarrow> u8 \<Rightarrow> 'd rt_table \<Rightarrow> sf_ip \<Rightarrow> bool" where
  "takes_route block len t ip \<longleftrightarrow>
     is_ip4 ip = is_ip4 block \<and> in_prefix (ip_words block) (unat len) (ip_words ip) \<and>
     unat (snd (the (table_lookup ip t))) \<le> unat len"

lemma in_prefix_refl: "in_prefix a len a"
  by (simp add: in_prefix_def same_bits_iff)

lemma insert_routes_good:
  assumes ok: "rt_ok t" and ip: "length (ip32 b) = 4" and len: "0 < len" "unat len \<le> 32 * family_words b"
    and i: "i \<noteq> 0" "i < max_size t" and ins: "table_insert b len i RT_FAVOR_SPECIFIC t = Some (RT_SUCCESS, t')"
    and d: "length ds = length (data t)" "ds ! unat i \<noteq> None" "\<And>j. j \<noteq> unat i \<Longrightarrow> ds ! j = data t ! j"
    and l: "l < max_size t"
  shows "rt_ok (t'\<lparr>data := ds, num_ent := n, lastAllocatedIndex := l\<rparr>)" (is "rt_ok ?t")
    and "length (ip32 a) = 4 \<Longrightarrow> sfrt_lookup a (t'\<lparr>data := ds, num_ent := n, lastAllocatedIndex := l\<rparr>) =
      Some (if takes_route b len t a then ds ! unat i else ds ! unat (fst (the (table_lookup a t))))"
proof -
  from table_insert_routes [OF ok ip len i(1) ins] obtain root' where r: "t' = put_family_table b root' t"
    "tables_ok (family_words b) root'" "sum_list (dimensions root') = 32 * family_words b"
    "\<And>ip'. length (ip32 ip') = 4 \<Longrightarrow> table_lookup ip' t' =
       Some (if is_ip4 ip' = is_ip4 b \<and> in_prefix (ip_words b) (unat len) (ip_words ip')
             then fill_route RT_FAVOR_SPECIFIC (unat len) i (the (table_lookup ip' t)) else the (table_lookup ip' t))"
    by blast
  have same: "table_lookup ip' ?t = table_lookup ip' t'" for ip' by (simp add: table_lookup_def family_table_def)
  have iu: "unat (ucast i :: u64) = unat i"
    using unat_u32_less [of i] by (simp add: unsigned_ucast_eq take_bit_eq_mod)
  have il: "unat i < length (data t)" using i(2) ok by (simp add: rt_ok_def word_less_nat_alt)
  have look: "table_lookup ip' ?t = Some (if takes_route b len t ip' then (ucast i, of_nat (unat len)) else the (table_lookup ip' t))"
    if "length (ip32 ip') = 4" for ip'
    using r(4) [OF that] by (auto simp: same takes_route_def fill_route_def)
  have len64: "(of_nat (unat len) :: u64) \<noteq> 0"
    using len(1) unat_length [of len] by (auto simp: word_less_nat_alt unat_eq_zero)
  have good: "good_route ?t (if takes_route b len t ip' then (ucast i, of_nat (unat len)) else the (table_lookup ip' t))"
    if "length (ip32 ip') = 4" for ip'
  proof (cases "takes_route b len t ip'")
    case True
    have "(ucast i :: u64) \<noteq> 0" using i(1) iu by (auto simp: unat_eq_zero)
    with True len64 il d show ?thesis by (simp add: good_route_def iu)
  next
    case False
    have "ds ! j \<noteq> None" if "data t ! j \<noteq> None" for j using d(2,3) that by (cases "j = unat i") auto
    with good_lookup(2) [OF ok that] show ?thesis using False d(1) by (auto simp: good_route_def)
  qed
  have z: "ds ! 0 = None" using ok i(1) d(3) [of 0] by (auto simp: rt_ok_def unat_eq_zero)
  have tab: "\<exists>r4 r6. rt t' = Some r4 \<and> rt6 t' = Some r6 \<and> tables_ok 1 r4 \<and> sum_list (dimensions r4) = 32 \<and>
      tables_ok 4 r6 \<and> sum_list (dimensions r6) = 128"
    using ok r(1-3) by (auto simp: rt_ok_def put_family_table_def family_words_def split: if_splits)
  have keep: "ip_type t' = ip_type t" "max_size t' = max_size t" using r(1) by (simp_all add: put_family_table_def)
  show rok: "rt_ok ?t"
    using ok d(1) l z tab keep look good unfolding rt_ok_def by simp
  assume "length (ip32 a) = 4"
  with good_lookup(1) [OF rok this] look show "sfrt_lookup a ?t =
      Some (if takes_route b len t a then ds ! unat i else ds ! unat (fst (the (table_lookup a t))))"
    by (simp add: iu)
qed

lemma table_insert_last:
  "table_insert b len i behavior (t\<lparr>lastAllocatedIndex := x\<rparr>) =
     map_option (\<lambda>(r, t'). (r, t'\<lparr>lastAllocatedIndex := x\<rparr>)) (table_insert b len i behavior t)"
  by (auto simp: table_insert_def family_table_def put_family_table_def map_option_case split: option.split)

lemma table_insert_data: "table_insert b len i behavior t = Some (r, t') \<Longrightarrow> data t' = data t"
  by (auto simp: table_insert_def put_family_table_def split: option.splits if_splits)


section \<open>New tables\<close>

lemma new_table_ok:
  assumes r4: "sfrt_dir_new cap d = Some (Some r4)" "fits 1 0 d" "sum_list d = 32"
    and r6: "sfrt_dir_new cap d6 = Some (Some r6)" "fits 4 0 d6" "sum_list d6 = 128"
    and t: "rt t = Some r4" "rt6 t = Some r6" "ip_type t = IPv6" "data t = replicate (unat (max_size t)) None"
      "0 < max_size t" "lastAllocatedIndex t = 0"
  shows "rt_ok t" and "length (ip32 ip) = 4 \<Longrightarrow> sfrt_lookup ip t = Some None"
proof -
  have a: "routes 1 r4 (\<lambda>_. (0, 0))" by (rule new_routes [OF r4(1,2)]) simp
  have b: "routes 4 r6 (\<lambda>_. (0, 0))" by (rule new_routes [OF r6(1,2)]) simp
  have dims: "dimensions r = ds" if "sfrt_dir_new c ds = Some (Some r)" for c ds r
    using that by (auto simp: sfrt_dir_new_def sub_table_new_def Let_def split: if_splits)
  have m: "0 < unat (max_size t)" using t(5) by (simp add: word_less_nat_alt)
  have look: "table_lookup ip t = Some (0, 0)" if "length (ip32 ip) = 4" for ip
    using a b t(1,2) ip_words_length [OF that]
    by (auto simp: table_lookup_def family_table_def routes_def family_words_def)
  show ok: "rt_ok t"
    using a b t m look r4(3) r6(3) dims [OF r4(1)] dims [OF r6(1)]
    unfolding rt_ok_def by (auto simp: routes_def good_route_def)
  show "sfrt_lookup ip t = Some None" if "length (ip32 ip) = 4"
    using good_lookup(1) [OF ok that] look [OF that] t(4) m by simp
qed

definition small_table :: "char rt_table" where
  "small_table = \<lparr>data = replicate 4 None, num_ent = 1, max_size = 4, lastAllocatedIndex = 0, ip_type = IPv6,
     table_type = DIR_2x16, rt_allocated = 128, rt = Some dir_2x16,
     rt6 = Some (the (the (sfrt_dir_new 3000 (replicate 64 2))))\<rparr>"

lemma small_table_ok: "rt_ok small_table"
proof (rule new_table_ok(1) [OF dir_2x16_new])
  show "sfrt_dir_new 3000 (replicate 64 2) = Some (Some (the (the (sfrt_dir_new 3000 (replicate 64 2)))))" by code_simp
  show "fits 1 0 (replicate 16 2)" "fits 4 0 (replicate 64 2)" by code_simp+
qed (simp_all add: small_table_def sum_list_replicate)




section \<open>Default routes and IPv4 tables\<close>

text \<open>
  The check for length 0 comes before the 96 bits of the mapped prefix are taken off, so an IPv4 block of 0 bits
  passes: with no other route it returns success and stores nothing; under a route for 0.0.0.0 its index takes the
  place of sub tables, and the next lookup follows it as an address. A table for IPv4 only refuses every IPv4 block.
\<close>

definition any4 :: sf_cidr where
  "any4 = \<lparr>addr = \<lparr>ip32 = [0, 0, 0xffff0000, 0], family = AF_INET\<rparr>, cbits = 96\<rparr>"

lemma default_route_lost:
  "case sfrt_insert (Some any4) 96 CHR ''a'' RT_FAVOR_SPECIFIC small_table of
     Some (res, t') \<Rightarrow> res = RT_SUCCESS \<and> sfrt_lookup (addr any4) t' = Some None
   | None \<Rightarrow> False"
  by code_simp

lemma default_route_corrupts:
  "case sfrt_insert (Some any4) 98 CHR ''a'' RT_FAVOR_SPECIFIC small_table of
     Some (_, t1) \<Rightarrow>
       (case sfrt_insert (Some any4) 96 CHR ''b'' RT_FAVOR_SPECIFIC t1 of
          Some (res, t2) \<Rightarrow>
            res = RT_SUCCESS \<and> sfrt_lookup \<lparr>ip32 = [0, 0, 0xffff0000, 0x80], family = AF_INET\<rparr> t2 = None
        | None \<Rightarrow> False)
   | None \<Rightarrow> False"
  by code_simp

lemma ipv4_table_refuses: "ip_type t = IPv4 \<Longrightarrow> is_ip4 (addr c) \<Longrightarrow>
    sfrt_insert (Some c) len ptr behavior t = Some (RT_INSERT_FAILURE, t)"
  by (auto simp: sfrt_insert_def refused_def Let_def not_less word_less_nat_alt word_le_nat_alt)

end
