(* ===== verification/Boyer_Moore.thy ===== *)
theory Boyer_Moore
  imports Text_Utils
begin

text \<open>
  The Boyer-Moore search of utils/boyer_moore.cc: the two tables and the search that uses them,
  case sensitive and case insensitive. Pointers into the pattern are counted one past the byte
  they stand on, so that the pointer before the pattern is 0; a read before the pattern, and a
  table that has no entry for an index, give None. The lemmas show that the tables never let the
  search step over an occurrence and that every step moves it forward, hence that the search
  returns, and returns the first occurrence.
\<close>

section \<open>The tables\<close>

fun skip_loop :: "bytes \<Rightarrow> nat list \<Rightarrow> nat list" where
  "skip_loop [] skip = skip"
| "skip_loop (c # ptrn) skip = skip_loop ptrn (skip[unat c := Suc (length ptrn)])"

definition make_skip :: "bytes \<Rightarrow> nat list" where
  "make_skip ptrn = skip_loop ptrn (replicate 256 (length ptrn + 1))"

fun scan_back :: "bytes \<Rightarrow> u8 \<Rightarrow> nat \<Rightarrow> nat" where
  "scan_back ptrn c 0 = 0"
| "scan_back ptrn c (Suc p1) = (if ptrn ! p1 \<noteq> c then scan_back ptrn c p1 else p1)"

fun cmp_back :: "bytes \<Rightarrow> nat \<Rightarrow> nat \<Rightarrow> nat \<Rightarrow> (nat \<times> nat) option" where
  "cmp_back ptrn pptr 0 p2 = Some (0, p2)"
| "cmp_back ptrn pptr (Suc p3) 0 = None"
| "cmp_back ptrn pptr (Suc p3) (Suc p2) =
     (if ptrn ! p3 = ptrn ! p2 \<and> pptr \<le> p2 then cmp_back ptrn pptr p3 p2 else Some (p3, p2))"

lemma scan_back_le: "scan_back ptrn c p1 \<le> p1"
  by (induction p1) auto

lemma scan_back_less: "0 < p1 \<Longrightarrow> scan_back ptrn c p1 < p1"
  using scan_back_le [of ptrn c] by (cases p1) (auto simp: le_imp_less_Suc)

lemma cmp_back_le: "cmp_back ptrn pptr p3 p2 = Some (q3, q2) \<Longrightarrow> q3 \<le> p3"
  by (induction ptrn pptr p3 p2 rule: cmp_back.induct) (auto split: if_splits)

function shift_find :: "bytes \<Rightarrow> u8 \<Rightarrow> nat \<Rightarrow> nat \<Rightarrow> (nat \<times> nat) option" where
  "shift_find ptrn c pptr p1 =
     (let p1' = scan_back ptrn c p1
      in case cmp_back ptrn pptr p1' (length ptrn - 1) of
           None \<Rightarrow> None
         | Some (p3, p2) \<Rightarrow>
             if 0 < p3 \<and> pptr \<le> p2 then shift_find ptrn c pptr p1' else Some (p3, p2))"
  by pat_completeness auto
termination
proof (relation "measure (\<lambda>(ptrn, c, pptr, p1). p1)", goal_cases)
  case (2 ptrn c pptr p1 p1' x p3 p2)
  then have "0 < p1'" using cmp_back_le [of ptrn pptr p1' "length ptrn - 1" p3 p2] by auto
  then have "0 < p1" using 2 scan_back_le [of ptrn c p1] by simp
  then show ?case using 2 scan_back_less by simp
qed simp

declare shift_find.simps [simp del]

fun shift_loop :: "bytes \<Rightarrow> nat \<Rightarrow> nat list \<Rightarrow> nat list option" where
  "shift_loop ptrn 0 shift = Some shift"
| "shift_loop ptrn (Suc j) shift =
     (case shift_find ptrn (ptrn ! (length ptrn - 1)) (j + 2) (length ptrn - 1) of
        None \<Rightarrow> None
      | Some (p3, p2) \<Rightarrow> shift_loop ptrn j (shift[j := length ptrn - j + p2 - p3]))"

definition make_shift :: "bytes \<Rightarrow> nat list option" where
  "make_shift ptrn =
     (if ptrn = [] then None
      else shift_loop ptrn (length ptrn - 1) ((replicate (length ptrn) 0)[length ptrn - 1 := 1]))"

section \<open>The search\<close>

datatype compared = Found nat | Mismatch nat nat

fun match_back :: "(u8 \<Rightarrow> u8) \<Rightarrow> bytes \<Rightarrow> bytes \<Rightarrow> nat \<Rightarrow> nat \<Rightarrow> compared option" where
  "match_back up buf ptrn (Suc b_idx) (Suc p_idx) =
     (if up (buf ! b_idx) = ptrn ! p_idx
      then if p_idx = 0 then Some (Found b_idx) else match_back up buf ptrn b_idx p_idx
      else Some (Mismatch b_idx p_idx))"
| "match_back up buf ptrn b_idx p_idx = None"

definition stride :: "nat list \<Rightarrow> nat list \<Rightarrow> u8 \<Rightarrow> nat \<Rightarrow> nat option" where
  "stride skip shift c p_idx =
     (if unat c < length skip \<and> p_idx < length shift
      then Some (if skip ! unat c > shift ! p_idx then skip ! unat c else shift ! p_idx) else None)"

partial_function (option) search_loop ::
  "(u8 \<Rightarrow> u8) \<Rightarrow> bytes \<Rightarrow> bytes \<Rightarrow> nat list \<Rightarrow> nat list \<Rightarrow> nat \<Rightarrow> int option" where
  "search_loop up buf ptrn skip shift b_idx =
     (if b_idx \<le> length buf
      then case match_back up buf ptrn b_idx (length ptrn) of
             None \<Rightarrow> None
           | Some r \<Rightarrow>
               (case r of
                  Found i \<Rightarrow> Some (int i)
                | Mismatch b p \<Rightarrow>
                    (case stride skip shift (up (buf ! b)) p of
                       None \<Rightarrow> None
                     | Some n \<Rightarrow> search_loop up buf ptrn skip shift (b + n)))
      else Some (- 1))"

declare search_loop.simps [code]

definition toupper_u8 :: "u8 \<Rightarrow> u8" where
  "toupper_u8 c = (if 0x61 \<le> c \<and> c \<le> 0x7a then c - 0x20 else c)"

definition mSearch :: "bytes \<Rightarrow> bytes \<Rightarrow> nat list \<Rightarrow> nat list \<Rightarrow> int option" where
  "mSearch buf ptrn skip shift =
     (if ptrn = [] then Some (- 1) else search_loop (\<lambda>c. c) buf ptrn skip shift (length ptrn))"

definition mSearchCI :: "bytes \<Rightarrow> bytes \<Rightarrow> nat list \<Rightarrow> nat list \<Rightarrow> int option" where
  "mSearchCI buf ptrn skip shift =
     (if ptrn = [] then Some (- 1) else search_loop toupper_u8 buf ptrn skip shift (length ptrn))"

section \<open>The skip table\<close>

lemma skip_loop_length [simp]: "length (skip_loop ptrn skip) = length skip"
  by (induction ptrn skip rule: skip_loop.induct) auto

lemma make_skip_length [simp]: "length (make_skip ptrn) = 256"
  by (simp add: make_skip_def)

lemma skip_loop_entry:
  assumes "length skip = 256"
  shows "(c \<notin> set ptrn \<longrightarrow> skip_loop ptrn skip ! unat c = skip ! unat c) \<and>
    (c \<in> set ptrn \<longrightarrow> (\<exists>k<length ptrn. ptrn ! k = c \<and> skip_loop ptrn skip ! unat c = length ptrn - k \<and>
       (\<forall>i. k < i \<longrightarrow> i < length ptrn \<longrightarrow> ptrn ! i \<noteq> c)))"
  using assms
proof (induction ptrn skip rule: skip_loop.induct)
  case (2 x ptrn skip)
  let ?s = "skip[unat x := Suc (length ptrn)]"
  note IH = "2.IH"
  show ?case
  proof (cases "c \<in> set ptrn")
    case True
    with IH "2.prems" obtain k where k: "k < length ptrn" "ptrn ! k = c"
      "skip_loop ptrn ?s ! unat c = length ptrn - k" "\<forall>i. k < i \<longrightarrow> i < length ptrn \<longrightarrow> ptrn ! i \<noteq> c"
      by auto
    then have "Suc k < length (x # ptrn) \<and> (x # ptrn) ! Suc k = c \<and>
      skip_loop (x # ptrn) skip ! unat c = length (x # ptrn) - Suc k \<and>
      (\<forall>i. Suc k < i \<longrightarrow> i < length (x # ptrn) \<longrightarrow> (x # ptrn) ! i \<noteq> c)"
      by (auto simp: nth_Cons split: nat.splits)
    with True show ?thesis by auto
  next
    case False
    with IH "2.prems" have e: "skip_loop ptrn ?s ! unat c = ?s ! unat c" by simp
    show ?thesis
    proof (cases "x = c")
      case True
      with False e "2.prems" unat_u8_less [of c] show ?thesis
        by (intro conjI impI exI [of _ 0]) (auto simp: nth_Cons in_set_conv_nth split: nat.splits)
    next
      case False
      then have "unat x \<noteq> unat c" by (simp add: word_unat_eq_iff)
      with False \<open>c \<notin> set ptrn\<close> e show ?thesis by simp
    qed
  qed
qed simp

text \<open>Past the entry of the skip table for a byte, counted from the end, the byte does not occur.\<close>

lemma make_skip_entry:
  "make_skip ptrn ! unat c \<le> Suc (length ptrn) \<and> 0 < make_skip ptrn ! unat c \<and>
   (\<forall>i. length ptrn < make_skip ptrn ! unat c + i \<longrightarrow> i < length ptrn \<longrightarrow> ptrn ! i \<noteq> c)"
proof (cases "c \<in> set ptrn")
  case True
  then obtain k where "k < length ptrn" "make_skip ptrn ! unat c = length ptrn - k"
    "\<forall>i. k < i \<longrightarrow> i < length ptrn \<longrightarrow> ptrn ! i \<noteq> c"
    using skip_loop_entry [of "replicate 256 (length ptrn + 1)" c ptrn] by (auto simp: make_skip_def)
  then show ?thesis by (auto; metis less_diff_conv2 add.commute less_imp_le_nat)
next
  case False
  then have "make_skip ptrn ! unat c = Suc (length ptrn)"
    using skip_loop_entry [of "replicate 256 (length ptrn + 1)" c ptrn] unat_u8_less [of c]
    by (simp add: make_skip_def)
  with False show ?thesis by (auto simp: in_set_conv_nth)
qed

lemma make_skip_mismatch:
  assumes "ptrn \<noteq> []" and "ptrn ! (length ptrn - 1) \<noteq> c"
  shows "1 < make_skip ptrn ! unat c"
proof (rule ccontr)
  assume "\<not> ?thesis"
  then have "make_skip ptrn ! unat c = 1" using make_skip_entry [of ptrn c] by linarith
  show False
  proof (cases "c \<in> set ptrn")
    case True
    then obtain k where "k < length ptrn" "ptrn ! k = c" "make_skip ptrn ! unat c = length ptrn - k"
      using skip_loop_entry [of "replicate 256 (length ptrn + 1)" c ptrn] by (auto simp: make_skip_def)
    with \<open>make_skip ptrn ! unat c = 1\<close> have "k = length ptrn - 1" by linarith
    with assms \<open>ptrn ! k = c\<close> show False by simp
  next
    case False
    then have "make_skip ptrn ! unat c = Suc (length ptrn)"
      using skip_loop_entry [of "replicate 256 (length ptrn + 1)" c ptrn] unat_u8_less [of c]
      by (simp add: make_skip_def)
    with assms \<open>make_skip ptrn ! unat c = 1\<close> show False by simp
  qed
qed

section \<open>The shift table\<close>

text \<open>Shifting the pattern by d contradicts what was compared behind index j.\<close>

definition clash :: "bytes \<Rightarrow> nat \<Rightarrow> nat \<Rightarrow> bool" where
  "clash ptrn j d \<longleftrightarrow> (\<exists>k. j < k \<and> k < length ptrn \<and> d \<le> k \<and> ptrn ! (k - d) \<noteq> ptrn ! k)"

lemma scan_back_skips: "scan_back ptrn c p1 < i \<Longrightarrow> i < p1 \<Longrightarrow> ptrn ! i \<noteq> c"
  by (induction p1) (auto split: if_splits elim: less_SucE)

lemma cmp_back_total:
  assumes "p3 \<le> p2"
  shows "\<exists>q3 q2. cmp_back ptrn pptr p3 p2 = Some (q3, q2) \<and> q3 \<le> q2 \<and> q2 \<le> p2 \<and> q2 - q3 = p2 - p3 \<and>
    (0 < q3 \<longrightarrow> pptr \<le> q2 \<longrightarrow> q2 < p2 \<and> ptrn ! q3 \<noteq> ptrn ! q2)"
  using assms
  by (induction ptrn pptr p3 p2 rule: cmp_back.induct) (auto split: if_splits)

lemma shift_find_spec:
  assumes "p1 < length ptrn" and "\<forall>x. p1 \<le> x \<longrightarrow> x < length ptrn - 1 \<longrightarrow> clash ptrn j (length ptrn - 1 - x)"
    and "c = ptrn ! (length ptrn - 1)" and "j < length ptrn - 1" and "pptr = j + 2"
  shows "\<exists>p3 p2 q. shift_find ptrn c pptr p1 = Some (p3, p2) \<and> p3 \<le> p2 \<and> p2 - p3 = length ptrn - 1 - q \<and> q \<le> p1 \<and>
    (0 < p1 \<longrightarrow> q < p1) \<and> (\<forall>x. q < x \<longrightarrow> x < length ptrn - 1 \<longrightarrow> clash ptrn j (length ptrn - 1 - x))"
  using assms
proof (induction ptrn c pptr p1 rule: shift_find.induct)
  case (1 ptrn c pptr p1)
  let ?n = "length ptrn - 1" and ?q = "scan_back ptrn c p1"
  have q: "?q \<le> p1" "0 < p1 \<longrightarrow> ?q < p1" using scan_back_le scan_back_less by auto
  then have "?q \<le> ?n" using "1.prems" by linarith
  from cmp_back_total [OF this, of ptrn pptr] obtain q3 q2 where
    cmp: "cmp_back ptrn pptr ?q ?n = Some (q3, q2)" "q3 \<le> q2" "q2 \<le> ?n" "q2 - q3 = ?n - ?q"
      "0 < q3 \<longrightarrow> pptr \<le> q2 \<longrightarrow> q2 < ?n \<and> ptrn ! q3 \<noteq> ptrn ! q2" by blast
  have scanned: "clash ptrn j (?n - x)" if "?q < x" "x < ?n" for x
  proof (cases "x < p1")
    case True
    with that "1.prems" scan_back_skips [of ptrn c p1 x] show ?thesis
      unfolding clash_def by (intro exI [of _ ?n]) auto
  next
    case False
    with that "1.prems" show ?thesis by simp
  qed
  show ?case
  proof (cases "0 < q3 \<and> pptr \<le> q2")
    case False
    then have "shift_find ptrn c pptr p1 = Some (q3, q2)"
      using cmp(1) by (subst shift_find.simps) (auto simp: Let_def)
    with cmp q scanned show ?thesis by blast
  next
    case True
    have q2: "q2 - (?n - ?q) = q3" using cmp by arith
    have at_q: "clash ptrn j (?n - ?q)"
      unfolding clash_def using True cmp "1.prems"(5) q2 by (intro exI [of _ q2]) auto
    have step: "shift_find ptrn c pptr p1 = shift_find ptrn c pptr ?q"
      using True cmp(1) by (subst shift_find.simps) (simp add: Let_def)
    have "\<forall>x. ?q \<le> x \<longrightarrow> x < ?n \<longrightarrow> clash ptrn j (?n - x)" using scanned at_q by (metis le_neq_implies_less)
    from "1.IH" [OF refl cmp(1) refl True _ this "1.prems"(3) "1.prems"(4) "1.prems"(5)] "1.prems"(1) q(1)
    obtain p3 p2 r where "shift_find ptrn c pptr ?q = Some (p3, p2)" "p3 \<le> p2" "p2 - p3 = ?n - r" "r \<le> ?q"
      "0 < ?q \<longrightarrow> r < ?q" "\<forall>x. r < x \<longrightarrow> x < ?n \<longrightarrow> clash ptrn j (?n - x)"
      by (meson le_less_trans)
    then show ?thesis unfolding step using q by (meson le_trans le_less_trans)
  qed
qed

text \<open>
  What an entry of the shift table promises: for the last byte it is 1; for the others it moves
  the end of the window by at least one, and every smaller move clashes.
\<close>

definition shift_ok :: "bytes \<Rightarrow> nat \<Rightarrow> nat \<Rightarrow> bool" where
  "shift_ok ptrn j n \<longleftrightarrow>
     (if j = length ptrn - 1 then n = 1
      else length ptrn - j < n \<and> n \<le> 2 * length ptrn \<and>
        (\<forall>d. 0 < d \<longrightarrow> length ptrn - j + d < n \<longrightarrow> clash ptrn j d))"

lemma shift_entry:
  assumes "j < length ptrn - 1"
  shows "\<exists>p3 p2. shift_find ptrn (ptrn ! (length ptrn - 1)) (j + 2) (length ptrn - 1) = Some (p3, p2) \<and>
    shift_ok ptrn j (length ptrn - j + p2 - p3)"
proof -
  let ?n = "length ptrn - 1"
  from assms have "?n < length ptrn" by linarith
  from shift_find_spec [OF this _ refl assms refl] obtain p3 p2 q where
    s: "shift_find ptrn (ptrn ! ?n) (j + 2) ?n = Some (p3, p2)" "p3 \<le> p2" "p2 - p3 = ?n - q"
      "0 < ?n \<longrightarrow> q < ?n" "\<forall>x. q < x \<longrightarrow> x < ?n \<longrightarrow> clash ptrn j (?n - x)" by auto
  have "shift_ok ptrn j (length ptrn - j + p2 - p3)"
  proof -
    have e: "length ptrn - j + p2 - p3 = length ptrn - j + (?n - q)" using s by linarith
    have "clash ptrn j d" if "0 < d" "d < ?n - q" for d
      using s(5) [rule_format, of "?n - d"] that by auto
    with e s(4) assms show ?thesis by (auto simp: shift_ok_def)
  qed
  with s(1) show ?thesis by blast
qed

lemma shift_loop_ok:
  assumes "k \<le> length ptrn - 1" and "length shift = length ptrn"
    and "\<forall>j<length ptrn. k \<le> j \<longrightarrow> shift_ok ptrn j (shift ! j)"
  shows "\<exists>sh. shift_loop ptrn k shift = Some sh \<and> length sh = length ptrn \<and>
    (\<forall>j<length ptrn. shift_ok ptrn j (sh ! j))"
  using assms
proof (induction ptrn k shift rule: shift_loop.induct)
  case (2 ptrn j shift)
  from "2.prems" have "j < length ptrn - 1" by simp
  from shift_entry [OF this] obtain p3 p2 where
    f: "shift_find ptrn (ptrn ! (length ptrn - 1)) (j + 2) (length ptrn - 1) = Some (p3, p2)"
      "shift_ok ptrn j (length ptrn - j + p2 - p3)" by blast
  have "\<forall>i<length ptrn. j \<le> i \<longrightarrow> shift_ok ptrn i ((shift[j := length ptrn - j + p2 - p3]) ! i)"
    using "2.prems" f(2) by (auto simp: nth_list_update Suc_le_eq)
  with "2.IH" [OF f(1) refl] "2.prems" f(1) show ?case by simp
qed simp

lemma make_shift_ok:
  assumes "ptrn \<noteq> []"
  shows "\<exists>sh. make_shift ptrn = Some sh \<and> length sh = length ptrn \<and> (\<forall>j<length ptrn. shift_ok ptrn j (sh ! j))"
proof -
  let ?s = "(replicate (length ptrn) 0)[length ptrn - 1 := 1]"
  have "\<forall>j<length ptrn. length ptrn - 1 \<le> j \<longrightarrow> shift_ok ptrn j (?s ! j)"
  proof (intro allI impI)
    fix j assume "j < length ptrn" "length ptrn - 1 \<le> j"
    then have "j = length ptrn - 1" by simp
    with assms show "shift_ok ptrn j (?s ! j)" by (simp add: shift_ok_def)
  qed
  from shift_loop_ok [OF order_refl _ this] assms show ?thesis by (simp add: make_shift_def)
qed

section \<open>The search finds the first occurrence\<close>

lemma occurs_at_nth:
  "occurs_at f needle s i \<longleftrightarrow>
     i + length needle \<le> length s \<and> (\<forall>k<length needle. f (s ! (i + k)) = needle ! k)"
  by (auto simp: occurs_at_def list_eq_iff_nth_eq)

lemma match_back_spec:
  assumes "0 < p"
  shows "match_back up buf ptrn (s + p) p = Some (Found s) \<and> (\<forall>k<p. up (buf ! (s + k)) = ptrn ! k) \<or>
    (\<exists>q<p. match_back up buf ptrn (s + p) p = Some (Mismatch (s + q) q) \<and> up (buf ! (s + q)) \<noteq> ptrn ! q \<and>
       (\<forall>k. q < k \<longrightarrow> k < p \<longrightarrow> up (buf ! (s + k)) = ptrn ! k))"
  using assms
proof (induction p)
  case (Suc p)
  show ?case
  proof (cases "up (buf ! (s + p)) = ptrn ! p \<and> 0 < p")
    case False
    then show ?thesis by (auto intro: exI [of _ p])
  next
    case True
    with Suc.IH show ?thesis by (auto simp: less_Suc_eq)
  qed
qed simp

text \<open>No occurrence starts between the window at s and the one the stride moves to.\<close>

lemma skip_safe:
  assumes "up (buf ! (s + q)) = c" and "q < length ptrn" and "s \<le> i"
    and "i + length ptrn < s + q + make_skip ptrn ! unat c"
  shows "\<not> occurs_at up ptrn buf i"
proof
  assume occ: "occurs_at up ptrn buf i"
  have "i \<le> s + q" using assms(4) make_skip_entry [of ptrn c] by linarith
  then have k: "s + q - i < length ptrn" "i + (s + q - i) = s + q" using assms(2,3) by auto
  then have "ptrn ! (s + q - i) = c" using occ assms(1) unfolding occurs_at_nth by metis
  moreover have "length ptrn < make_skip ptrn ! unat c + (s + q - i)"
    using assms(4) \<open>i \<le> s + q\<close> by linarith
  ultimately show False using make_skip_entry [of ptrn c] k(1) by blast
qed

lemma clash_safe:
  assumes "clash ptrn q d" and "\<forall>k. q < k \<longrightarrow> k < length ptrn \<longrightarrow> up (buf ! (s + k)) = ptrn ! k"
  shows "\<not> occurs_at up ptrn buf (s + d)"
proof
  assume occ: "occurs_at up ptrn buf (s + d)"
  from assms(1) obtain k where k: "q < k" "k < length ptrn" "d \<le> k" "ptrn ! (k - d) \<noteq> ptrn ! k"
    by (auto simp: clash_def)
  then have "k - d < length ptrn" by simp
  then have "up (buf ! (s + d + (k - d))) = ptrn ! (k - d)" using occ unfolding occurs_at_nth by blast
  with k assms(2) show False by simp
qed

lemma shift_safe:
  assumes "shift_ok ptrn q n" and "q < length ptrn" and "up (buf ! (s + q)) \<noteq> ptrn ! q"
    and "\<forall>k. q < k \<longrightarrow> k < length ptrn \<longrightarrow> up (buf ! (s + k)) = ptrn ! k"
    and "s \<le> i" and "i + length ptrn < s + q + n"
  shows "\<not> occurs_at up ptrn buf i"
proof (cases "i = s")
  case True
  with assms(2,3) show ?thesis by (auto simp: occurs_at_nth)
next
  case False
  with assms(5) obtain d where d: "i = s + d" "0 < d" by (metis le_add_diff_inverse le_neq_implies_less zero_less_diff)
  have "q \<noteq> length ptrn - 1" using assms(1,2,6) d by (auto simp: shift_ok_def)
  with assms(1,2,6) d have "clash ptrn q d" by (auto simp: shift_ok_def)
  from clash_safe [OF this assms(4)] d show ?thesis by simp
qed

lemma stride_safe:
  assumes "length sh = length ptrn" and "\<forall>j<length ptrn. shift_ok ptrn j (sh ! j)"
    and "q < length ptrn" and "up (buf ! (s + q)) \<noteq> ptrn ! q"
    and "\<forall>k. q < k \<longrightarrow> k < length ptrn \<longrightarrow> up (buf ! (s + k)) = ptrn ! k"
  shows "\<exists>n. stride (make_skip ptrn) sh (up (buf ! (s + q))) q = Some n \<and> s + length ptrn < s + q + n \<and>
    (\<forall>i. s \<le> i \<longrightarrow> i + length ptrn < s + q + n \<longrightarrow> \<not> occurs_at up ptrn buf i)"
proof -
  let ?c = "up (buf ! (s + q))"
  let ?a = "make_skip ptrn ! unat ?c" and ?b = "sh ! q"
  have st: "stride (make_skip ptrn) sh ?c q = Some (max ?a ?b)"
    using assms(1,3) unat_u8_less [of ?c] by (auto simp: stride_def max_def)
  have ok: "shift_ok ptrn q ?b" using assms by simp
  have "length ptrn < q + max ?a ?b"
  proof (cases "q = length ptrn - 1")
    case True
    with make_skip_mismatch [of ptrn ?c] assms(3,4) have "1 < ?a" by force
    with True assms(3) show ?thesis by linarith
  next
    case False
    with ok assms(3) show ?thesis by (auto simp: shift_ok_def)
  qed
  moreover have "\<not> occurs_at up ptrn buf i" if "s \<le> i" "i + length ptrn < s + q + max ?a ?b" for i
  proof (cases "?b \<le> ?a")
    case True
    with that skip_safe [OF refl assms(3)] show ?thesis by (simp add: max_def)
  next
    case False
    with that have "i + length ptrn < s + q + ?b" by (simp add: max_def)
    from shift_safe [where up = up and buf = buf, OF ok assms(3-5) that(1) this] show ?thesis .
  qed
  ultimately show ?thesis using st by auto
qed

definition first_at :: "(u8 \<Rightarrow> u8) \<Rightarrow> bytes \<Rightarrow> bytes \<Rightarrow> int \<Rightarrow> bool" where
  "first_at up ptrn buf r \<longleftrightarrow>
     (if r < 0 then r = - 1 \<and> (\<forall>i. \<not> occurs_at up ptrn buf i)
      else occurs_at up ptrn buf (nat r) \<and> (\<forall>i<nat r. \<not> occurs_at up ptrn buf i))"

lemma search_loop_first:
  assumes "ptrn \<noteq> []" and "length sh = length ptrn" and "\<forall>j<length ptrn. shift_ok ptrn j (sh ! j)"
    and "\<forall>i < s. \<not> occurs_at up ptrn buf i"
  shows "\<exists>r. search_loop up buf ptrn (make_skip ptrn) sh (s + length ptrn) = Some r \<and> first_at up ptrn buf r"
  using assms(4)
proof (induction "length buf - s" arbitrary: s rule: less_induct)
  case less
  let ?n = "length ptrn"
  show ?case
  proof (cases "s + ?n \<le> length buf")
    case False
    have "\<not> occurs_at up ptrn buf i" for i
      using False less.prems by (cases "i < s") (auto simp: occurs_at_nth)
    with False show ?thesis by (simp add: search_loop.simps first_at_def)
  next
    case True
    from assms(1) have "0 < ?n" by simp
    from match_back_spec [OF this, of up buf ptrn s] consider
      (found) "match_back up buf ptrn (s + ?n) ?n = Some (Found s)" "\<forall>k<?n. up (buf ! (s + k)) = ptrn ! k"
      | (mismatch) q where "q < ?n" "match_back up buf ptrn (s + ?n) ?n = Some (Mismatch (s + q) q)"
        "up (buf ! (s + q)) \<noteq> ptrn ! q" "\<forall>k. q < k \<longrightarrow> k < ?n \<longrightarrow> up (buf ! (s + k)) = ptrn ! k" by blast
    then show ?thesis
    proof cases
      case found
      with True less.prems show ?thesis by (simp add: search_loop.simps first_at_def occurs_at_nth)
    next
      case mismatch
      from stride_safe [OF assms(2,3) mismatch(1,3,4)] obtain n where
        n: "stride (make_skip ptrn) sh (up (buf ! (s + q))) q = Some n" "s + ?n < s + q + n"
          "\<forall>i. s \<le> i \<longrightarrow> i + ?n < s + q + n \<longrightarrow> \<not> occurs_at up ptrn buf i" by blast
      define t where "t = s + q + n - ?n"
      have t: "s + q + n = t + ?n" "s < t" using n(2) by (auto simp: t_def)
      have "\<forall>i < t. \<not> occurs_at up ptrn buf i"
        using n(3) less.prems t(1) by (metis add_less_cancel_right not_le)
      moreover have "length buf - t < length buf - s" using t(2) True \<open>0 < ?n\<close> by linarith
      ultimately have "\<exists>r. search_loop up buf ptrn (make_skip ptrn) sh (t + ?n) = Some r \<and> first_at up ptrn buf r"
        using less.hyps by blast
      moreover have "search_loop up buf ptrn (make_skip ptrn) sh (s + ?n) =
        search_loop up buf ptrn (make_skip ptrn) sh (t + ?n)"
        using True mismatch(2) n(1) t(1) by (subst search_loop.simps) simp
      ultimately show ?thesis by simp
    qed
  qed
qed

lemma search_first:
  assumes "ptrn \<noteq> []"
  shows "\<exists>sh r. make_shift ptrn = Some sh \<and>
    search_loop up buf ptrn (make_skip ptrn) sh (length ptrn) = Some r \<and> first_at up ptrn buf r"
proof -
  from make_shift_ok [OF assms] obtain sh where sh: "make_shift ptrn = Some sh" "length sh = length ptrn"
    "\<forall>j<length ptrn. shift_ok ptrn j (sh ! j)" by blast
  from search_loop_first [OF assms sh(2,3), of 0] sh(1) show ?thesis by auto
qed

text \<open>
  C10. For every pattern that is not empty, both tables exist, and with them mSearch and mSearchCI
  return on every buffer: the first position at which the pattern occurs, the bytes of the buffer
  raised to upper case for mSearchCI, or -1 when there is none.
\<close>

theorem boyer_moore_first:
  assumes "ptrn \<noteq> []"
  shows "\<exists>shift r ri. make_shift ptrn = Some shift \<and>
    mSearch buf ptrn (make_skip ptrn) shift = Some r \<and> first_at (\<lambda>c. c) ptrn buf r \<and>
    mSearchCI buf ptrn (make_skip ptrn) shift = Some ri \<and> first_at toupper_u8 ptrn buf ri"
  using search_first [OF assms, of "\<lambda>c. c" buf] search_first [OF assms, of toupper_u8 buf] assms
  by (auto simp: mSearch_def mSearchCI_def)

theorem boyer_moore_first_witness:
  "(\<exists>shift r ri. make_shift [0x41, 0x42, 0x41] = Some shift \<and>
    mSearch [0x61, 0x42, 0x41, 0x42, 0x41] [0x41, 0x42, 0x41] (make_skip [0x41, 0x42, 0x41]) shift = Some r \<and>
    first_at (\<lambda>c. c) [0x41, 0x42, 0x41] [0x61, 0x42, 0x41, 0x42, 0x41] r \<and>
    mSearchCI [0x61, 0x42, 0x41, 0x42, 0x41] [0x41, 0x42, 0x41] (make_skip [0x41, 0x42, 0x41]) shift = Some ri \<and>
    first_at toupper_u8 [0x41, 0x42, 0x41] [0x61, 0x42, 0x41, 0x42, 0x41] ri)"
  by (rule boyer_moore_first) simp

end
