(* ===== verification/Rule_Text.thy ===== *)
theory Rule_Text
  imports Snort_Prelude
begin

text \<open>
  The texts of rule options, parser/parse_utils.cc: the byte codes of content patterns, quoted text
  with hexadecimal blocks between bars, and the bounded decimal numbers of the modifiers. A call of
  ParseError is the value None for byte codes, and the flag of the result for numbers, whose callers
  go on with the value. The lemmas show that every pattern has a text that reads back as itself, what
  a number that is accepted stands for, and the texts that are accepted without being what they say.
\<close>

unbundle bit_operations_syntax

section \<open>Definitions\<close>

definition isspace_u8 :: "u8 \<Rightarrow> bool" where
  "isspace_u8 c \<longleftrightarrow> c = 0x20 \<or> 0x09 \<le> c \<and> c \<le> 0x0d"

definition isdigit_u8 :: "u8 \<Rightarrow> bool" where
  "isdigit_u8 c \<longleftrightarrow> 0x30 \<le> c \<and> c \<le> 0x39"

definition isupper_u8 :: "u8 \<Rightarrow> bool" where
  "isupper_u8 c \<longleftrightarrow> 0x41 \<le> c \<and> c \<le> 0x5a"

definition isxdigit_u8 :: "u8 \<Rightarrow> bool" where
  "isxdigit_u8 c \<longleftrightarrow> isdigit_u8 c \<or> 0x41 \<le> c \<and> c \<le> 0x46 \<or> 0x61 \<le> c \<and> c \<le> 0x66"

definition xton :: "u8 \<Rightarrow> u8" where
  "xton c = (if isdigit_u8 c then c - 0x30 else if isupper_u8 c then c - 0x41 + 10 else c - 0x61 + 10)"

text \<open>The characters of the code: exclamation mark 0x21, quotation mark 0x22, bar 0x7c.\<close>

fun byte_code_loop :: "nat \<Rightarrow> bool \<Rightarrow> u8 \<Rightarrow> nat \<Rightarrow> bytes \<Rightarrow> bytes \<Rightarrow> (bool \<times> bytes) option" where
  "byte_code_loop state negate hex nx out [] = Some (negate, out)"
| "byte_code_loop state negate hex nx out (c # cs) =
     (if state = 0 \<and> c = 0x21 then byte_code_loop 1 True hex nx out cs
      else if state < 2 then
        (if c = 0x22 \<and> last (c # cs) = 0x22 then byte_code_loop 2 negate hex nx out (butlast cs)
         else if \<not> isspace_u8 c then None
         else byte_code_loop state negate hex nx out cs)
      else if state = 2 then
        (if c = 0x7c then byte_code_loop 4 negate 0 0 out cs
         else byte_code_loop 2 negate hex nx (out @ [c]) cs)
      else
        (if c = 0x7c then byte_code_loop 2 negate hex nx (if nx \<noteq> 0 then out @ [hex] else out) cs
         else if isxdigit_u8 c then
           (if 2 \<le> nx then byte_code_loop 4 negate (push_bit 4 0 + xton c) 1 (out @ [hex]) cs
            else byte_code_loop 4 negate (push_bit 4 hex + xton c) (Suc nx) out cs)
         else if isspace_u8 c \<and> nx \<noteq> 0 then byte_code_loop 4 negate 0 0 (out @ [hex]) cs
         else if \<not> isspace_u8 c then None
         else byte_code_loop 4 negate hex nx out cs))"

definition parse_byte_code :: "bytes \<Rightarrow> (bool \<times> bytes) option" where
  "parse_byte_code s = byte_code_loop 0 False 0 0 [] s"

fun digits_value :: "int \<Rightarrow> bytes \<Rightarrow> int \<times> bytes" where
  "digits_value v [] = (v, [])"
| "digits_value v (c # cs) = (if isdigit_u8 c then digits_value (v * 10 + (uint c - 0x30)) cs else (v, c # cs))"

text \<open>
  The standard function: white space, a sign and digits. Without a digit nothing is consumed; a value
  that a 64-bit long cannot hold is cut to the nearest bound and reported as out of range.
\<close>

definition strtol10 :: "bytes \<Rightarrow> int \<times> bytes \<times> bool" where
  "strtol10 s =
     (let t = dropWhile isspace_u8 s;
          neg = (t \<noteq> [] \<and> hd t = 0x2d);
          u = (if t \<noteq> [] \<and> (hd t = 0x2d \<or> hd t = 0x2b) then tl t else t)
      in if u = [] \<or> \<not> isdigit_u8 (hd u) then (0, s, False)
         else let (m, rest) = digits_value 0 u; v = (if neg then - m else m)
              in if v < - (2 ^ 63) then (- (2 ^ 63), rest, True)
                 else if 2 ^ 63 \<le> v then (2 ^ 63 - 1, rest, True)
                 else (v, rest, False))"

definition to_int32 :: "int \<Rightarrow> int" where
  "to_int32 x = (x + 2 ^ 31) mod 2 ^ 32 - 2 ^ 31"

definition parse_int :: "bytes \<Rightarrow> int \<Rightarrow> int \<Rightarrow> int \<times> bool" where
  "parse_int s low high =
     (let (v, rest, erange) = strtol10 s; n = to_int32 v
      in if rest \<noteq> [] then (n, False)
         else if erange then (n, False)
         else if n > high \<or> n < low then (n, False)
         else (n, True))"

section \<open>Texts that read back\<close>

datatype code_part = Plain bytes | Hex bool bytes

definition hex_digit :: "u8 \<Rightarrow> u8" where
  "hex_digit n = (if n < 10 then 0x30 + n else 0x41 + (n - 10))"

fun hex_text :: "bool \<Rightarrow> bytes \<Rightarrow> bytes" where
  "hex_text spaced [] = []"
| "hex_text spaced (b # bs) =
     hex_digit (drop_bit 4 b) # hex_digit (b AND 15) # (if spaced then [0x20] else []) @ hex_text spaced bs"

fun part_text :: "code_part \<Rightarrow> bytes" where
  "part_text (Plain s) = s"
| "part_text (Hex spaced bs) = 0x7c # hex_text spaced bs @ [0x7c]"

fun part_bytes :: "code_part \<Rightarrow> bytes" where
  "part_bytes (Plain s) = s"
| "part_bytes (Hex spaced bs) = bs"

fun part_ok :: "code_part \<Rightarrow> bool" where
  "part_ok (Plain s) = (0x7c \<notin> set s)"
| "part_ok (Hex spaced bs) = True"

definition code_text :: "bool \<Rightarrow> code_part list \<Rightarrow> bytes" where
  "code_text negate ps = (if negate then [0x21] else []) @ 0x22 # concat (map part_text ps) @ [0x22]"

lemma nibble_all: "list_all (\<lambda>m. isxdigit_u8 (hex_digit (of_nat m)) \<and> xton (hex_digit (of_nat m)) = of_nat m \<and>
    hex_digit (of_nat m) \<noteq> 0x7c) [0..<16]"
  by code_simp

lemma hex_digit_reads:
  assumes "n < 16"
  shows "isxdigit_u8 (hex_digit n) \<and> xton (hex_digit n) = n \<and> hex_digit n \<noteq> 0x7c"
proof -
  have "unat n < 16" using assms by (simp add: word_less_nat_alt)
  then show ?thesis using nibble_all [unfolded list_all_iff, rule_format, of "unat n"] by simp
qed

lemma high_nibble: "drop_bit 4 (b :: u8) < 16"
proof -
  have "unat (b div 16) < 16" using unat_u8_less [of b] by (simp add: unat_div)
  then show ?thesis by (simp add: word_less_nat_alt drop_bit_eq_div)
qed

lemma low_nibble: "(b :: u8) AND 15 < 16"
  using word_and_le1 [of b 15] by (simp add: word_less_nat_alt word_le_nat_alt)

lemma nibbles_join: "push_bit 4 (drop_bit 4 b) + (b AND 15) = (b :: u8)"
proof -
  have "b AND 15 = take_bit 4 b" by (simp add: take_bit_eq_mask mask_numeral)
  then show ?thesis by (simp only: bits_ident)
qed

lemma text_state_fresh: "byte_code_loop 2 negate hex nx out cs = byte_code_loop 2 negate 0 0 out cs"
  by (induction cs arbitrary: out) simp_all

lemma plain_reads:
  "0x7c \<notin> set s \<Longrightarrow> byte_code_loop 2 negate 0 0 out (s @ cs) = byte_code_loop 2 negate 0 0 (out @ s) cs"
  by (induction s arbitrary: out) simp_all

lemma hex_pair_reads:
  "byte_code_loop 4 negate 0 0 out (hex_digit (drop_bit 4 b) # hex_digit (b AND 15) # cs) =
     byte_code_loop 4 negate b 2 out cs"
  "byte_code_loop 4 negate hex 2 out (hex_digit (drop_bit 4 b) # hex_digit (b AND 15) # cs) =
     byte_code_loop 4 negate b 2 (out @ [hex]) cs"
  using hex_digit_reads [OF high_nibble] hex_digit_reads [OF low_nibble] nibbles_join [of b]
  by (simp_all add: numeral_2_eq_2)

lemma hex_block_packed:
  "byte_code_loop 4 negate hex 2 out (hex_text False bs @ 0x7c # cs) = byte_code_loop 2 negate 0 0 (out @ hex # bs) cs"
proof (induction bs arbitrary: hex out)
  case Nil
  then show ?case by (simp add: text_state_fresh [of negate hex])
next
  case (Cons b bs)
  then show ?case by (simp add: hex_pair_reads del: byte_code_loop.simps)
qed

lemma hex_block_reads:
  "byte_code_loop 4 negate 0 0 out (hex_text spaced bs @ 0x7c # cs) = byte_code_loop 2 negate 0 0 (out @ bs) cs"
proof (induction bs arbitrary: out)
  case (Cons b bs)
  have space: "byte_code_loop 4 negate b 2 out (0x20 # r) = byte_code_loop 4 negate 0 0 (out @ [b]) r" for r
    by (simp add: isxdigit_u8_def isdigit_u8_def isspace_u8_def)
  show ?case
  proof (cases spaced)
    case True
    with Cons space show ?thesis by (simp add: hex_pair_reads del: byte_code_loop.simps)
  next
    case False
    then show ?thesis by (simp add: hex_pair_reads hex_block_packed del: byte_code_loop.simps)
  qed
qed simp

lemma part_reads:
  assumes "part_ok p"
  shows "byte_code_loop 2 negate 0 0 out (part_text p @ cs) = byte_code_loop 2 negate 0 0 (out @ part_bytes p) cs"
proof (cases p)
  case (Plain s)
  with assms show ?thesis by (simp add: plain_reads)
next
  case (Hex spaced bs)
  have "byte_code_loop 2 negate 0 0 out (0x7c # hex_text spaced bs @ 0x7c # cs) =
    byte_code_loop 4 negate 0 0 out (hex_text spaced bs @ 0x7c # cs)" by simp
  with Hex show ?thesis by (simp add: hex_block_reads del: byte_code_loop.simps)
qed

lemma parts_read:
  "list_all part_ok ps \<Longrightarrow>
     byte_code_loop 2 negate 0 0 out (concat (map part_text ps)) = Some (negate, out @ concat (map part_bytes ps))"
proof (induction ps arbitrary: out)
  case (Cons p ps)
  then show ?case by (simp add: part_reads del: byte_code_loop.simps)
qed simp

lemma quoted_opens:
  "state < 2 \<Longrightarrow> byte_code_loop state negate 0 0 out (0x22 # cs @ [0x22]) = byte_code_loop 2 negate 0 0 out cs"
  by simp



text \<open>A hexadecimal block that is not closed is accepted, and the byte being read is dropped.\<close>

lemma open_block_drops_byte: "parse_byte_code [0x22, 0x7c, 0x34, 0x31, 0x20, 0x34, 0x32, 0x22] = Some (False, [0x41])"
  by code_simp

section \<open>Numbers\<close>

lemma to_int32_id: "- (2 ^ 31) \<le> x \<Longrightarrow> x < 2 ^ 31 \<Longrightarrow> to_int32 x = x"
  by (simp add: to_int32_def)

lemma parse_int_range:
  assumes "parse_int s low high = (n, True)"
  shows "low \<le> n \<and> n \<le> high"
  using assms by (auto simp: parse_int_def Let_def split: prod.splits if_splits)

text \<open>The number 4294967300 passes the bounds of a 16-bit modifier as 4.\<close>

lemma parse_int_wraps:
  "parse_int [0x34, 0x32, 0x39, 0x34, 0x39, 0x36, 0x37, 0x33, 0x30, 0x30] (- 65535) 65535 = (4, True)"
  by code_simp

end
