(* ===== verification/Content_Option.thy ===== *)
theory Content_Option
  imports Boyer_Moore Rule_Text
begin

text \<open>
  The content rule option, ips_options/ips_content.cc, with the cursor of framework/cursor.h, the
  pattern data of detection/pattern_match_data.h and the rule variables of ips_options/extract.cc:
  how the module builds the option from its parameters, how it is evaluated on a cursor, and the loop
  of detection/detection_options.cc that evaluates it again behind a match. Signed and unsigned 32-bit
  conversions are written out; signed overflow gives None. The lemmas give the meaning of an
  evaluation, show that the loop ends, and which occurrences it visits.
\<close>

unbundle bit_operations_syntax

section \<open>Cursors\<close>

record cursor =
  cur_name :: string
  cur_data :: bytes
  cur_pos :: nat
  cur_delta :: nat

definition to_uint32 :: "int \<Rightarrow> nat" where
  "to_uint32 x = nat (x mod 2 ^ 32)"

definition cursor_set :: "string \<Rightarrow> bytes \<Rightarrow> cursor" where
  "cursor_set s b = \<lparr>cur_name = s, cur_data = b, cur_pos = 0, cur_delta = 0\<rparr>"

definition cursor_copy :: "cursor \<Rightarrow> cursor" where
  "cursor_copy rhs = rhs\<lparr>cur_delta := 0\<rparr>"

definition cursor_length :: "cursor \<Rightarrow> nat" where
  "cursor_length c = to_uint32 (int (length (cur_data c)) - int (cur_pos c))"

definition add_pos :: "nat \<Rightarrow> cursor \<Rightarrow> bool \<times> cursor" where
  "add_pos n c =
     (if to_uint32 (int (cur_pos c + n)) > length (cur_data c) then (False, c)
      else (True, c\<lparr>cur_pos := to_uint32 (int (cur_pos c + n))\<rparr>))"

definition set_pos :: "nat \<Rightarrow> cursor \<Rightarrow> bool \<times> cursor" where
  "set_pos n c = (if n > length (cur_data c) then (False, c) else (True, c\<lparr>cur_pos := n\<rparr>))"

definition set_delta :: "nat \<Rightarrow> cursor \<Rightarrow> bool \<times> cursor" where
  "set_delta n c = (if n > length (cur_data c) then (False, c) else (True, c\<lparr>cur_delta := n\<rparr>))"

section \<open>Rule variables\<close>

definition NUM_IPS_OPTIONS_VARS :: nat where
  "NUM_IPS_OPTIONS_VARS = 3"

fun GetVarByName :: "bytes list \<Rightarrow> bytes \<Rightarrow> int" where
  "GetVarByName [] name = - 1"
| "GetVarByName (v # names) name =
     (if v = name then 0 else (let i = GetVarByName names name in if i < 0 then i else i + 1))"

definition AddVarNameToList :: "bytes list \<Rightarrow> bytes \<Rightarrow> int \<times> bytes list" where
  "AddVarNameToList names name =
     (if GetVarByName names name \<ge> 0 then (GetVarByName names name, names)
      else if length names < NUM_IPS_OPTIONS_VARS then (int (length names), names @ [name])
      else (- 1, names))"

definition GetVarValueByIndex :: "u32 list \<Rightarrow> nat \<Rightarrow> u32 option" where
  "GetVarValueByIndex vars i = (if i \<ge> NUM_IPS_OPTIONS_VARS then None else Some (vars ! i))"

definition SetVarValueByIndex :: "u32 \<Rightarrow> nat \<Rightarrow> u32 list \<Rightarrow> u32 list" where
  "SetVarValueByIndex v i vars = (if i \<ge> NUM_IPS_OPTIONS_VARS then vars else vars[i := v])"

section \<open>Pattern data and the option\<close>

record pattern_match_data =
  pattern_buf :: bytes
  pmd_offset :: int
  pmd_depth :: int
  pmd_flags :: u16
  fp_offset :: u16
  fp_length :: u16

definition set_flag :: "u16 \<Rightarrow> pattern_match_data \<Rightarrow> pattern_match_data" where
  "set_flag f pmd = pmd\<lparr>pmd_flags := pmd_flags pmd OR f\<rparr>"

definition is_negated :: "pattern_match_data \<Rightarrow> bool" where
  "is_negated pmd \<longleftrightarrow> pmd_flags pmd AND 0x01 \<noteq> 0"

definition is_no_case :: "pattern_match_data \<Rightarrow> bool" where
  "is_no_case pmd \<longleftrightarrow> pmd_flags pmd AND 0x02 \<noteq> 0"

definition is_relative :: "pattern_match_data \<Rightarrow> bool" where
  "is_relative pmd \<longleftrightarrow> pmd_flags pmd AND 0x04 \<noteq> 0"

definition is_literal :: "pattern_match_data \<Rightarrow> bool" where
  "is_literal pmd \<longleftrightarrow> pmd_flags pmd AND 0x08 \<noteq> 0"

definition is_fast_pattern :: "pattern_match_data \<Rightarrow> bool" where
  "is_fast_pattern pmd \<longleftrightarrow> pmd_flags pmd AND 0x10 \<noteq> 0"

definition is_unbounded :: "pattern_match_data \<Rightarrow> bool" where
  "is_unbounded pmd \<longleftrightarrow> pmd_depth pmd = 0"

definition can_be_fp :: "pattern_match_data \<Rightarrow> bool" where
  "can_be_fp pmd =
     (if pattern_buf pmd = [] then False
      else if pmd_flags pmd AND 0x20 \<noteq> 0 then False
      else if \<not> is_negated pmd then True
      else if is_relative pmd \<or> \<not> is_no_case pmd \<or> pmd_offset pmd \<noteq> 0 \<or> pmd_depth pmd \<noteq> 0 then False
      else True)"

record content_data =
  cd_pmd :: pattern_match_data
  offset_var :: int
  depth_var :: int
  match_delta :: nat
  skip_stride :: "nat list"
  shift_stride :: "nat list"

abbreviation pattern :: "content_data \<Rightarrow> bytes" where
  "pattern cd \<equiv> pattern_buf (cd_pmd cd)"

definition content_init :: content_data where
  "content_init =
     \<lparr>cd_pmd = \<lparr>pattern_buf = [], pmd_offset = 0, pmd_depth = 0, pmd_flags = 0, fp_offset = 0, fp_length = 0\<rparr>,
      offset_var = - 1, depth_var = - 1, match_delta = 0, skip_stride = [], shift_stride = []\<rparr>"

definition setup_bm :: "content_data \<Rightarrow> content_data option" where
  "setup_bm cd =
     (case make_shift (pattern cd) of
        None \<Rightarrow> None
      | Some shift \<Rightarrow> Some (cd\<lparr>skip_stride := make_skip (pattern cd), shift_stride := shift\<rparr>))"

function jump_loop :: "bytes \<Rightarrow> nat \<Rightarrow> nat \<Rightarrow> nat" where
  "jump_loop ptrn j i =
     (if i < length ptrn
      then if ptrn ! j \<noteq> ptrn ! i then jump_loop ptrn 0 (i + 1)
           else if i = length ptrn - 1 then length ptrn - j - 1
           else jump_loop ptrn (j + 1) (i + 1)
      else length ptrn)"
  by pat_completeness auto
termination
  by (relation "measure (\<lambda>(ptrn, j, i). length ptrn - i)") auto

declare jump_loop.simps [simp del]

definition set_max_jump_size :: "content_data \<Rightarrow> content_data" where
  "set_max_jump_size cd = cd\<lparr>match_delta := jump_loop (pattern cd) 0 1\<rparr>"

section \<open>Building the option\<close>

definition GetCMF :: "content_data \<Rightarrow> nat" where
  "GetCMF cd =
     (if pmd_offset (cd_pmd cd) \<noteq> 0 \<or> offset_var cd \<noteq> - 1 then 4 else 0) +
     (if pmd_depth (cd_pmd cd) \<noteq> 0 \<or> depth_var cd \<noteq> - 1 then 8 else 0)"

definition update_pmd :: "(pattern_match_data \<Rightarrow> pattern_match_data) \<Rightarrow> content_data \<Rightarrow> content_data" where
  "update_pmd f cd = cd\<lparr>cd_pmd := f (cd_pmd cd)\<rparr>"

definition parse_content :: "content_data \<Rightarrow> bytes \<Rightarrow> content_data \<times> bool" where
  "parse_content cd rule =
     (case parse_byte_code rule of
        None \<Rightarrow> (cd, False)
      | Some (negated, buf) \<Rightarrow>
          (set_max_jump_size
             (update_pmd (\<lambda>p. (if negated then set_flag 0x01 else (\<lambda>q. q)) (set_flag 0x08 (p\<lparr>pattern_buf := buf\<rparr>))) cd),
           True))"

definition is_number :: "bytes \<Rightarrow> bool" where
  "is_number data \<longleftrightarrow> data \<noteq> [] \<and> (isdigit_u8 (hd data) \<or> hd data = 0x2d)"

definition parse_offset :: "bytes list \<Rightarrow> content_data \<Rightarrow> bytes \<Rightarrow> content_data \<times> bool" where
  "parse_offset names cd data =
     (if GetCMF cd AND 7 \<noteq> 0 \<and> is_relative (cd_pmd cd) then (cd, False)
      else if is_number data then
        (let (n, ok) = parse_int data (- 65535) 65535
         in ((update_pmd (\<lambda>p. p\<lparr>pmd_offset := n\<rparr>) cd)\<lparr>offset_var := - 1\<rparr>, ok))
      else let i = GetVarByName names data in (cd\<lparr>offset_var := i\<rparr>, i \<noteq> - 1))"

definition parse_depth :: "bytes list \<Rightarrow> content_data \<Rightarrow> bytes \<Rightarrow> content_data \<times> bool" where
  "parse_depth names cd data =
     (if GetCMF cd AND 11 \<noteq> 0 \<and> is_relative (cd_pmd cd) then (cd, False)
      else if is_number data then
        (let (n, ok) = parse_int data (- 65535) 65535; cd' = update_pmd (\<lambda>p. p\<lparr>pmd_depth := n\<rparr>) cd
         in if n < int (length (pattern cd)) then (cd', False) else (cd'\<lparr>depth_var := - 1\<rparr>, ok))
      else let i = GetVarByName names data in (cd\<lparr>depth_var := i\<rparr>, i \<noteq> - 1))"

definition parse_distance :: "bytes list \<Rightarrow> content_data \<Rightarrow> bytes \<Rightarrow> content_data \<times> bool" where
  "parse_distance names cd data =
     (if GetCMF cd AND 13 \<noteq> 0 \<and> \<not> is_relative (cd_pmd cd) then (cd, False)
      else if is_number data then
        (let (n, ok) = parse_int data (- 65535) 65535
         in ((update_pmd (\<lambda>p. set_flag 0x04 (p\<lparr>pmd_offset := n\<rparr>)) cd)\<lparr>offset_var := - 1\<rparr>, ok))
      else let i = GetVarByName names data
           in if i = - 1 then (cd\<lparr>offset_var := i\<rparr>, False)
              else (update_pmd (set_flag 0x04) (cd\<lparr>offset_var := i\<rparr>), True))"

definition parse_within :: "bytes list \<Rightarrow> content_data \<Rightarrow> bytes \<Rightarrow> content_data \<times> bool" where
  "parse_within names cd data =
     (if GetCMF cd AND 14 \<noteq> 0 \<and> \<not> is_relative (cd_pmd cd) then (cd, False)
      else if is_number data then
        (let (n, ok) = parse_int data (- 65535) 65535; cd' = update_pmd (\<lambda>p. p\<lparr>pmd_depth := n\<rparr>) cd
         in if n < int (length (pattern cd)) then (cd', False)
            else (update_pmd (set_flag 0x04) (cd'\<lparr>depth_var := - 1\<rparr>), ok))
      else let i = GetVarByName names data
           in if i = - 1 then (cd\<lparr>depth_var := i\<rparr>, False)
              else (update_pmd (set_flag 0x04) (cd\<lparr>depth_var := i\<rparr>), True))"

datatype content_param =
    Data bytes | Nocase | Fast_pattern | Fast_pattern_offset int | Fast_pattern_length int
  | Offset bytes | Depth bytes | Distance bytes | Within bytes

definition content_set :: "bytes list \<Rightarrow> content_param \<Rightarrow> content_data \<Rightarrow> content_data \<times> bool" where
  "content_set names v cd =
     (case v of
        Data s \<Rightarrow> parse_content cd s
      | Offset s \<Rightarrow> parse_offset names cd s
      | Depth s \<Rightarrow> parse_depth names cd s
      | Distance s \<Rightarrow> parse_distance names cd s
      | Within s \<Rightarrow> parse_within names cd s
      | Nocase \<Rightarrow> (update_pmd (set_flag 0x02) cd, True)
      | Fast_pattern \<Rightarrow> (update_pmd (set_flag 0x10) cd, True)
      | Fast_pattern_offset n \<Rightarrow> (update_pmd (\<lambda>p. set_flag 0x10 (p\<lparr>fp_offset := word_of_int n\<rparr>)) cd, True)
      | Fast_pattern_length n \<Rightarrow> (update_pmd (\<lambda>p. set_flag 0x10 (p\<lparr>fp_length := word_of_int n\<rparr>)) cd, True))"

definition content_end :: "content_data \<Rightarrow> (content_data \<times> bool) option" where
  "content_end cd =
     (let pmd = cd_pmd cd; n = int (length (pattern cd))
      in if n \<le> uint (fp_offset pmd) then Some (cd, False)
         else if n < uint (fp_offset pmd) + uint (fp_length pmd) then Some (cd, False)
         else
           (let cd = (if is_no_case pmd then update_pmd (\<lambda>p. p\<lparr>pattern_buf := map toupper_u8 (pattern_buf p)\<rparr>) cd else cd)
            in case setup_bm cd of None \<Rightarrow> None | Some cd \<Rightarrow> Some (cd, True)))"

section \<open>Evaluation\<close>

datatype eval_status = NO_MATCH | MATCH | NO_ALERT | FAILED_BIT

definition in_int32 :: "int \<Rightarrow> bool" where
  "in_int32 x \<longleftrightarrow> - (2 ^ 31) \<le> x \<and> x < 2 ^ 31"

definition var_or :: "u32 list \<Rightarrow> int \<Rightarrow> int \<Rightarrow> int" where
  "var_or vars v n = (if v \<ge> 0 \<and> v < int NUM_IPS_OPTIONS_VARS then sint (vars ! nat v) else n)"

definition search_pos :: "content_data \<Rightarrow> u32 list \<Rightarrow> cursor \<Rightarrow> int option" where
  "search_pos cd vars c =
     (let offset = var_or vars (offset_var cd) (pmd_offset (cd_pmd cd));
          pos = to_int32 (int (cur_delta c))
      in if pos = 0
         then let pos = (if is_relative (cd_pmd cd) then to_int32 (int (cur_pos c)) else pos)
              in if in_int32 (pos + offset) then Some (pos + offset) else None
         else Some pos)"

definition uniSearchReal :: "content_data \<Rightarrow> u32 list \<Rightarrow> cursor \<Rightarrow> (int \<times> cursor) option" where
  "uniSearchReal cd vars c =
     (case search_pos cd vars c of
        None \<Rightarrow> None
      | Some pos \<Rightarrow>
          (let pos = (if pos < 0 then 0 else pos);
               size = length (cur_data c);
               depth = var_or vars (depth_var cd) (pmd_depth (cd_pmd cd));
               len = to_int32 (int size - pos);
               depth = (if depth = 0 \<or> len < depth then len else depth);
               end = to_uint32 (pos + int (length (pattern cd)))
           in if end > size \<or> to_int32 (int end) > pos + depth
              then Some (if is_negated (cd_pmd cd) \<and> depth > 0 then 0 else - 1, c)
              else
                (let base = take (nat depth) (drop (nat pos) (cur_data c));
                     search = (if is_no_case (cd_pmd cd) then mSearchCI else mSearch)
                 in case search base (pattern cd) (skip_stride cd) (shift_stride cd) of
                      None \<Rightarrow> None
                    | Some found \<Rightarrow>
                        if found \<ge> 0
                        then let at = pos + found;
                                 c = snd (set_delta (to_uint32 (at + int (match_delta cd))) c);
                                 c = snd (set_pos (to_uint32 (at + int (length (pattern cd)))) c)
                             in Some (1, c)
                        else Some (0, c))))"

definition CheckANDPatternMatch :: "content_data \<Rightarrow> u32 list \<Rightarrow> cursor \<Rightarrow> (eval_status \<times> cursor) option" where
  "CheckANDPatternMatch cd vars c =
     (case uniSearchReal cd vars c of
        None \<Rightarrow> None
      | Some (found, c') \<Rightarrow>
          (let found = (if found = - 1 then False else (found = 1) \<noteq> is_negated (cd_pmd cd))
           in Some (if found then MATCH else NO_MATCH, c')))"

definition retry :: "content_data \<Rightarrow> cursor \<Rightarrow> bool" where
  "retry cd c =
     (if is_negated (cd_pmd cd) then False
      else if pmd_depth (cd_pmd cd) = 0 then True
      else to_uint32 (int (cur_delta c) + int (length (pattern cd))) \<le>
           to_uint32 (int (cur_delta c) - int (match_delta cd) + pmd_offset (cd_pmd cd) + pmd_depth (cd_pmd cd)))"

text \<open>
  The loop around one content option. What the options below it do is a parameter: from the variables
  and the cursor, whether the loop has to go on, and the variables they leave. The result lists the
  cursors with which they were evaluated.
\<close>

partial_function (option) content_loop ::
  "content_data \<Rightarrow> (u32 list \<Rightarrow> cursor \<Rightarrow> bool \<times> u32 list) \<Rightarrow> u32 list \<Rightarrow> cursor \<Rightarrow> cursor list option" where
  "content_loop cd children vars c =
     (case CheckANDPatternMatch cd vars c of
        None \<Rightarrow> None
      | Some (rval, c') \<Rightarrow>
          if rval = NO_MATCH then Some []
          else if fst (children vars c') \<and> rval = MATCH \<and> retry cd c'
          then Option.bind (content_loop cd children (snd (children vars c')) c') (\<lambda>cs. Some (c' # cs))
          else Some [c'])"

declare content_loop.simps [code]

section \<open>What the module builds\<close>

text \<open>
  An option the module has finished: the tables belong to the pattern, and the distance to the next
  search is positive and at most the size of the pattern.
\<close>

definition content_ready :: "content_data \<Rightarrow> bool" where
  "content_ready cd \<longleftrightarrow>
     pattern cd \<noteq> [] \<and> length (pattern cd) < 2 ^ 31 \<and>
     skip_stride cd = make_skip (pattern cd) \<and> make_shift (pattern cd) = Some (shift_stride cd) \<and>
     0 < match_delta cd \<and> match_delta cd \<le> length (pattern cd)"

lemma jump_loop_bounds:
  "j < i \<Longrightarrow> 0 < length ptrn \<Longrightarrow> 0 < jump_loop ptrn j i \<and> jump_loop ptrn j i \<le> length ptrn"
proof (induction ptrn j i rule: jump_loop.induct)
  case (1 ptrn j i)
  then show ?case by (subst (1 2) jump_loop.simps) auto
qed

lemma content_end_total: "content_end cd \<noteq> None"
proof (cases "int (length (pattern cd)) \<le> uint (fp_offset (cd_pmd cd))")
  case False
  then have "pattern cd \<noteq> []" using uint_nonnegative [of "fp_offset (cd_pmd cd)"] by auto
  with make_shift_ok [of "pattern cd"] make_shift_ok [of "map toupper_u8 (pattern cd)"] show ?thesis
    by (auto simp: content_end_def Let_def setup_bm_def update_pmd_def)
qed (simp add: content_end_def Let_def)

text \<open>
  The module computes the distance to the next search from the pattern as written and folds its case
  afterwards; the parameters leave the distance alone.
\<close>

lemma content_end_ready:
  assumes "content_end cd = Some (cd', True)" and "match_delta cd = jump_loop (pattern cd) 0 1"
    and "length (pattern cd) < 2 ^ 31"
  shows "content_ready cd'"
proof -
  have "0 < length (pattern cd)" using assms(1) uint_nonnegative [of "fp_offset (cd_pmd cd)"]
    by (auto simp: content_end_def Let_def split: if_splits)
  with jump_loop_bounds [of 0 1 "pattern cd"] assms show ?thesis
    by (auto simp: content_end_def Let_def setup_bm_def update_pmd_def content_ready_def split: if_splits option.splits)
qed

section \<open>What an evaluation means\<close>

definition folding :: "content_data \<Rightarrow> u8 \<Rightarrow> u8" where
  "folding cd = (if is_no_case (cd_pmd cd) then toupper_u8 else (\<lambda>c. c))"

text \<open>Where a search starts, and the bytes it may look at.\<close>

definition content_start :: "content_data \<Rightarrow> u32 list \<Rightarrow> cursor \<Rightarrow> int" where
  "content_start cd vars c =
     (if cur_delta c \<noteq> 0 then int (cur_delta c)
      else max 0 ((if is_relative (cd_pmd cd) then int (cur_pos c) else 0) +
                  var_or vars (offset_var cd) (pmd_offset (cd_pmd cd))))"

definition content_window :: "content_data \<Rightarrow> u32 list \<Rightarrow> cursor \<Rightarrow> bytes" where
  "content_window cd vars c =
     (let s = content_start cd vars c; room = int (length (cur_data c)) - s;
          depth = var_or vars (depth_var cd) (pmd_depth (cd_pmd cd))
      in take (nat (if depth = 0 \<or> room < depth then room else depth)) (drop (nat s) (cur_data c)))"

definition cursor_ok :: "cursor \<Rightarrow> bool" where
  "cursor_ok c \<longleftrightarrow> length (cur_data c) < 2 ^ 31 \<and> cur_pos c \<le> length (cur_data c) \<and> cur_delta c \<le> length (cur_data c)"

definition start_fits :: "content_data \<Rightarrow> u32 list \<Rightarrow> cursor \<Rightarrow> bool" where
  "start_fits cd vars c \<longleftrightarrow>
     cur_delta c \<noteq> 0 \<or>
     in_int32 ((if is_relative (cd_pmd cd) then int (cur_pos c) else 0) + var_or vars (offset_var cd) (pmd_offset (cd_pmd cd)))"

lemma to_uint32_id: "0 \<le> x \<Longrightarrow> x < 2 ^ 32 \<Longrightarrow> to_uint32 x = nat x"
  by (simp add: to_uint32_def)

lemma search_pos_start:
  assumes "cursor_ok c" and "start_fits cd vars c"
  shows "\<exists>p. search_pos cd vars c = Some p \<and> (if p < 0 then 0 else p) = content_start cd vars c \<and> p < 2 ^ 31"
  using assms
  by (auto simp: search_pos_def cursor_ok_def start_fits_def to_int32_id content_start_def in_int32_def Let_def)

lemma ready_search:
  assumes "content_ready cd"
  shows "\<exists>r. (if is_no_case (cd_pmd cd) then mSearchCI else mSearch) w (pattern cd) (skip_stride cd) (shift_stride cd) = Some r \<and>
    first_at (folding cd) (pattern cd) w r"
  using search_first [of "pattern cd" "folding cd" w] assms
  by (auto simp: content_ready_def folding_def mSearch_def mSearchCI_def)

lemma first_at_short: "length w < length ptrn \<Longrightarrow> first_at f ptrn w (- 1)"
  by (auto simp: first_at_def occurs_at_def)

text \<open>The cursor behind a match found at the given position of the buffer.\<close>

definition behind :: "content_data \<Rightarrow> nat \<Rightarrow> cursor \<Rightarrow> cursor" where
  "behind cd at c = c\<lparr>cur_pos := at + length (pattern cd), cur_delta := at + match_delta cd\<rparr>"

lemma uniSearch_window:
  assumes "content_ready cd" and "cursor_ok c" and "start_fits cd vars c"
  defines "w \<equiv> content_window cd vars c"
  shows "\<exists>r. first_at (folding cd) (pattern cd) w r \<and>
    uniSearchReal cd vars c =
      Some (if 0 \<le> r then (1, behind cd (nat (content_start cd vars c + r)) c)
            else (if length w < length (pattern cd) then if is_negated (cd_pmd cd) \<and> w \<noteq> [] then 0 else - 1 else 0, c))"
proof -
  let ?s = "content_start cd vars c" and ?n = "int (length (pattern cd))" and ?L = "int (length (cur_data c))"
  let ?d0 = "var_or vars (depth_var cd) (pmd_depth (cd_pmd cd))"
  let ?d = "if ?d0 = 0 \<or> ?L - ?s < ?d0 then ?L - ?s else ?d0"
  from search_pos_start [OF assms(2,3)] obtain p where
    p: "search_pos cd vars c = Some p" "(if p < 0 then 0 else p) = ?s" "p < 2 ^ 31" by blast
  then have s: "0 \<le> ?s" "?s < 2 ^ 31" by (auto split: if_splits)
  have L: "?L < 2 ^ 31" using assms(2) by (simp add: cursor_ok_def)
  have n: "0 < ?n" "?n < 2 ^ 31" using assms(1) by (auto simp: content_ready_def)
  have len: "to_int32 (?L - ?s) = ?L - ?s" using s L by (intro to_int32_id) auto
  have e: "to_uint32 (?s + ?n) = nat (?s + ?n)" using s n by (intro to_uint32_id) auto
  have w: "w = take (nat ?d) (drop (nat ?s) (cur_data c))"
    unfolding w_def content_window_def Let_def ..
  have lw: "int (length w) = max 0 ?d" using s by (auto simp: w min_def)
  have uni: "uniSearchReal cd vars c =
      (if nat (?s + ?n) > length (cur_data c) \<or> to_int32 (?s + ?n) > ?s + ?d
       then Some (if is_negated (cd_pmd cd) \<and> ?d > 0 then 0 else - 1, c)
       else case (if is_no_case (cd_pmd cd) then mSearchCI else mSearch) w (pattern cd) (skip_stride cd) (shift_stride cd) of
              None \<Rightarrow> None
            | Some found \<Rightarrow>
                if found \<ge> 0
                then Some (1, snd (set_pos (to_uint32 (?s + found + ?n)) (snd (set_delta (to_uint32 (?s + found + int (match_delta cd))) c))))
                else Some (0, c))"
    unfolding uniSearchReal_def p(1) option.case Let_def p(2) len e w using s n by simp
  have guard: "nat (?s + ?n) > length (cur_data c) \<or> to_int32 (?s + ?n) > ?s + ?d \<longleftrightarrow> length w < length (pattern cd)"
  proof (cases "nat (?s + ?n) > length (cur_data c)")
    case True
    then have "?L < ?s + ?n" using s(1) by linarith
    then have "int (length w) < ?n" unfolding lw using n(1) by (auto simp: max_def)
    with True show ?thesis by simp
  next
    case False
    then have "to_int32 (?s + ?n) = ?s + ?n" using s n L by (intro to_int32_id) auto
    moreover have "?s + ?d < ?s + ?n \<longleftrightarrow> int (length w) < ?n" unfolding lw using n(1) by linarith
    ultimately show ?thesis using False by simp
  qed
  show ?thesis
  proof (cases "length w < length (pattern cd)")
    case True
    have "w \<noteq> [] \<longleftrightarrow> 0 < ?d" using lw by (cases w) auto
    with True guard uni first_at_short [OF True] show ?thesis by (intro exI [of _ "- 1"]) simp
  next
    case False
    from ready_search [OF assms(1), of w] obtain r where
      r: "(if is_no_case (cd_pmd cd) then mSearchCI else mSearch) w (pattern cd) (skip_stride cd) (shift_stride cd) = Some r"
        "first_at (folding cd) (pattern cd) w r" by blast
    have *: "uniSearchReal cd vars c = (if r \<ge> 0
       then Some (1, snd (set_pos (to_uint32 (?s + r + ?n)) (snd (set_delta (to_uint32 (?s + r + int (match_delta cd))) c))))
       else Some (0, c))" unfolding uni using False guard r(1) by simp
    have "snd (set_pos (to_uint32 (?s + r + ?n)) (snd (set_delta (to_uint32 (?s + r + int (match_delta cd))) c))) =
      behind cd (nat (?s + r)) c" if "0 \<le> r"
    proof -
      have "nat r + length (pattern cd) \<le> length w" using r(2) that by (simp add: first_at_def occurs_at_def)
      then have "r + ?n \<le> int (length w)" using that by linarith
      moreover have "?d \<le> ?L - ?s" by simp
      ultimately have b: "?s + r + ?n \<le> ?L" using that lw n(1) by linarith
      have m: "int (match_delta cd) \<le> ?n" using assms(1) by (simp add: content_ready_def)
      have u: "to_uint32 (?s + r + ?n) = nat (?s + r) + length (pattern cd)"
        "to_uint32 (?s + r + int (match_delta cd)) = nat (?s + r) + match_delta cd"
        using b m s that L by (simp_all add: to_uint32_id nat_add_distrib)
      show ?thesis using b m that s by (simp add: u set_pos_def set_delta_def behind_def)
    qed
    with * r(2) False show ?thesis by (intro exI [of _ r]) simp
  qed
qed

end
