(* ===== verification/Content_Search.thy ===== *)
theory Content_Search
  imports Content_Option
begin

text \<open>
  What the content option finds: the meaning of one evaluation in terms of the bytes between its
  offset and depth, and the occurrences that the evaluation loop visits one after the other.
\<close>

section \<open>One evaluation\<close>

lemma check_window:
  assumes "content_ready cd" and "cursor_ok c" and "start_fits cd vars c"
  shows "\<exists>r. first_at (folding cd) (pattern cd) (content_window cd vars c) r \<and>
    CheckANDPatternMatch cd vars c =
      Some (if 0 \<le> r
            then (if is_negated (cd_pmd cd) then NO_MATCH else MATCH,
                  behind cd (nat (content_start cd vars c + r)) c)
            else (if is_negated (cd_pmd cd) \<and> content_window cd vars c \<noteq> [] then MATCH else NO_MATCH, c))"
proof -
  let ?w = "content_window cd vars c"
  from uniSearch_window [OF assms] obtain r where r: "first_at (folding cd) (pattern cd) ?w r"
    "uniSearchReal cd vars c =
      Some (if 0 \<le> r then (1, behind cd (nat (content_start cd vars c + r)) c)
            else (if length ?w < length (pattern cd) then if is_negated (cd_pmd cd) \<and> ?w \<noteq> [] then 0 else - 1 else 0, c))"
    by blast
  have "?w \<noteq> []" if "\<not> length ?w < length (pattern cd)"
    using that assms(1) by (auto simp: content_ready_def)
  with r show ?thesis by (auto simp: CheckANDPatternMatch_def Let_def)
qed

text \<open>
  C11. Evaluating a finished content option on a cursor looks at the bytes from its offset, counted
  from the cursor when it is relative and from the last retry position when there is one, up to its
  depth. When the pattern, case folded if asked for, occurs in them, the cursor moves behind the first
  occurrence and the option matches unless it is negated; when it does not, the cursor stays, and the
  option matches exactly when it is negated and there was a byte to look at.
\<close>

theorem content_eval:
  assumes "content_ready cd" and "cursor_ok c" and "start_fits cd vars c"
  shows "\<exists>r. first_at (folding cd) (pattern cd) (content_window cd vars c) r \<and>
    CheckANDPatternMatch cd vars c =
      Some (if 0 \<le> r
            then (if is_negated (cd_pmd cd) then NO_MATCH else MATCH,
                  c\<lparr>cur_pos := nat (content_start cd vars c + r) + length (pattern cd),
                    cur_delta := nat (content_start cd vars c + r) + match_delta cd\<rparr>)
            else (if is_negated (cd_pmd cd) \<and> content_window cd vars c \<noteq> [] then MATCH else NO_MATCH, c))"
  using check_window [OF assms] unfolding behind_def .

text \<open>The option content:"ab", nocase, offset 1, depth 4 as the module builds it.\<close>

definition sample_option :: content_data where
  "sample_option =
     (let cd = fst (content_set [] (Data [0x22, 0x61, 0x62, 0x22]) content_init);
          cd = fst (content_set [] Nocase cd);
          cd = fst (content_set [] (Offset [0x31]) cd);
          cd = fst (content_set [] (Depth [0x34]) cd)
      in fst (the (content_end cd)))"

lemma sample_option_eq:
  "sample_option =
     \<lparr>cd_pmd = \<lparr>pattern_buf = [0x41, 0x42], pmd_offset = 1, pmd_depth = 4, pmd_flags = 0x0a, fp_offset = 0, fp_length = 0\<rparr>,
      offset_var = - 1, depth_var = - 1, match_delta = 2,
      skip_stride = make_skip [0x41, 0x42], shift_stride = [3, 1]\<rparr>"
  by code_simp

lemma sample_ready: "content_ready sample_option"
proof -
  have "make_shift [0x41, 0x42] = Some [3, 1]" by code_simp
  then show ?thesis by (simp add: sample_option_eq content_ready_def)
qed

theorem content_eval_witness:
  "\<exists>r. first_at (folding sample_option) (pattern sample_option)
      (content_window sample_option [0, 0, 0] (cursor_set ''pkt_data'' [0x61, 0x62, 0x61, 0x42, 0x61, 0x62])) r \<and>
    CheckANDPatternMatch sample_option [0, 0, 0] (cursor_set ''pkt_data'' [0x61, 0x62, 0x61, 0x42, 0x61, 0x62]) =
      Some (if 0 \<le> r
            then (if is_negated (cd_pmd sample_option) then NO_MATCH else MATCH,
                  (cursor_set ''pkt_data'' [0x61, 0x62, 0x61, 0x42, 0x61, 0x62])
                    \<lparr>cur_pos := nat (content_start sample_option [0, 0, 0] (cursor_set ''pkt_data'' [0x61, 0x62, 0x61, 0x42, 0x61, 0x62]) + r) + length (pattern sample_option),
                     cur_delta := nat (content_start sample_option [0, 0, 0] (cursor_set ''pkt_data'' [0x61, 0x62, 0x61, 0x42, 0x61, 0x62]) + r) + match_delta sample_option\<rparr>)
            else (if is_negated (cd_pmd sample_option) \<and>
                content_window sample_option [0, 0, 0] (cursor_set ''pkt_data'' [0x61, 0x62, 0x61, 0x42, 0x61, 0x62]) \<noteq> []
              then MATCH else NO_MATCH, cursor_set ''pkt_data'' [0x61, 0x62, 0x61, 0x42, 0x61, 0x62]))"
  by (rule content_eval [OF sample_ready])
    (simp_all add: cursor_ok_def cursor_set_def start_fits_def sample_option_eq is_relative_def var_or_def in_int32_def NUM_IPS_OPTIONS_VARS_def)

section \<open>The evaluation loop\<close>

lemma occurs_in_window:
  assumes "occurs_at f ptrn (take m (drop s d)) i" and "ptrn \<noteq> []"
  shows "occurs_at f ptrn d (s + i)"
proof -
  from assms(1) have "i + length ptrn \<le> m" "i + length ptrn \<le> length d - s"
    by (auto simp: occurs_at_def)
  moreover from assms(2) have "0 < length ptrn" by simp
  ultimately have "i + length ptrn \<le> m" "s + i + length ptrn \<le> length d" by linarith+
  with assms(1) show ?thesis by (auto simp: occurs_at_nth add.assoc)
qed

lemma occurs_in_suffix: "s \<le> length d \<Longrightarrow> occurs_at f ptrn (drop s d) i \<longleftrightarrow> occurs_at f ptrn d (s + i)"
  by (auto simp: occurs_at_nth add.assoc)

lemma check_total:
  assumes "content_ready cd" and "cursor_ok c" and "start_fits cd vars c"
  shows "\<exists>c'. CheckANDPatternMatch cd vars c = Some (MATCH, c') \<or> CheckANDPatternMatch cd vars c = Some (NO_MATCH, c')"
proof -
  from check_window [OF assms] obtain r a b p q where
    "CheckANDPatternMatch cd vars c = Some (if r \<ge> (0 :: int) then (if a then NO_MATCH else MATCH, p) else (if b then MATCH else NO_MATCH, q))"
    by blast
  then show ?thesis by (cases "0 \<le> r"; cases a; cases b) auto
qed

lemma match_step:
  assumes "content_ready cd" and "cursor_ok c" and "start_fits cd vars c" and "CheckANDPatternMatch cd vars c = Some (MATCH, c')"
    and "\<not> is_negated (cd_pmd cd)"
  shows "\<exists>at. c' = behind cd at c \<and> content_start cd vars c \<le> int at \<and> occurs_at (folding cd) (pattern cd) (cur_data c) at"
proof -
  let ?s = "content_start cd vars c" and ?w = "content_window cd vars c"
  from check_window [OF assms(1-3)] assms(4,5) obtain r where
    r: "first_at (folding cd) (pattern cd) ?w r" "0 \<le> r" "c' = behind cd (nat (?s + r)) c"
    by (fastforce split: if_splits)
  have s: "0 \<le> ?s" by (simp add: content_start_def)
  from r have "occurs_at (folding cd) (pattern cd) ?w (nat r)" by (simp add: first_at_def)
  with assms(1) have "occurs_at (folding cd) (pattern cd) (cur_data c) (nat ?s + nat r)"
    unfolding content_window_def Let_def content_ready_def by (blast intro: occurs_in_window)
  with r s show ?thesis by (intro exI [of _ "nat (?s + r)"]) (simp add: nat_add_distrib)
qed

lemma behind_ok:
  assumes "content_ready cd" and "cursor_ok c" and "occurs_at f (pattern cd) (cur_data c) at"
  shows "cursor_ok (behind cd at c) \<and> start_fits cd vars (behind cd at c) \<and>
    cur_delta (behind cd at c) = at + match_delta cd \<and> cur_pos (behind cd at c) = at + length (pattern cd) \<and>
    cur_data (behind cd at c) = cur_data c"
proof -
  have "at + length (pattern cd) \<le> length (cur_data c)" using assms(3) unfolding occurs_at_def by blast
  moreover have "0 < match_delta cd" "match_delta cd \<le> length (pattern cd)" using assms(1) unfolding content_ready_def by blast+
  ultimately show ?thesis using assms(2) by (simp add: behind_def cursor_ok_def start_fits_def)
qed

text \<open>The loop ends, and visits occurrences only, from left to right.\<close>

lemma content_loop_returns:
  assumes "content_ready cd" and "cursor_ok c" and "start_fits cd vars c" and "\<not> is_negated (cd_pmd cd)"
  shows "\<exists>cs. content_loop cd children vars c = Some cs \<and> sorted_wrt (\<lambda>a b. cur_pos a < cur_pos b) cs \<and>
    (\<forall>c'\<in>set cs. content_start cd vars c \<le> int (cur_pos c' - length (pattern cd)) \<and>
       occurs_at (folding cd) (pattern cd) (cur_data c) (cur_pos c' - length (pattern cd)))"
  using assms(2,3)
proof (induction "length (cur_data c) - cur_delta c" arbitrary: c vars rule: less_induct)
  case less
  let ?s = "content_start cd vars c" and ?n = "length (pattern cd)"
  have delta_pos: "0 < match_delta cd" using assms(1) unfolding content_ready_def by blast
  from check_total [OF assms(1) less.prems] obtain st c' where
    chk: "CheckANDPatternMatch cd vars c = Some (st, c')" "st = MATCH \<or> st = NO_MATCH" by blast
  show ?case
  proof (cases "st = MATCH")
    case False
    with chk show ?thesis by (simp add: content_loop.simps)
  next
    case True
    with match_step [OF assms(1) less.prems _ assms(4)] chk obtain at where
      at: "c' = behind cd at c" "?s \<le> int at" "occurs_at (folding cd) (pattern cd) (cur_data c) at" by blast
    have b: "cursor_ok c'" "cur_delta c' = at + match_delta cd" "cur_pos c' = at + ?n" "cur_data c' = cur_data c"
      and fits: "start_fits cd v c'" for v
      using behind_ok [OF assms(1) less.prems(1) at(3), folded at(1)] by blast+
    show ?thesis
    proof (cases "fst (children vars c') \<and> retry cd c'")
      case False
      with chk True at b show ?thesis by (auto simp: content_loop.simps)
    next
      case go: True
      let ?v = "snd (children vars c')"
      have delta: "cur_delta c < cur_delta c'" "cur_delta c' \<le> length (cur_data c)"
        using b at(2) delta_pos by (auto simp: content_start_def cursor_ok_def split: if_splits)
      then have "length (cur_data c') - cur_delta c' < length (cur_data c) - cur_delta c" using b by simp
      from less.hyps [OF this b(1) fits, of ?v] b obtain cs where
        cs: "content_loop cd children ?v c' = Some cs" "sorted_wrt (\<lambda>a b. cur_pos a < cur_pos b) cs"
          "\<forall>d\<in>set cs. content_start cd ?v c' \<le> int (cur_pos d - ?n) \<and>
             occurs_at (folding cd) (pattern cd) (cur_data c) (cur_pos d - ?n)" by auto
      have start: "content_start cd ?v c' = int at + int (match_delta cd)"
        using b delta_pos by (simp add: content_start_def)
      have later: "cur_pos c' < cur_pos d \<and> ?s \<le> int (cur_pos d - ?n)" if "d \<in> set cs" for d
        using cs(3) [rule_format, OF that] start delta_pos at(2) b by linarith
      have "content_loop cd children vars c = Some (c' # cs)"
        using chk True go cs(1) by (simp add: content_loop.simps [of cd children vars c])
      with later cs(2,3) at(2,3) b show ?thesis by auto
    qed
  qed
qed

section \<open>Which occurrences the loop visits\<close>

text \<open>No occurrence of the pattern can start less than the retry distance behind another one.\<close>

definition no_early_overlap :: "content_data \<Rightarrow> bool" where
  "no_early_overlap cd \<longleftrightarrow>
     (\<forall>d\<in>{1..<match_delta cd}. \<exists>k\<in>{..<length (pattern cd) - d}. pattern cd ! k \<noteq> pattern cd ! (k + d))"

definition occurrences :: "(u8 \<Rightarrow> u8) \<Rightarrow> bytes \<Rightarrow> bytes \<Rightarrow> nat \<Rightarrow> nat list" where
  "occurrences f ptrn d s = filter (occurs_at f ptrn d) [s..<length d]"

lemma occurrences_skip:
  assumes "s \<le> t" and "\<forall>i. s \<le> i \<longrightarrow> i < t \<longrightarrow> \<not> occurs_at f ptrn d i"
  shows "occurrences f ptrn d s = occurrences f ptrn d t"
proof (cases "t \<le> length d")
  case True
  then have "[s..<length d] = [s..<t] @ [t..<length d]" using upt_add_eq_append [OF assms(1), of "length d - t"] by simp
  moreover have "filter (occurs_at f ptrn d) [s..<t] = []" using assms(2) by (auto simp: filter_empty_conv)
  ultimately show ?thesis by (simp add: occurrences_def)
next
  case False
  with assms(2) show ?thesis by (auto simp: occurrences_def filter_empty_conv)
qed

lemma occurrences_hit:
  assumes "occurs_at f ptrn d t" and "ptrn \<noteq> []"
  shows "occurrences f ptrn d t = t # occurrences f ptrn d (Suc t)"
proof -
  have "0 < length ptrn" using assms(2) by simp
  then have "t < length d" using assms(1) unfolding occurs_at_def by linarith
  with assms(1) show ?thesis by (simp add: occurrences_def upt_conv_Cons)
qed

lemma overlap_excluded:
  assumes "no_early_overlap cd" and "occurs_at f (pattern cd) d at" and "at < i" and "i < at + match_delta cd"
  shows "\<not> occurs_at f (pattern cd) d i"
proof
  assume occ: "occurs_at f (pattern cd) d i"
  have "i - at \<in> {1..<match_delta cd}" using assms(3,4) by auto
  then obtain k where k: "k < length (pattern cd) - (i - at)" "pattern cd ! k \<noteq> pattern cd ! (k + (i - at))"
    using assms(1) unfolding no_early_overlap_def by blast
  then have "f (d ! (i + k)) = pattern cd ! k" "f (d ! (at + (k + (i - at)))) = pattern cd ! (k + (i - at))"
    using occ assms(2) by (auto simp: occurs_at_nth)
  with k assms(3) show False by (simp add: algebra_simps)
qed

lemma next_visit:
  assumes "content_ready cd" and "cursor_ok c" and "start_fits cd vars c" and "\<not> is_negated (cd_pmd cd)"
    and "pmd_depth (cd_pmd cd) = 0" and "depth_var cd = - 1"
  defines "occs \<equiv> occurrences (folding cd) (pattern cd) (cur_data c)"
  shows "(\<exists>c'. CheckANDPatternMatch cd vars c = Some (NO_MATCH, c')) \<and> occs (nat (content_start cd vars c)) = [] \<or>
    (\<exists>at. CheckANDPatternMatch cd vars c = Some (MATCH, behind cd at c) \<and> content_start cd vars c \<le> int at \<and>
       occurs_at (folding cd) (pattern cd) (cur_data c) at \<and> occs (nat (content_start cd vars c)) = at # occs (Suc at))"
proof -
  let ?s = "content_start cd vars c"
  have s: "0 \<le> ?s" by (simp add: content_start_def)
  have w: "content_window cd vars c = drop (nat ?s) (cur_data c)"
    using assms(5,6) s by (auto simp: content_window_def var_or_def Let_def)
  have ne: "pattern cd \<noteq> []" using assms(1) unfolding content_ready_def by blast
  from check_window [OF assms(1-3)] assms(4) obtain r where
    r: "first_at (folding cd) (pattern cd) (drop (nat ?s) (cur_data c)) r"
      "CheckANDPatternMatch cd vars c = Some (if 0 \<le> r then (MATCH, behind cd (nat (?s + r)) c) else (NO_MATCH, c))"
    unfolding w by auto
  have shift: "occurs_at (folding cd) (pattern cd) (drop (nat ?s) (cur_data c)) i \<longleftrightarrow>
      occurs_at (folding cd) (pattern cd) (cur_data c) (nat ?s + i)" for i
  proof (cases "nat ?s \<le> length (cur_data c)")
    case True
    then show ?thesis by (rule occurs_in_suffix)
  next
    case False
    then have "\<not> nat ?s + i + length (pattern cd) \<le> length (cur_data c)" "drop (nat ?s) (cur_data c) = []" by auto
    with ne show ?thesis by (simp add: occurs_at_def)
  qed
  show ?thesis
  proof (cases "0 \<le> r")
    case False
    with r shift have "\<not> occurs_at (folding cd) (pattern cd) (cur_data c) (nat ?s + i)" for i by (simp add: first_at_def)
    then have "\<not> occurs_at (folding cd) (pattern cd) (cur_data c) i" if "nat ?s \<le> i" for i using that by (metis le_add_diff_inverse)
    then have "occs (nat ?s) = []" by (auto simp: occs_def occurrences_def filter_empty_conv)
    with False r(2) show ?thesis by simp
  next
    case True
    let ?at = "nat ?s + nat r"
    from True r shift have hit: "occurs_at (folding cd) (pattern cd) (cur_data c) ?at"
      and before: "\<forall>i<nat r. \<not> occurs_at (folding cd) (pattern cd) (cur_data c) (nat ?s + i)" by (auto simp: first_at_def)
    have "\<forall>i. nat ?s \<le> i \<longrightarrow> i < ?at \<longrightarrow> \<not> occurs_at (folding cd) (pattern cd) (cur_data c) i"
      using before by (metis le_add_diff_inverse nat_add_left_cancel_less)
    then have "occs (nat ?s) = occs ?at" unfolding occs_def by (intro occurrences_skip) auto
    also have "\<dots> = ?at # occs (Suc ?at)" unfolding occs_def using hit ne by (rule occurrences_hit)
    finally have "occs (nat ?s) = ?at # occs (Suc ?at)" .
    moreover have "nat (?s + r) = ?at" using s True by (simp add: nat_add_distrib)
    ultimately show ?thesis using r(2) True hit s by auto
  qed
qed

lemma content_loop_visits:
  assumes "content_ready cd" and "cursor_ok c" and "start_fits cd vars c" and "\<not> is_negated (cd_pmd cd)"
    and "pmd_depth (cd_pmd cd) = 0" and "depth_var cd = - 1" and "no_early_overlap cd"
  shows "\<exists>cs n. content_loop cd children vars c = Some cs \<and>
    map (\<lambda>c'. cur_pos c' - length (pattern cd)) cs =
      take n (occurrences (folding cd) (pattern cd) (cur_data c) (nat (content_start cd vars c))) \<and>
    ((\<forall>vars c. fst (children vars c)) \<longrightarrow>
      length cs = length (occurrences (folding cd) (pattern cd) (cur_data c) (nat (content_start cd vars c))))"
  using assms(2,3)
proof (induction "length (cur_data c) - cur_delta c" arbitrary: c vars rule: less_induct)
  case less
  let ?s = "content_start cd vars c" and ?n = "length (pattern cd)"
  let ?occs = "occurrences (folding cd) (pattern cd) (cur_data c)"
  have delta_pos: "0 < match_delta cd" using assms(1) unfolding content_ready_def by blast
  from next_visit [OF assms(1) less.prems assms(4-6)] consider
    (none) c' where "CheckANDPatternMatch cd vars c = Some (NO_MATCH, c')" "?occs (nat ?s) = []"
    | (hit) at where "CheckANDPatternMatch cd vars c = Some (MATCH, behind cd at c)" "?s \<le> int at"
      "occurs_at (folding cd) (pattern cd) (cur_data c) at" "?occs (nat ?s) = at # ?occs (Suc at)" by blast
  then show ?case
  proof cases
    case none
    then show ?thesis by (simp add: content_loop.simps)
  next
    case hit
    let ?c = "behind cd at c"
    have b: "cursor_ok ?c" "cur_delta ?c = at + match_delta cd" "cur_pos ?c = at + ?n" "cur_data ?c = cur_data c"
      and fits: "start_fits cd v ?c" for v
      using behind_ok [OF assms(1) less.prems(1) hit(3)] by blast+
    have retry: "retry cd ?c" using assms(4,5) by (simp add: retry_def)
    show ?thesis
    proof (cases "fst (children vars ?c)")
      case False
      then have "content_loop cd children vars c = Some [?c]" using hit(1) by (simp add: content_loop.simps)
      with False hit(4) b(3) show ?thesis by (intro exI [of _ "[?c]"] exI [of _ 1]) auto
    next
      case True
      let ?v = "snd (children vars ?c)"
      have "cur_delta c < cur_delta ?c" using b(2) hit(2) delta_pos by (auto simp: content_start_def split: if_splits)
      moreover have "cur_delta ?c \<le> length (cur_data c)" using b(1,4) by (simp add: cursor_ok_def)
      ultimately have "length (cur_data ?c) - cur_delta ?c < length (cur_data c) - cur_delta c" using b(4) by simp
      from less.hyps [OF this b(1) fits, of ?v] obtain cs n where
        cs: "content_loop cd children ?v ?c = Some cs"
          "map (\<lambda>c'. cur_pos c' - ?n) cs = take n (?occs (nat (content_start cd ?v ?c)))"
          "(\<forall>vars c. fst (children vars c)) \<longrightarrow> length cs = length (?occs (nat (content_start cd ?v ?c)))"
        unfolding b(4) by blast
      have "content_start cd ?v ?c = int (at + match_delta cd)" using b(2) delta_pos by (simp add: content_start_def)
      moreover have "?occs (Suc at) = ?occs (at + match_delta cd)"
        using overlap_excluded [OF assms(7) hit(3)] delta_pos by (intro occurrences_skip) auto
      ultimately have rest: "?occs (nat (content_start cd ?v ?c)) = ?occs (Suc at)"
        by (simp only: nat_int)
      have "content_loop cd children vars c = Some (?c # cs)"
        using hit(1) True retry cs(1) by (simp add: content_loop.simps [of cd children vars c])
      with cs(2,3) hit(4) b(3) rest show ?thesis
        by (intro exI [of _ "?c # cs"] exI [of _ "Suc n"]) auto
    qed
  qed
qed

text \<open>
  C12. The loop that evaluates a content option again behind each match ends, whatever the options
  below it do: it returns, the positions of the visits grow strictly, no visit is before the start of
  the first search, and at each of them the pattern occurs in the buffer. For an option without depth
  whose retry distance is not larger than the distance at which the pattern can overlap itself, the loop
  misses nothing: the visits are the first occurrences at or behind the start, and all of them when the
  options below never stop it.
\<close>

theorem content_loop_correct:
  assumes "content_ready cd" and "cursor_ok c" and "start_fits cd vars c" and "\<not> is_negated (cd_pmd cd)"
  shows "\<exists>cs. content_loop cd children vars c = Some cs \<and> sorted_wrt (\<lambda>a b. cur_pos a < cur_pos b) cs \<and>
    (\<forall>c'\<in>set cs. content_start cd vars c \<le> int (cur_pos c' - length (pattern cd)) \<and>
       occurs_at (folding cd) (pattern cd) (cur_data c) (cur_pos c' - length (pattern cd))) \<and>
    (pmd_depth (cd_pmd cd) = 0 \<and> depth_var cd = - 1 \<and> no_early_overlap cd \<longrightarrow>
      (\<exists>n. map (\<lambda>c'. cur_pos c' - length (pattern cd)) cs =
         take n (occurrences (folding cd) (pattern cd) (cur_data c) (nat (content_start cd vars c)))) \<and>
      ((\<forall>vars c. fst (children vars c)) \<longrightarrow>
        length cs = length (occurrences (folding cd) (pattern cd) (cur_data c) (nat (content_start cd vars c)))))"
proof -
  from content_loop_returns [OF assms] obtain cs where cs: "content_loop cd children vars c = Some cs"
    "sorted_wrt (\<lambda>a b. cur_pos a < cur_pos b) cs"
    "\<forall>c'\<in>set cs. content_start cd vars c \<le> int (cur_pos c' - length (pattern cd)) \<and>
       occurs_at (folding cd) (pattern cd) (cur_data c) (cur_pos c' - length (pattern cd))" by blast
  then show ?thesis using content_loop_visits [OF assms, of children] by (metis option.inject)
qed

text \<open>The option content:"ab" without modifiers.\<close>

definition plain_option :: content_data where
  "plain_option = fst (the (content_end (fst (content_set [] (Data [0x22, 0x61, 0x62, 0x22]) content_init))))"

lemma plain_option_eq:
  "plain_option =
     \<lparr>cd_pmd = \<lparr>pattern_buf = [0x61, 0x62], pmd_offset = 0, pmd_depth = 0, pmd_flags = 0x08, fp_offset = 0, fp_length = 0\<rparr>,
      offset_var = - 1, depth_var = - 1, match_delta = 2,
      skip_stride = make_skip [0x61, 0x62], shift_stride = [3, 1]\<rparr>"
  by code_simp

lemma plain_ready: "content_ready plain_option"
proof -
  have "make_shift [0x61, 0x62] = Some [3, 1]" by code_simp
  then show ?thesis by (simp add: plain_option_eq content_ready_def)
qed

theorem content_loop_correct_witness:
  "\<exists>cs. content_loop plain_option (\<lambda>vars c. (True, vars)) [0, 0, 0] (cursor_set ''pkt_data'' [0x61, 0x62, 0x61, 0x61, 0x62]) = Some cs \<and>
    sorted_wrt (\<lambda>a b. cur_pos a < cur_pos b) cs \<and>
    (\<forall>c'\<in>set cs. content_start plain_option [0, 0, 0] (cursor_set ''pkt_data'' [0x61, 0x62, 0x61, 0x61, 0x62]) \<le> int (cur_pos c' - length (pattern plain_option)) \<and>
       occurs_at (folding plain_option) (pattern plain_option) (cur_data (cursor_set ''pkt_data'' [0x61, 0x62, 0x61, 0x61, 0x62])) (cur_pos c' - length (pattern plain_option))) \<and>
    (\<exists>n. map (\<lambda>c'. cur_pos c' - length (pattern plain_option)) cs =
       take n (occurrences (folding plain_option) (pattern plain_option) (cur_data (cursor_set ''pkt_data'' [0x61, 0x62, 0x61, 0x61, 0x62]))
         (nat (content_start plain_option [0, 0, 0] (cursor_set ''pkt_data'' [0x61, 0x62, 0x61, 0x61, 0x62]))))) \<and>
    length cs = length (occurrences (folding plain_option) (pattern plain_option) (cur_data (cursor_set ''pkt_data'' [0x61, 0x62, 0x61, 0x61, 0x62]))
      (nat (content_start plain_option [0, 0, 0] (cursor_set ''pkt_data'' [0x61, 0x62, 0x61, 0x61, 0x62]))))"
proof -
  have "no_early_overlap plain_option" by (simp add: no_early_overlap_def plain_option_eq numeral_2_eq_2 atLeastLessThanSuc)
  moreover have "pmd_depth (cd_pmd plain_option) = 0" "depth_var plain_option = - 1" "\<not> is_negated (cd_pmd plain_option)"
    by (simp_all add: plain_option_eq is_negated_def)
  moreover have "cursor_ok (cursor_set ''pkt_data'' [0x61, 0x62, 0x61, 0x61, 0x62])" "start_fits plain_option [0, 0, 0] (cursor_set ''pkt_data'' [0x61, 0x62, 0x61, 0x61, 0x62])"
    by (simp_all add: cursor_ok_def cursor_set_def start_fits_def plain_option_eq is_relative_def var_or_def
      in_int32_def NUM_IPS_OPTIONS_VARS_def)
  ultimately show ?thesis
    using content_loop_correct [OF plain_ready, of "cursor_set ''pkt_data'' [0x61, 0x62, 0x61, 0x61, 0x62]" "[0, 0, 0]" "\<lambda>vars c. (True, vars)"] by auto
qed

text \<open>A pattern whose first byte does not recur has a sound retry distance.\<close>

lemma unique_first_byte:
  assumes "pattern cd \<noteq> []" and "hd (pattern cd) \<notin> set (tl (pattern cd))" and "match_delta cd \<le> length (pattern cd)"
  shows "no_early_overlap cd"
  unfolding no_early_overlap_def
proof
  fix d assume d: "d \<in> {1..<match_delta cd}"
  then have "tl (pattern cd) ! (d - 1) \<in> set (tl (pattern cd))" using assms(3) by (intro nth_mem) auto
  moreover have "tl (pattern cd) ! (d - 1) = pattern cd ! d" using d assms(1,3) by (cases "pattern cd") (auto simp: nth_Cons')
  ultimately have "pattern cd ! 0 \<noteq> pattern cd ! (0 + d)" using assms(1,2) by (auto simp: hd_conv_nth)
  with d assms(3) show "\<exists>k\<in>{..<length (pattern cd) - d}. pattern cd ! k \<noteq> pattern cd ! (k + d)"
    by (intro bexI [of _ 0]) auto
qed

text \<open>
  The distance set_max_jump_size computes is not always sound: behind a mismatch it does not try a
  shorter repetition. The pattern aabaaa can overlap itself at distance 4, but the search goes on at
  distance 6; with nocase the pattern aA goes on at distance 2, because the distance is computed before
  the case is folded.
\<close>

lemma overlapping_match_missed:
  "jump_loop [0x61, 0x61, 0x62, 0x61, 0x61, 0x61] 0 1 = 6 \<and>
   occurs_at (\<lambda>c. c) [0x61, 0x61, 0x62, 0x61, 0x61, 0x61] [0x61, 0x61, 0x62, 0x61, 0x61, 0x61, 0x62, 0x61, 0x61, 0x61] 4 \<and>
   map_option (map cur_pos)
     (content_loop (fst (the (content_end (fst (content_set [] (Data [0x22, 0x61, 0x61, 0x62, 0x61, 0x61, 0x61, 0x22]) content_init)))))
        (\<lambda>vars c. (True, vars)) [0, 0, 0]
        (cursor_set ''pkt_data'' [0x61, 0x61, 0x62, 0x61, 0x61, 0x61, 0x62, 0x61, 0x61, 0x61])) = Some [6]"
  by (intro conjI) code_simp+

lemma folded_match_missed:
  "map_option (map cur_pos)
     (content_loop (fst (the (content_end (fst (content_set [] Nocase (fst (content_set [] (Data [0x22, 0x61, 0x41, 0x22]) content_init)))))))
        (\<lambda>vars c. (True, vars)) [0, 0, 0] (cursor_set ''pkt_data'' [0x61, 0x61, 0x61])) = Some [2]"
  by code_simp

text \<open>
  A retry searches the whole depth again from the new position: the option content:"ab", depth 4 finds
  the pattern at 0 and then at 4, outside the first four bytes.
\<close>

lemma retry_passes_depth:
  "map_option (map cur_pos)
     (content_loop (fst (the (content_end (fst (content_set [] (Depth [0x34]) (fst (content_set [] (Data [0x22, 0x61, 0x62, 0x22]) content_init)))))))
        (\<lambda>vars c. (True, vars)) [0, 0, 0] (cursor_set ''pkt_data'' [0x61, 0x62, 0x63, 0x63, 0x61, 0x62])) = Some [2, 6]"
  by code_simp

text \<open>Offset after offset, and distance after distance, are accepted; the error messages exclude them.\<close>

lemma modifiers_repeat:
  "let cd = fst (content_set [] (Data [0x22, 0x61, 0x22]) content_init);
       a = content_set [] (Offset [0x31]) cd; b = content_set [] (Distance [0x31]) cd
   in snd (content_set [] (Offset [0x32]) (fst a)) \<and> snd (content_set [] (Distance [0x32]) (fst b))"
  by code_simp

end
