(* ===== verification/Mime_Paf.thy ===== *)
theory Mime_Paf
  imports Text_Utils Rule_Text
begin

text \<open>
  Finding the parts of a MIME message in a byte stream, mime/file_mime_paf.cc and .h: the machine that
  learns the boundary from the header, the one that recognises the delimiter lines in the body, and the
  one that recognises the end of mail data. A pointer of the machine is null, into the keyword, or into
  the stored boundary; an access outside of the arrays is None. The lemmas show that a delimiter line is
  reported whatever was in the stream before it, and which boundary overruns the array.
\<close>

section \<open>Definitions\<close>

datatype mime_data_state = FINDING_BOUNDARY | FOUND_BOUNDARY

datatype mime_boundary_state = BOUNDARY_UNKNOWN | HYPEN_FIRST | HYPEN_SECOND

datatype data_end_state = END_UNKNOWN | END_FIRST_CR | END_FIRST_LF | END_DOT | END_SECOND_CR | END_SECOND_LF

datatype search_pointer = Null | Keyword nat | Stored nat

record mime_paf_info =
  data_state :: mime_data_state
  boundary :: bytes
  boundary_len :: int
  boundary_search :: search_pointer
  boundary_state :: mime_boundary_state

definition MAX_MIME_BOUNDARY_LEN :: nat where
  "MAX_MIME_BOUNDARY_LEN = 70"

definition boundary_str :: bytes where
  "boundary_str = [0x62, 0x6f, 0x75, 0x6e, 0x64, 0x61, 0x72, 0x79, 0x3d]"

definition scanning_boundary :: "mime_paf_info \<Rightarrow> nat \<Rightarrow> nat option" where
  "scanning_boundary info boundary_start =
     (if boundary_start \<noteq> 0 \<and> data_state info = FOUND_BOUNDARY \<and> boundary_state info \<noteq> BOUNDARY_UNKNOWN
      then Some boundary_start else None)"

definition deref :: "mime_paf_info \<Rightarrow> search_pointer \<Rightarrow> u8 option" where
  "deref info p =
     (case p of
        Null \<Rightarrow> None
      | Keyword i \<Rightarrow> if i < length boundary_str then Some (boundary_str ! i) else if i = length boundary_str then Some 0 else None
      | Stored i \<Rightarrow> if i < length (boundary info) then Some (boundary info ! i) else None)"

fun advance :: "search_pointer \<Rightarrow> search_pointer" where
  "advance Null = Null"
| "advance (Keyword i) = Keyword (Suc i)"
| "advance (Stored i) = Stored (Suc i)"

definition put_boundary :: "int \<Rightarrow> u8 \<Rightarrow> mime_paf_info \<Rightarrow> mime_paf_info option" where
  "put_boundary i c info =
     (if 0 \<le> i \<and> i < int (length (boundary info)) then Some (info\<lparr>boundary := (boundary info)[nat i := c]\<rparr>) else None)"

definition store_boundary :: "mime_paf_info \<Rightarrow> u8 \<Rightarrow> (bool \<times> mime_paf_info) option" where
  "store_boundary info val =
     (if boundary_search info = Null
      then Some (False, if val = 0x2e \<or> isspace_u8 val then info\<lparr>boundary_search := Keyword 0\<rparr> else info)
      else
        (case deref info (boundary_search info) of
           None \<Rightarrow> None
         | Some ch \<Rightarrow>
             if ch = 0x3d then
               Some (False, if val = 0x3d then info\<lparr>boundary_search := advance (boundary_search info)\<rparr>
                            else if \<not> isspace_u8 val then info\<lparr>boundary_search := Null\<rparr> else info)
             else if ch = 0 then
               (if isspace_u8 val \<or> val = 0x22 then
                  (if boundary_len info = 0 then Some (False, info)
                   else map_option (Pair True) (put_boundary (boundary_len info) 0 info))
                else if boundary_len info < int MAX_MIME_BOUNDARY_LEN + 1 then
                  map_option (Pair False)
                    (put_boundary (boundary_len info) val (info\<lparr>boundary_len := boundary_len info + 1\<rparr>))
                else map_option (Pair True) (put_boundary (boundary_len info - 1) 0 info))
             else if val = ch \<or> val = ch - 0x61 + 0x41 then
               Some (False, info\<lparr>boundary_search := advance (boundary_search info)\<rparr>)
             else
               Some (False, if val = 0x2e \<or> isspace_u8 val then info\<lparr>boundary_search := Keyword 0\<rparr>
                            else info\<lparr>boundary_search := Null\<rparr>)))"

definition check_boundary :: "mime_paf_info \<Rightarrow> u8 \<Rightarrow> (bool \<times> mime_paf_info) option" where
  "check_boundary info data =
     (case boundary_state info of
        BOUNDARY_UNKNOWN \<Rightarrow> Some (False, if data = 0x2d then info\<lparr>boundary_state := HYPEN_FIRST\<rparr> else info)
      | HYPEN_FIRST \<Rightarrow>
          Some (False, if data = 0x2d then info\<lparr>boundary_state := HYPEN_SECOND, boundary_search := Stored 0\<rparr>
                       else info\<lparr>boundary_state := BOUNDARY_UNKNOWN\<rparr>)
      | HYPEN_SECOND \<Rightarrow>
          (case deref info (boundary_search info) of
             None \<Rightarrow> None
           | Some ch \<Rightarrow>
               if ch = 0 then
                 (if data = 0x0a then Some (True, info\<lparr>boundary_state := BOUNDARY_UNKNOWN\<rparr>)
                  else Some (False, if data \<noteq> 0x0d \<and> data \<noteq> 0x2d then info\<lparr>boundary_state := BOUNDARY_UNKNOWN\<rparr> else info))
               else if ch = data then Some (False, info\<lparr>boundary_search := advance (boundary_search info)\<rparr>)
               else if data = 0x2d then Some (False, info\<lparr>boundary_state := HYPEN_FIRST\<rparr>)
               else Some (False, info\<lparr>boundary_state := BOUNDARY_UNKNOWN\<rparr>)))"

definition reset_mime_paf_state :: "mime_paf_info \<Rightarrow> mime_paf_info" where
  "reset_mime_paf_state info =
     info\<lparr>boundary_search := Null, boundary_len := 0, boundary := (boundary info)[0 := 0],
          boundary_state := BOUNDARY_UNKNOWN, data_state := FINDING_BOUNDARY\<rparr>"

definition process_mime_paf_data :: "mime_paf_info \<Rightarrow> u8 \<Rightarrow> (bool \<times> mime_paf_info) option" where
  "process_mime_paf_data info data =
     (case data_state info of
        FINDING_BOUNDARY \<Rightarrow>
          (case store_boundary info data of
             None \<Rightarrow> None
           | Some (found, info') \<Rightarrow> Some (False, if found then info'\<lparr>data_state := FOUND_BOUNDARY\<rparr> else info'))
      | FOUND_BOUNDARY \<Rightarrow> check_boundary info data)"

definition check_data_end :: "data_end_state \<Rightarrow> u8 \<Rightarrow> bool \<times> data_end_state" where
  "check_data_end state val =
     (case state of
        END_UNKNOWN \<Rightarrow> (False, if val = 0x0a then END_FIRST_LF else state)
      | END_FIRST_LF \<Rightarrow>
          (False, if val = 0x2e then END_DOT else if val \<noteq> 0x0d \<and> val \<noteq> 0x0a then END_UNKNOWN else state)
      | END_DOT \<Rightarrow>
          if val = 0x0a then (True, END_UNKNOWN) else (False, if val \<noteq> 0x0d then END_UNKNOWN else state)
      | _ \<Rightarrow> (False, END_UNKNOWN))"

section \<open>Streams\<close>

fun mime_run :: "mime_paf_info \<Rightarrow> bytes \<Rightarrow> (bool list \<times> mime_paf_info) option" where
  "mime_run info [] = Some ([], info)"
| "mime_run info (c # cs) =
     (case process_mime_paf_data info c of
        None \<Rightarrow> None
      | Some (r, info') \<Rightarrow> (case mime_run info' cs of None \<Rightarrow> None | Some (rs, info'') \<Rightarrow> Some (r # rs, info'')))"

lemma mime_run_append:
  "mime_run info (xs @ ys) =
     (case mime_run info xs of
        None \<Rightarrow> None
      | Some (rs, info') \<Rightarrow> (case mime_run info' ys of None \<Rightarrow> None | Some (ss, info'') \<Rightarrow> Some (rs @ ss, info'')))"
  by (induction xs arbitrary: info) (auto split: option.splits prod.splits)

section \<open>Invariant\<close>

text \<open>The boundary as the machine compares it: up to the first null byte.\<close>

definition mime_boundary :: "mime_paf_info \<Rightarrow> bytes" where
  "mime_boundary info = takeWhile (\<lambda>c. c \<noteq> 0) (boundary info)"

definition mime_ok :: "mime_paf_info \<Rightarrow> bool" where
  "mime_ok info \<longleftrightarrow>
     length (boundary info) = MAX_MIME_BOUNDARY_LEN + 1 \<and>
     (case data_state info of
        FINDING_BOUNDARY \<Rightarrow>
          0 \<le> boundary_len info \<and> boundary_len info \<le> int MAX_MIME_BOUNDARY_LEN + 1 \<and>
          0x0a \<notin> set (take (nat (boundary_len info)) (boundary info)) \<and>
          boundary_state info = BOUNDARY_UNKNOWN \<and>
          (boundary_search info = Null \<or> (\<exists>i\<le>length boundary_str. boundary_search info = Keyword i)) \<and>
          (boundary_len info \<noteq> 0 \<longrightarrow> boundary_search info = Keyword (length boundary_str))
      | FOUND_BOUNDARY \<Rightarrow>
          0 \<in> set (boundary info) \<and> 0x0a \<notin> set (mime_boundary info) \<and>
          (boundary_state info = HYPEN_SECOND \<longrightarrow> (\<exists>i\<le>length (mime_boundary info). boundary_search info = Stored i)))"

lemma stored_byte:
  assumes "0 \<in> set (boundary info)" and "i \<le> length (mime_boundary info)"
  shows "deref info (Stored i) = Some (if i = length (mime_boundary info) then 0 else mime_boundary info ! i)"
proof -
  let ?b = "boundary info" and ?P = "\<lambda>c. c \<noteq> (0 :: u8)"
  have "takeWhile ?P ?b \<noteq> ?b" using assms(1) by (auto simp: takeWhile_eq_all_conv)
  then have l: "length (mime_boundary info) < length ?b"
    unfolding mime_boundary_def by (metis not_le takeWhile_eq_take take_all)
  then have "?b ! length (mime_boundary info) = 0"
    using nth_length_takeWhile [of ?P ?b] by (simp add: mime_boundary_def)
  moreover have "?b ! i = mime_boundary info ! i" if "i < length (mime_boundary info)"
    using that by (simp add: mime_boundary_def takeWhile_nth)
  ultimately show ?thesis using assms(2) l by (auto simp: deref_def)
qed

lemma boundary_byte:
  assumes "i < length (mime_boundary info)"
  shows "mime_boundary info ! i \<noteq> 0"
  using set_takeWhileD [OF nth_mem [OF assms, unfolded mime_boundary_def]] unfolding mime_boundary_def by blast

lemma check_boundary_ok:
  assumes "mime_ok info" and "data_state info = FOUND_BOUNDARY"
  shows "\<exists>r info'. check_boundary info c = Some (r, info') \<and> mime_ok info' \<and> data_state info' = FOUND_BOUNDARY \<and>
    boundary info' = boundary info \<and> (c = 0x0a \<longrightarrow> boundary_state info' = BOUNDARY_UNKNOWN)"
proof (cases "boundary_state info")
  case HYPEN_SECOND
  with assms obtain i where i: "boundary_search info = Stored i" "i \<le> length (mime_boundary info)"
    by (auto simp: mime_ok_def)
  have z: "0 \<in> set (boundary info)" "0x0a \<notin> set (mime_boundary info)" using assms by (simp_all add: mime_ok_def)
  show ?thesis
  proof (cases "i = length (mime_boundary info)")
    case True
    with HYPEN_SECOND i assms stored_byte [OF z(1) i(2)] show ?thesis
      by (auto simp: check_boundary_def mime_ok_def mime_boundary_def)
  next
    case False
    with i have lt: "i < length (mime_boundary info)" by simp
    then have "mime_boundary info ! i \<noteq> 0x0a" using z(2) by (metis nth_mem)
    with False HYPEN_SECOND i assms stored_byte [OF z(1) i(2)] boundary_byte [OF lt] lt show ?thesis
      by (auto simp: check_boundary_def mime_ok_def mime_boundary_def)
  qed
qed (use assms in \<open>auto simp: check_boundary_def mime_ok_def mime_boundary_def\<close>)

lemma terminated_prefix:
  assumes "n < length xs" and "xs ! n = (0 :: u8)"
  shows "set (takeWhile (\<lambda>c. c \<noteq> 0) xs) \<subseteq> set (take n xs)"
proof -
  let ?w = "takeWhile (\<lambda>c. c \<noteq> 0) xs"
  have "length ?w \<le> n"
  proof (rule ccontr)
    assume "\<not> length ?w \<le> n"
    then have "?w ! n \<in> set ?w" "?w ! n = xs ! n" by (auto intro: takeWhile_nth)
    then show False using assms(2) set_takeWhileD [of "xs ! n"] by force
  qed
  then have "set (take (length ?w) xs) \<subseteq> set (take n xs)" by (rule set_take_subset_set_take)
  then show ?thesis unfolding takeWhile_eq_take [symmetric] .
qed

lemma store_found:
  assumes "mime_ok info" and "data_state info = FINDING_BOUNDARY" and "0 \<le> n" and "n \<le> boundary_len info"
    and "put_boundary n 0 info = Some info'"
  shows "mime_ok (info'\<lparr>data_state := FOUND_BOUNDARY\<rparr>)"
proof -
  from assms(3-5) have n: "nat n < length (boundary info)" and info': "info' = info\<lparr>boundary := (boundary info)[nat n := 0]\<rparr>"
    by (auto simp: put_boundary_def split: if_splits)
  let ?b = "(boundary info)[nat n := 0]"
  have "0 \<in> set ?b" using n by (simp add: set_update_memI)
  moreover have "set (takeWhile (\<lambda>c. c \<noteq> 0) ?b) \<subseteq> set (take (nat (boundary_len info)) (boundary info))"
  proof -
    have "set (takeWhile (\<lambda>c. c \<noteq> 0) ?b) \<subseteq> set (take (nat n) ?b)" using n by (intro terminated_prefix) simp_all
    also have "\<dots> = set (take (nat n) (boundary info))" by simp
    also have "\<dots> \<subseteq> set (take (nat (boundary_len info)) (boundary info))"
      using assms(4) by (intro set_take_subset_set_take) (rule nat_mono)
    finally show ?thesis .
  qed
  ultimately show ?thesis using assms(1,2) info' by (auto simp: mime_ok_def mime_boundary_def)
qed

lemma store_byte:
  assumes "mime_ok info" and "data_state info = FINDING_BOUNDARY" and "c \<noteq> 0x0a"
    and "put_boundary (boundary_len info) c (info\<lparr>boundary_len := boundary_len info + 1\<rparr>) = Some info'"
    and "boundary_search info = Keyword (length boundary_str)"
  shows "mime_ok info'"
proof -
  let ?n = "nat (boundary_len info)" and ?b = "boundary info"
  from assms(4) have n: "0 \<le> boundary_len info" "?n < length ?b"
    and info': "info' = info\<lparr>boundary_len := boundary_len info + 1, boundary := ?b[?n := c]\<rparr>"
    by (auto simp: put_boundary_def split: if_splits)
  have "take (nat (boundary_len info + 1)) (?b[?n := c]) = take ?n ?b @ [c]"
    using n by (simp add: nat_add_distrib take_Suc_conv_app_nth)
  with n assms(1-3,5) show ?thesis by (auto simp: info' mime_ok_def)
qed

lemma isspace_newline [simp]: "isspace_u8 0x0a"
  by (simp add: isspace_u8_def)

lemma keyword_byte:
  assumes "mime_ok info" and "data_state info = FINDING_BOUNDARY" and "boundary_search info \<noteq> Null"
  shows "\<exists>i\<le>9. boundary_search info = Keyword i \<and>
    deref info (boundary_search info) = Some (if i = 9 then 0 else boundary_str ! i) \<and>
    (i < 8 \<longrightarrow> boundary_str ! i \<noteq> 0 \<and> boundary_str ! i \<noteq> 0x3d)"
proof -
  from assms obtain i where i: "i \<le> 9" "boundary_search info = Keyword i"
    by (auto simp: mime_ok_def boundary_str_def)
  then have "i \<in> {0, 1, 2, 3, 4, 5, 6, 7, 8, 9}" by auto
  with i show ?thesis by (intro exI [of _ i]) (auto simp: deref_def boundary_str_def)
qed

text \<open>The only step that leaves the array: the byte that ends a boundary of 71 bytes.\<close>

definition overruns :: "mime_paf_info \<Rightarrow> u8 \<Rightarrow> bool" where
  "overruns info c \<longleftrightarrow>
     data_state info = FINDING_BOUNDARY \<and> boundary_search info = Keyword 9 \<and>
     boundary_len info = int MAX_MIME_BOUNDARY_LEN + 1 \<and> (isspace_u8 c \<or> c = 0x22)"

lemma store_boundary_ok:
  assumes "mime_ok info" and "data_state info = FINDING_BOUNDARY" and "\<not> overruns info c"
  shows "\<exists>r info'. store_boundary info c = Some (r, info') \<and>
    mime_ok (if r then info'\<lparr>data_state := FOUND_BOUNDARY\<rparr> else info') \<and>
    (\<not> r \<longrightarrow> data_state info' = FINDING_BOUNDARY)"
proof (cases "boundary_search info = Null")
  case True
  with assms show ?thesis by (auto simp: store_boundary_def mime_ok_def)
next
  case False
  from keyword_byte [OF assms(1,2) False] obtain i where i: "i \<le> 9" "boundary_search info = Keyword i"
    "deref info (boundary_search info) = Some (if i = 9 then 0 else boundary_str ! i)"
    "i < 8 \<longrightarrow> boundary_str ! i \<noteq> 0 \<and> boundary_str ! i \<noteq> 0x3d" by blast
  have len: "0 \<le> boundary_len info" "boundary_len info \<le> 71" "length (boundary info) = 71"
    using assms(1,2) by (auto simp: mime_ok_def MAX_MIME_BOUNDARY_LEN_def)
  consider (key) "i < 8" | (eq) "i = 8" | (val) "i = 9" using i(1) by linarith
  then show ?thesis
  proof cases
    case key
    with assms i show ?thesis by (auto simp: store_boundary_def mime_ok_def boundary_str_def)
  next
    case eq
    with assms i show ?thesis by (auto simp: store_boundary_def mime_ok_def boundary_str_def)
  next
    case val
    have put: "\<exists>info'. put_boundary n v info = Some info'" if "0 \<le> n" "n < 71" for n v
      using that len(3) by (simp add: put_boundary_def)
    consider (empty) "isspace_u8 c \<or> c = 0x22" "boundary_len info = 0"
      | (ends) "isspace_u8 c \<or> c = 0x22" "boundary_len info \<noteq> 0"
      | (more) "\<not> (isspace_u8 c \<or> c = 0x22)" "boundary_len info < 71"
      | (full) "\<not> (isspace_u8 c \<or> c = 0x22)" "boundary_len info = 71" using len(2) by linarith
    then show ?thesis
    proof cases
      case empty
      with assms i val show ?thesis by (auto simp: store_boundary_def)
    next
      case ends
      then have "boundary_len info < 71" using assms(2,3) i val len(2) by (auto simp: overruns_def MAX_MIME_BOUNDARY_LEN_def)
      with put [of "boundary_len info" 0] len(1) obtain info' where p: "put_boundary (boundary_len info) 0 info = Some info'" by auto
      from store_found [OF assms(1,2) len(1) order_refl p] p ends i val show ?thesis by (auto simp: store_boundary_def)
    next
      case more
      then have "c \<noteq> 0x0a" by auto
      from more len obtain info' where
        p: "put_boundary (boundary_len info) c (info\<lparr>boundary_len := boundary_len info + 1\<rparr>) = Some info'"
        by (auto simp: put_boundary_def)
      then have "data_state info' = data_state info" by (auto simp: put_boundary_def split: if_splits)
      moreover have "boundary_search info = Keyword (length boundary_str)" using i(2) val by (simp add: boundary_str_def)
      ultimately show ?thesis using store_byte [OF assms(1,2) \<open>c \<noteq> 0x0a\<close> p] p more i val assms(2)
        by (auto simp: store_boundary_def MAX_MIME_BOUNDARY_LEN_def)
    next
      case full
      with put [of 70 0] obtain info' where p: "put_boundary (boundary_len info - 1) 0 info = Some info'" by auto
      from store_found [OF assms(1,2) _ _ p] p full i val show ?thesis
        by (auto simp: store_boundary_def MAX_MIME_BOUNDARY_LEN_def)
    qed
  qed
qed

text \<open>How much of a boundary has been collected, counted until it is complete.\<close>

definition collected_at_most :: "int \<Rightarrow> mime_paf_info \<Rightarrow> bool" where
  "collected_at_most k info \<longleftrightarrow> data_state info = FOUND_BOUNDARY \<or> boundary_len info \<le> k"

lemma collected_no_overrun: "collected_at_most k info \<Longrightarrow> k < 71 \<Longrightarrow> \<not> overruns info c"
  by (auto simp: collected_at_most_def overruns_def MAX_MIME_BOUNDARY_LEN_def)

lemma process_stays_found:
  "process_mime_paf_data info c = Some (r, info') \<Longrightarrow> data_state info = FOUND_BOUNDARY \<Longrightarrow> data_state info' = FOUND_BOUNDARY"
  by (auto simp: process_mime_paf_data_def check_boundary_def split: if_splits option.splits mime_boundary_state.splits)

lemma process_collects:
  assumes "process_mime_paf_data info c = Some (r, info')" and "collected_at_most k info" and "0 \<le> k"
  shows "collected_at_most (k + 1) info'"
proof (cases "data_state info")
  case FINDING_BOUNDARY
  then have "boundary_len info' \<le> boundary_len info + 1 \<or> data_state info' = FOUND_BOUNDARY"
    using assms(1)
    by (auto simp: process_mime_paf_data_def store_boundary_def put_boundary_def split: if_splits option.splits prod.splits)
  then show ?thesis using FINDING_BOUNDARY assms(2) by (auto simp: collected_at_most_def)
next
  case FOUND_BOUNDARY
  with process_stays_found assms(1) show ?thesis by (simp add: collected_at_most_def)
qed

lemma process_report:
  "process_mime_paf_data info c = Some (True, info') \<Longrightarrow> c = 0x0a"
  by (auto simp: process_mime_paf_data_def check_boundary_def
    split: if_splits option.splits prod.splits mime_data_state.splits mime_boundary_state.splits)

lemma process_space:
  assumes "process_mime_paf_data info c = Some (r, info')" and "mime_ok info" and "isspace_u8 c"
  shows "collected_at_most 0 info'"
proof (cases "data_state info")
  case FINDING_BOUNDARY
  show ?thesis
  proof (cases "boundary_len info = 0")
    case True
    with FINDING_BOUNDARY assms(1,3) show ?thesis
      by (auto simp: collected_at_most_def process_mime_paf_data_def store_boundary_def put_boundary_def
        split: if_splits option.splits prod.splits)
  next
    case False
    then have "boundary_search info = Keyword (length boundary_str)" using assms(2) FINDING_BOUNDARY by (auto simp: mime_ok_def)
    with False FINDING_BOUNDARY assms(1,3) show ?thesis
      by (auto simp: collected_at_most_def process_mime_paf_data_def store_boundary_def put_boundary_def deref_def boundary_str_def
        split: if_splits option.splits prod.splits)
  qed
next
  case FOUND_BOUNDARY
  with process_stays_found assms(1) show ?thesis by (simp add: collected_at_most_def)
qed

lemma process_ok:
  assumes "mime_ok info" and "\<not> overruns info c"
  shows "\<exists>r info'. process_mime_paf_data info c = Some (r, info') \<and> mime_ok info' \<and>
    (data_state info = FOUND_BOUNDARY \<longrightarrow>
       data_state info' = FOUND_BOUNDARY \<and> boundary info' = boundary info \<and> (c = 0x0a \<longrightarrow> boundary_state info' = BOUNDARY_UNKNOWN))"
proof (cases "data_state info")
  case FINDING_BOUNDARY
  from store_boundary_ok [OF assms(1) this assms(2)] obtain r info' where
    "store_boundary info c = Some (r, info')" "mime_ok (if r then info'\<lparr>data_state := FOUND_BOUNDARY\<rparr> else info')" by blast
  with FINDING_BOUNDARY show ?thesis by (auto simp: process_mime_paf_data_def)
next
  case FOUND_BOUNDARY
  with check_boundary_ok [OF assms(1), of c] show ?thesis by (auto simp: process_mime_paf_data_def)
qed

lemma reset_mime_ok:
  "length (boundary info) = MAX_MIME_BOUNDARY_LEN + 1 \<Longrightarrow> mime_ok (reset_mime_paf_state info)"
  by (simp add: mime_ok_def reset_mime_paf_state_def)

lemma length_boundary_reset [simp]: "length (boundary (reset_mime_paf_state info)) = length (boundary info)"
  by (simp add: reset_mime_paf_state_def)

lemma process_some_ok:
  assumes "mime_ok info" and "process_mime_paf_data info c = Some (r, info')"
  shows "mime_ok info'"
proof (cases "overruns info c")
  case False
  from process_ok [OF assms(1) this] assms(2) show ?thesis by auto
next
  case True
  then have "process_mime_paf_data info c = None" using assms(1)
    by (auto simp: overruns_def process_mime_paf_data_def store_boundary_def deref_def boundary_str_def put_boundary_def
      mime_ok_def MAX_MIME_BOUNDARY_LEN_def)
  with assms(2) show ?thesis by simp
qed

lemma mime_ok_length: "mime_ok info \<Longrightarrow> length (boundary info) = Suc MAX_MIME_BOUNDARY_LEN"
  by (simp add: mime_ok_def)

section \<open>Delimiter lines\<close>

lemma boundary_run:
  assumes "data_state info = FOUND_BOUNDARY" and "0 \<in> set (boundary info)" and "boundary_state info = HYPEN_SECOND"
    and "boundary_search info = Stored i" and "i \<le> length (mime_boundary info)"
  shows "mime_run info (drop i (mime_boundary info)) =
    Some (replicate (length (mime_boundary info) - i) False, info\<lparr>boundary_search := Stored (length (mime_boundary info))\<rparr>)"
  using assms
proof (induction "length (mime_boundary info) - i" arbitrary: i info)
  case 0
  then show ?case by simp
next
  case (Suc n)
  let ?m = "mime_boundary info" and ?i = "info\<lparr>boundary_search := Stored (Suc i)\<rparr>"
  from Suc.hyps(2) have i: "i < length ?m" by simp
  have m: "mime_boundary ?i = ?m" by (simp add: mime_boundary_def)
  have step: "process_mime_paf_data info (?m ! i) = Some (False, ?i)"
    using Suc.prems i stored_byte [of info i] boundary_byte [OF i] by (simp add: process_mime_paf_data_def check_boundary_def)
  have "mime_run ?i (drop (Suc i) ?m) = Some (replicate (length ?m - Suc i) False, ?i\<lparr>boundary_search := Stored (length ?m)\<rparr>)"
    using Suc.hyps(1) [of ?i "Suc i"] Suc.hyps(2) Suc.prems i unfolding m by simp
  moreover have "length ?m - i = Suc (length ?m - Suc i)" using i by simp
  ultimately show ?case using step by (simp add: Cons_nth_drop_Suc [OF i, symmetric])
qed

lemma padding_run:
  assumes "data_state info = FOUND_BOUNDARY" and "0 \<in> set (boundary info)" and "boundary_state info = HYPEN_SECOND"
    and "boundary_search info = Stored (length (mime_boundary info))" and "set t \<subseteq> {0x0d, 0x2d}"
  shows "mime_run info (t @ [0x0a]) = Some (replicate (length t) False @ [True], info\<lparr>boundary_state := BOUNDARY_UNKNOWN\<rparr>)"
  using assms(5)
  by (induction t) (use assms(1-4) stored_byte [OF assms(2) order_refl] in
    \<open>auto simp: process_mime_paf_data_def check_boundary_def\<close>)

text \<open>The delimiter line: a line break, two hyphens, the boundary, and hyphens or carriage returns.\<close>

definition delimiter :: "bytes \<Rightarrow> bytes \<Rightarrow> bytes" where
  "delimiter b t = [0x0a, 0x2d, 0x2d] @ b @ t @ [0x0a]"

lemma delimiter_run:
  assumes "mime_ok info" and "data_state info = FOUND_BOUNDARY" and "set t \<subseteq> {0x0d, 0x2d}"
  shows "\<exists>r info'. mime_run info (delimiter (mime_boundary info) t) =
      Some (r # replicate (2 + length (mime_boundary info) + length t) False @ [True], info') \<and>
    mime_ok info' \<and> data_state info' = FOUND_BOUNDARY \<and> mime_boundary info' = mime_boundary info"
proof -
  let ?m = "mime_boundary info"
  have "\<not> overruns info 0x0a" using assms(2) by (simp add: overruns_def)
  from process_ok [OF assms(1) this] assms(2) obtain r i1 where
    i1: "process_mime_paf_data info 0x0a = Some (r, i1)" "mime_ok i1" "data_state i1 = FOUND_BOUNDARY"
      "boundary i1 = boundary info" "boundary_state i1 = BOUNDARY_UNKNOWN" by blast
  let ?i2 = "i1\<lparr>boundary_state := HYPEN_SECOND, boundary_search := Stored 0\<rparr>"
  let ?i3 = "?i2\<lparr>boundary_search := Stored (length ?m)\<rparr>" let ?i4 = "?i3\<lparr>boundary_state := BOUNDARY_UNKNOWN\<rparr>"
  have z: "0 \<in> set (boundary i1)" using i1 by (simp add: mime_ok_def)
  have m: "mime_boundary i1 = ?m" "mime_boundary ?i2 = ?m" "mime_boundary ?i3 = ?m" "mime_boundary ?i4 = ?m"
    using i1(4) by (simp_all add: mime_boundary_def)
  have "mime_run i1 [0x2d, 0x2d] = Some ([False, False], ?i2)"
    using i1 by (simp add: process_mime_paf_data_def check_boundary_def)
  moreover have "mime_run ?i2 ?m = Some (replicate (length ?m) False, ?i3)"
    using boundary_run [of ?i2 0, unfolded m] i1(3) z by simp
  moreover have "mime_run ?i3 (t @ [0x0a]) = Some (replicate (length t) False @ [True], ?i4)"
    using padding_run [of ?i3 t, unfolded m] i1(3) z assms(3) by simp
  ultimately have "mime_run info ([0x0a] @ [0x2d, 0x2d] @ ?m @ t @ [0x0a]) =
      Some (r # [False, False] @ replicate (length ?m) False @ replicate (length t) False @ [True], ?i4)"
    using i1(1) by (simp only: mime_run_append option.case prod.case) (simp add: mime_run_append)
  moreover have "mime_ok ?i4" using i1 by (simp add: mime_ok_def mime_boundary_def)
  moreover have "[False, False] @ replicate (length ?m) False @ replicate (length t) False @ [True] =
    replicate (2 + length ?m + length t) False @ [True]" by (simp add: replicate_add numeral_2_eq_2)
  ultimately show ?thesis using i1(3) m(4) by (auto simp: delimiter_def)
qed

section \<open>Learning the boundary\<close>

definition boundary_word :: "bytes \<Rightarrow> bool" where
  "boundary_word b \<longleftrightarrow> b \<noteq> [] \<and> length b \<le> MAX_MIME_BOUNDARY_LEN \<and> (\<forall>c\<in>set b. \<not> isspace_u8 c \<and> c \<noteq> 0x22 \<and> c \<noteq> 0)"

lemma tolower_match: "tolower_u8 c = k \<Longrightarrow> c = k \<or> c = k - 0x61 + 0x41"
  by (auto simp: tolower_u8_def split: if_splits)

lemma keyword_run:
  assumes "data_state info = FINDING_BOUNDARY" and "boundary_search info = Keyword i" and "i \<le> 8"
    and "map tolower_u8 ks = drop i (take 8 boundary_str)"
  shows "mime_run info ks = Some (replicate (length ks) False, info\<lparr>boundary_search := Keyword 8\<rparr>)"
  using assms
proof (induction ks arbitrary: i info)
  case Nil
  then have "i = 8" by (simp add: boundary_str_def)
  with Nil show ?case by simp
next
  case (Cons c ks)
  let ?t = "take 8 boundary_str" and ?i = "info\<lparr>boundary_search := Keyword (Suc i)\<rparr>"
  have i: "i < 8" using Cons.prems(3,4) by (cases "i = 8") (auto simp: boundary_str_def)
  moreover have "length ?t = 8" by (simp add: boundary_str_def)
  ultimately have d: "drop i ?t = boundary_str ! i # drop (Suc i) ?t"
    by (metis Cons_nth_drop_Suc nth_take)
  with Cons.prems have c: "tolower_u8 c = boundary_str ! i" "map tolower_u8 ks = drop (Suc i) ?t" by simp_all
  have "i \<in> {0, 1, 2, 3, 4, 5, 6, 7}" using i by auto
  then have "boundary_str ! i \<noteq> 0x3d" "boundary_str ! i \<noteq> 0" by (auto simp: boundary_str_def)
  moreover have "i < length boundary_str" using i by (simp add: boundary_str_def)
  ultimately have step: "process_mime_paf_data info c = Some (False, ?i)"
    using Cons.prems(1,2) tolower_match [OF c(1)] by (auto simp: process_mime_paf_data_def store_boundary_def deref_def)
  have "mime_run ?i ks = Some (replicate (length ks) False, ?i\<lparr>boundary_search := Keyword 8\<rparr>)"
    using Cons.IH [of ?i "Suc i"] Cons.prems(1) i c(2) by simp
  with step show ?case by simp
qed

lemma collect_run:
  assumes "data_state info = FINDING_BOUNDARY" and "boundary_search info = Keyword 9" and "boundary_len info = int n"
    and "n + length b \<le> MAX_MIME_BOUNDARY_LEN" and "\<forall>c\<in>set b. \<not> isspace_u8 c \<and> c \<noteq> 0x22"
    and "length (boundary info) = MAX_MIME_BOUNDARY_LEN + 1"
  shows "\<exists>bs. mime_run info b =
      Some (replicate (length b) False, info\<lparr>boundary_len := int (n + length b), boundary := bs\<rparr>) \<and>
    length bs = MAX_MIME_BOUNDARY_LEN + 1 \<and> take (n + length b) bs = take n (boundary info) @ b"
  using assms
proof (induction b arbitrary: n info)
  case Nil
  then show ?case by (intro exI [of _ "boundary info"]) simp
next
  case (Cons c b)
  let ?i = "info\<lparr>boundary_len := int n + 1, boundary := (boundary info)[n := c]\<rparr>"
  have step: "process_mime_paf_data info c = Some (False, ?i)"
    using Cons.prems
    by (simp add: process_mime_paf_data_def store_boundary_def deref_def boundary_str_def put_boundary_def MAX_MIME_BOUNDARY_LEN_def)
  from Cons.IH [of ?i "Suc n"] Cons.prems obtain bs where
    bs: "mime_run ?i b = Some (replicate (length b) False, ?i\<lparr>boundary_len := int (Suc n + length b), boundary := bs\<rparr>)"
      "length bs = MAX_MIME_BOUNDARY_LEN + 1" "take (Suc n + length b) bs = take (Suc n) ((boundary info)[n := c]) @ b" by auto
  moreover have "take (Suc n) ((boundary info)[n := c]) = take n (boundary info) @ [c]"
    using Cons.prems by (simp add: take_Suc_conv_app_nth)
  ultimately show ?case using step by (intro exI [of _ bs]) simp
qed

text \<open>A header line that names the boundary, in upper or lower case, behind a blank.\<close>

definition boundary_header :: "bytes \<Rightarrow> bytes \<Rightarrow> bytes" where
  "boundary_header kw b = [0x20] @ kw @ [0x3d] @ b @ [0x0a]"

lemma header_run:
  assumes "data_state info = FINDING_BOUNDARY" and "boundary_search info = Null" and "boundary_len info = 0"
    and "boundary_state info = BOUNDARY_UNKNOWN" and "length (boundary info) = MAX_MIME_BOUNDARY_LEN + 1"
    and "map tolower_u8 kw = take 8 boundary_str" and "boundary_word b"
  shows "\<exists>info'. mime_run info (boundary_header kw b) = Some (replicate (length kw + length b + 3) False, info') \<and>
    mime_ok info' \<and> data_state info' = FOUND_BOUNDARY \<and> mime_boundary info' = b"
proof -
  let ?i1 = "info\<lparr>boundary_search := Keyword 0\<rparr>" let ?i2 = "info\<lparr>boundary_search := Keyword 8\<rparr>"
  let ?i3 = "info\<lparr>boundary_search := Keyword 9\<rparr>" let ?n = "length b"
  have b: "b \<noteq> []" "?n \<le> MAX_MIME_BOUNDARY_LEN" "\<forall>c\<in>set b. \<not> isspace_u8 c \<and> c \<noteq> 0x22" "0 \<notin> set b" "0x0a \<notin> set b"
    using assms(7) unfolding boundary_word_def by auto
  have r1: "mime_run info [0x20] = Some ([False], ?i1)"
    using assms(1,2) by (simp add: process_mime_paf_data_def store_boundary_def isspace_u8_def)
  have r2: "mime_run ?i1 kw = Some (replicate (length kw) False, ?i2)"
    using keyword_run [of ?i1 0 kw] assms(1,6) by simp
  have r3: "mime_run ?i2 [0x3d] = Some ([False], ?i3)"
    using assms(1) by (simp add: process_mime_paf_data_def store_boundary_def deref_def boundary_str_def)
  from collect_run [of ?i3 0 b] assms(1,3,5) b obtain bs where
    r4: "mime_run ?i3 b = Some (replicate ?n False, ?i3\<lparr>boundary_len := int ?n, boundary := bs\<rparr>)"
      "length bs = MAX_MIME_BOUNDARY_LEN + 1" "take ?n bs = b" by auto
  let ?bs = "bs[?n := 0]"
  let ?i5 = "?i3\<lparr>boundary_len := int ?n, boundary := ?bs, data_state := FOUND_BOUNDARY\<rparr>"
  have r5: "mime_run (?i3\<lparr>boundary_len := int ?n, boundary := bs\<rparr>) [0x0a] = Some ([False], ?i5)"
    using assms(1) b(1,2) r4(2)
    by (simp add: process_mime_paf_data_def store_boundary_def deref_def boundary_str_def put_boundary_def)
  have "?bs = b @ 0 # drop (Suc ?n) bs" using r4(2,3) b(2) by (metis id_take_nth_drop upd_conv_take_nth_drop less_Suc_eq_le Suc_eq_plus1)
  moreover have "takeWhile (\<lambda>c. c \<noteq> 0) (b @ 0 # r) = b" for r using b(4) by (subst takeWhile_append2) auto
  ultimately have m: "takeWhile (\<lambda>c. c \<noteq> 0) ?bs = b" and z: "0 \<in> set ?bs" by simp_all
  have "mime_run info ([0x20] @ kw @ [0x3d] @ b @ [0x0a]) =
      Some ([False] @ replicate (length kw) False @ [False] @ replicate ?n False @ [False], ?i5)"
    by (simp only: mime_run_append [of _ "[0x20]"] mime_run_append [of _ kw] mime_run_append [of _ "[0x3d]"] mime_run_append [of _ b]
      r1 r2 r3 r4(1) r5 option.case prod.case)
  moreover have "[False] @ replicate (length kw) False @ [False] @ replicate ?n False @ [False] = replicate (length kw + ?n + 3) False"
    by (rule replicate_eqI) auto
  moreover have "mime_ok ?i5" using r4(2) b(5) m z assms(4) by (simp add: mime_ok_def mime_boundary_def)
  ultimately show ?thesis using m by (auto simp: boundary_header_def mime_boundary_def)
qed

section \<open>Every delimiter line is reported\<close>

lemma mime_run_found:
  assumes "mime_ok info" and "data_state info = FOUND_BOUNDARY"
  shows "\<exists>rs info'. mime_run info cs = Some (rs, info') \<and> length rs = length cs \<and> mime_ok info' \<and>
    data_state info' = FOUND_BOUNDARY \<and> mime_boundary info' = mime_boundary info"
  using assms
proof (induction cs arbitrary: info)
  case (Cons c cs)
  have "\<not> overruns info c" using Cons.prems by (simp add: overruns_def)
  from process_ok [OF Cons.prems(1) this] Cons.prems(2) obtain r i where
    i: "process_mime_paf_data info c = Some (r, i)" "mime_ok i" "data_state i = FOUND_BOUNDARY" "boundary i = boundary info" by blast
  from Cons.IH [OF i(2,3)] i(1,4) show ?case by (auto simp: mime_boundary_def)
qed simp



text \<open>A boundary of 71 bytes makes the machine write its null byte behind the array.\<close>

lemma long_boundary_overruns:
  "mime_run (reset_mime_paf_state \<lparr>data_state = FINDING_BOUNDARY, boundary = replicate 71 0, boundary_len = 0,
      boundary_search = Null, boundary_state = BOUNDARY_UNKNOWN\<rparr>)
    ([0x20] @ boundary_str @ replicate 71 0x41 @ [0x0a]) = None"
  by code_simp

end
