(* ===== verification/Paf.thy ===== *)
theory Paf
  imports Snort_Prelude
begin

text \<open>
  Protocol aware flushing, stream/paf.cc and .h, with the status of a splitter from
  stream/stream_splitter.h: the state per direction, the decision of where to flush, and the check of one
  in-order segment. A splitter is a parameter: its scan function, from its state, the bytes and the packet
  flags to a status, the flush point it has set and the new state, and its limit on queued bytes. Lengths
  and offsets are natural numbers with the 32-bit wrap-around written out; sequence numbers are words. The
  queued total includes the segment. A length that reaches past the segment is None, and so is a loop that
  does not end.
\<close>

unbundle bit_operations_syntax

section \<open>Definitions\<close>

datatype splitter_status = ABORT | START | SEARCH | FLUSH | LIMIT | SKIP | LIMITED

datatype flush_type = FT_NOP | FT_SFP | FT_PAF | FT_LIMIT | FT_MAX

record paf_aux =
  ft :: flush_type
  px_len :: nat
  px_idx :: nat

record paf_state =
  ps_seq :: u32
  ps_pos :: u32
  ps_fpt :: nat
  ps_tot :: nat
  ps_paf :: splitter_status

type_synonym 's scanner = "'s \<Rightarrow> bytes \<Rightarrow> u32 \<Rightarrow> splitter_status \<times> nat option \<times> 's"

definition PAF_LIMIT_FUZZ :: nat where
  "PAF_LIMIT_FUZZ = 1500"

definition MAX_PAF_MAX :: nat where
  "MAX_PAF_MAX = 65535 - PAF_LIMIT_FUZZ - 255"

definition PKT_PDU_HEAD :: u32 where
  "PKT_PDU_HEAD = 0x100"

definition PKT_PDU_TAIL :: u32 where
  "PKT_PDU_TAIL = 0x200"

definition SEQ_LT :: "u32 \<Rightarrow> u32 \<Rightarrow> bool" where
  "SEQ_LT a b \<longleftrightarrow> sint (a - b) < 0"

definition SEQ_LEQ :: "u32 \<Rightarrow> u32 \<Rightarrow> bool" where
  "SEQ_LEQ a b \<longleftrightarrow> sint (a - b) \<le> 0"

definition SEQ_GT :: "u32 \<Rightarrow> u32 \<Rightarrow> bool" where
  "SEQ_GT a b \<longleftrightarrow> sint (a - b) > 0"

definition paf_setup :: "paf_state \<Rightarrow> paf_state" where
  "paf_setup ps = ps\<lparr>ps_paf := START\<rparr>"

definition paf_reset :: "paf_state \<Rightarrow> paf_state" where
  "paf_reset ps = \<lparr>ps_seq = 0, ps_pos = 0, ps_fpt = 0, ps_tot = 0, ps_paf = START\<rparr>"

definition paf_clear :: "paf_state \<Rightarrow> paf_state" where
  "paf_clear ps = ps\<lparr>ps_paf := ABORT\<rparr>"

definition paf_initialized :: "paf_state \<Rightarrow> bool" where
  "paf_initialized ps \<longleftrightarrow> ps_paf ps \<noteq> START"

definition paf_active :: "paf_state \<Rightarrow> bool" where
  "paf_active ps \<longleftrightarrow> ps_paf ps \<noteq> ABORT"

definition paf_jump :: "int \<Rightarrow> paf_state \<Rightarrow> paf_state" where
  "paf_jump n ps = (let pos = ps_pos ps + word_of_int n in ps\<lparr>ps_pos := pos, ps_seq := pos\<rparr>)"

text \<open>What is common to the flushes: the head flag, the running total and the bound on the amount.\<close>

definition flush_amount :: "nat \<Rightarrow> paf_state \<Rightarrow> paf_aux \<Rightarrow> u32 \<Rightarrow> int \<times> paf_state \<times> u32" where
  "flush_amount at ps px flags =
     (if at = 0 \<or> px_len px = 0 then (- 1, ps, flags)
      else
        (let at = (if at > 0x7fffffff then 0x7fffffff else at);
             flags = (if ps_tot ps = 0 then flags OR PKT_PDU_HEAD else flags);
             tot = (if flags AND PKT_PDU_TAIL \<noteq> 0 then 0 else (ps_tot ps + at) mod 2 ^ 32)
         in (int at, ps\<lparr>ps_tot := tot\<rparr>, flags)))"

definition paf_flush :: "paf_state \<Rightarrow> paf_aux \<Rightarrow> u32 \<Rightarrow> int \<times> paf_state \<times> u32" where
  "paf_flush ps px flags =
     (let flags = flags AND NOT (PKT_PDU_HEAD OR PKT_PDU_TAIL); fpt = ps_fpt ps; len = px_len px
      in case ft px of
           FT_NOP \<Rightarrow> (- 1, ps, flags)
         | FT_SFP \<Rightarrow> (- 1, ps, 0)
         | FT_PAF \<Rightarrow> flush_amount fpt ps px (flags OR PKT_PDU_TAIL)
         | FT_LIMIT \<Rightarrow>
             if fpt > len then flush_amount len (ps\<lparr>ps_fpt := fpt - len\<rparr>) px flags
             else flush_amount fpt (ps\<lparr>ps_fpt := len - fpt\<rparr>) px flags
         | FT_MAX \<Rightarrow> flush_amount len (ps\<lparr>ps_fpt := if fpt > len then fpt - len else 0\<rparr>) px flags)"

definition paf_callback ::
  "'s scanner \<Rightarrow> 's \<Rightarrow> paf_state \<Rightarrow> paf_aux \<Rightarrow> bytes \<Rightarrow> u32 \<Rightarrow> bool \<times> 's \<times> paf_state \<times> paf_aux" where
  "paf_callback scan s ps px data flags =
     (let (st, fp, s') = scan s data flags;
          fpt = (case fp of None \<Rightarrow> 0 | Some n \<Rightarrow> n);
          ps = ps\<lparr>ps_fpt := fpt, ps_paf := st\<rparr>
      in if st = ABORT then (False, s', ps, px)
         else if st \<noteq> SEARCH then
           (let fpt = (fpt + px_idx px) mod 2 ^ 32; ps = ps\<lparr>ps_fpt := fpt\<rparr>
            in if fpt \<le> px_len px then (True, s', ps, px\<lparr>px_idx := fpt\<rparr>)
               else (False, s', ps, px\<lparr>px_idx := px_len px\<rparr>))
         else (False, s', ps, px\<lparr>px_idx := px_len px\<rparr>))"

definition paf_eval ::
  "'s scanner \<Rightarrow> nat \<Rightarrow> 's \<Rightarrow> paf_state \<Rightarrow> paf_aux \<Rightarrow> bytes \<Rightarrow> u32 \<Rightarrow> bool \<times> 's \<times> paf_state \<times> paf_aux" where
  "paf_eval scan limit s ps px data flags =
     (case ps_paf ps of
        SEARCH \<Rightarrow> if px_len px > px_idx px then paf_callback scan s ps px data flags else (False, s, ps, px)
      | FLUSH \<Rightarrow>
          if px_len px \<ge> ps_fpt ps then (True, s, ps\<lparr>ps_paf := SEARCH\<rparr>, px\<lparr>ft := FT_PAF\<rparr>)
          else if px_len px \<ge> limit then (False, s, ps, px\<lparr>ft := FT_MAX\<rparr>)
          else (False, s, ps, px)
      | LIMIT \<Rightarrow>
          if px_len px + PAF_LIMIT_FUZZ \<ge> limit then (False, s, ps\<lparr>ps_paf := LIMITED\<rparr>, px\<lparr>ft := FT_LIMIT\<rparr>)
          else (False, s, ps\<lparr>ps_paf := SEARCH\<rparr>, px)
      | SKIP \<Rightarrow>
          if px_len px > ps_fpt ps then
            (let delta = ps_fpt ps - px_idx px
             in if ps_fpt ps > px_idx px \<and> delta > length data then (False, s, ps, px)
                else paf_callback scan s ps (px\<lparr>px_idx := ps_fpt ps\<rparr>)
                       (if ps_fpt ps > px_idx px then drop delta data else data) flags)
          else (False, s, ps, px)
      | LIMITED \<Rightarrow> (True, s, ps\<lparr>ps_paf := SEARCH, ps_fpt := 0\<rparr>, px\<lparr>px_idx := (px_idx px + ps_fpt ps) mod 2 ^ 32\<rparr>)
      | _ \<Rightarrow> (False, s, ps, px\<lparr>ft := FT_SFP\<rparr>))"

partial_function (option) paf_loop ::
  "'s scanner \<Rightarrow> nat \<Rightarrow> 's \<Rightarrow> paf_state \<Rightarrow> paf_aux \<Rightarrow> bytes \<Rightarrow> u32 \<Rightarrow> (int \<times> 's \<times> paf_state \<times> u32) option" where
  "paf_loop scan limit s ps px data flags =
     (case paf_eval scan limit s ps (px\<lparr>ft := FT_NOP\<rparr>) data flags of
        (cont, s', ps', px') \<Rightarrow>
          if ft px' \<noteq> FT_NOP then
            (case paf_flush ps' px' flags of (fp, ps'', flags') \<Rightarrow> Some (fp, s', paf_jump fp ps'', flags'))
          else if cont then
            paf_loop scan limit s' ps' px' (if px_idx px' > px_idx px then drop (px_idx px' - px_idx px) data else data) flags
          else if ps_paf ps' = ABORT then Some (- 1, s', ps', 0)
          else if ps_paf ps' \<noteq> FLUSH \<and> px_len px' > limit then
            (case paf_flush ps' (px'\<lparr>ft := FT_MAX\<rparr>) flags of (fp, ps'', flags') \<Rightarrow> Some (fp, s', paf_jump fp ps'', flags'))
          else Some (- 1, s', ps', flags))"

declare paf_loop.simps [code]

definition paf_check ::
  "'s scanner \<Rightarrow> nat \<Rightarrow> 's \<Rightarrow> paf_state \<Rightarrow> bytes \<Rightarrow> nat \<Rightarrow> u32 \<Rightarrow> u32 \<Rightarrow> (int \<times> 's \<times> paf_state \<times> u32) option" where
  "paf_check scan limit s ps data queued seq flags =
     (let scan_from = (\<lambda>ps data.
            (let len = length data;
                 ps = ps\<lparr>ps_seq := ps_seq ps + of_nat len\<rparr>;
                 cut = (queued \<ge> MAX_PAF_MAX \<and> queued > limit);
                 len' = (if cut then (len + MAX_PAF_MAX - queued) else len)
             in if cut \<and> (len + MAX_PAF_MAX < queued \<or> len' > len) then None
                else paf_loop scan limit s ps
                       \<lparr>ft = FT_NOP, px_len = if cut then MAX_PAF_MAX else queued, px_idx = queued - len\<rparr> (take len' data) flags))
      in if \<not> paf_initialized ps then scan_from (ps\<lparr>ps_seq := seq, ps_pos := seq, ps_paf := SEARCH\<rparr>) data
         else if SEQ_GT seq (ps_seq ps) then
           (if queued - length data \<noteq> 0
            then (case paf_flush (ps\<lparr>ps_fpt := 0\<rparr>) \<lparr>ft = FT_MAX, px_len = queued - length data, px_idx = 0\<rparr> flags of
                    (fp, ps', flags') \<Rightarrow> Some (fp, s, ps', flags'))
            else Some (- 1, s, ps, 0))
         else if SEQ_LEQ (seq + of_nat (length data)) (ps_seq ps) then Some (- 1, s, ps, flags)
         else if SEQ_LT seq (ps_seq ps) then scan_from ps (drop (unat (ps_seq ps - seq)) data)
         else scan_from ps data)"

text \<open>
  The queue of the reassembler, as TcpReassembler::flush_pdu_ips walks it: in-order segments are presented
  one after the other with the number of bytes queued since the last flush; after a flush the rest of the
  segment is the head of the queue. The result lists the amounts that are flushed.
\<close>

partial_function (option) paf_feed ::
  "'s scanner \<Rightarrow> nat \<Rightarrow> u32 \<Rightarrow> 's \<Rightarrow> paf_state \<Rightarrow> u32 \<Rightarrow> nat \<Rightarrow> bytes list \<Rightarrow> (nat list \<times> 's \<times> paf_state) option" where
  "paf_feed scan limit flags s ps seq queued segs =
     (case segs of
        [] \<Rightarrow> Some ([], s, ps)
      | d # ds \<Rightarrow>
          if d = [] then paf_feed scan limit flags s ps seq queued ds
          else
            (case paf_check scan limit s ps d (queued + length d) seq flags of
               None \<Rightarrow> None
             | Some r \<Rightarrow>
                 (case r of
                    (fp, s', ps', flags') \<Rightarrow>
                      if fp \<ge> 0
                      then Option.bind (paf_feed scan limit flags s' ps' (seq + of_nat (nat fp - queued)) 0 (drop (nat fp - queued) d # ds))
                             (\<lambda>rest. Some (nat fp # fst rest, snd rest))
                      else if flags' = 0 then Some ([], s', ps')
                      else paf_feed scan limit flags s' ps' (seq + of_nat (length d)) (queued + length d) ds)))"

declare paf_feed.simps [code]

section \<open>Sequence numbers\<close>

lemma sint_of_small: "n < 2 ^ 31 \<Longrightarrow> sint (of_nat n :: u32) = int n"
  by (simp add: signed_of_nat signed_take_bit_int_eq_self)

lemma seq_same [simp]: "\<not> SEQ_GT seq seq" "\<not> SEQ_LT seq seq"
  by (simp_all add: SEQ_GT_def SEQ_LT_def)

lemma seq_new: "0 < n \<Longrightarrow> n < 2 ^ 31 \<Longrightarrow> \<not> SEQ_LEQ (seq + of_nat n) seq"
  by (simp add: SEQ_LEQ_def sint_of_small)

lemma tail_flag: "((x OR PKT_PDU_TAIL) OR PKT_PDU_HEAD) AND PKT_PDU_TAIL \<noteq> 0"
proof -
  have "bit (((x OR PKT_PDU_TAIL) OR PKT_PDU_HEAD) AND PKT_PDU_TAIL) 9"
    by (simp add: PKT_PDU_TAIL_def bit_simps)
  then show ?thesis by auto
qed

section \<open>Splitters of length-delimited frames\<close>

text \<open>
  The contract of a splitter for a protocol in which a header of fixed size tells the length of the frame.
  R relates the bytes of the header that have been scanned with the state of the splitter. As long as only
  header bytes have come the scan asks for more; as soon as there is a byte behind the header it answers
  with the end of the frame, and is ready for the next one.
\<close>

locale framed_splitter =
  fixes scan :: "'s scanner" and R :: "bytes \<Rightarrow> 's \<Rightarrow> bool" and hdr :: nat and frame :: "bytes \<Rightarrow> bool"
  assumes hdr_less: "frame f \<Longrightarrow> hdr < length f"
    and scan_header: "frame f \<Longrightarrow> R h s \<Longrightarrow> length (h @ d) \<le> hdr \<Longrightarrow> h @ d = take (length (h @ d)) f \<Longrightarrow>
      \<exists>s'. scan s d fl = (SEARCH, None, s') \<and> R (h @ d) s'"
    and scan_flush: "frame f \<Longrightarrow> R h s \<Longrightarrow> length h \<le> hdr \<Longrightarrow> hdr < length (h @ d) \<Longrightarrow> take hdr (h @ d) = take hdr f \<Longrightarrow>
      \<exists>s'. scan s d fl = (FLUSH, Some (length f - length h), s') \<and> R [] s'"
begin

text \<open>Where the driver and the splitter are when the bytes h of the frame f have been scanned.\<close>

definition waiting :: "bytes \<Rightarrow> bytes \<Rightarrow> 's \<Rightarrow> paf_state \<Rightarrow> u32 \<Rightarrow> bool" where
  "waiting f h s ps seq \<longleftrightarrow>
     ps_tot ps = 0 \<and> ps_seq ps = seq \<and> ps_pos ps + of_nat (length h) = seq \<and>
     (length h \<le> hdr \<and> ps_paf ps = SEARCH \<and> R h s \<or>
      hdr < length h \<and> ps_paf ps = FLUSH \<and> ps_fpt ps = length f \<and> R [] s)"

lemma flush_frame:
  assumes "ps_paf ps = FLUSH" and "ps_fpt ps = length f" and "0 < length f" and "length f \<le> px_len px" and "px_len px < MAX_PAF_MAX"
    and "ps_tot ps = 0"
  shows "\<exists>flags'. paf_loop scan limit s ps px d flags =
    Some (int (length f), s,
      ps\<lparr>ps_paf := SEARCH, ps_tot := 0, ps_pos := ps_pos ps + of_nat (length f), ps_seq := ps_pos ps + of_nat (length f)\<rparr>, flags')"
proof -
  have "\<not> length f > 0x7fffffff" using assms(4,5) by (simp add: MAX_PAF_MAX_def PAF_LIMIT_FUZZ_def)
  moreover have "px_len px \<noteq> 0" "length f \<noteq> 0" using assms(3,4) by linarith+
  ultimately obtain flags' where
    "paf_flush (ps\<lparr>ps_paf := SEARCH\<rparr>) (px\<lparr>ft := FT_PAF\<rparr>) flags = (int (length f), ps\<lparr>ps_paf := SEARCH, ps_tot := 0\<rparr>, flags')"
    using assms(2,6) tail_flag by (simp add: paf_flush_def flush_amount_def Let_def)
  moreover have "paf_eval scan limit s ps (px\<lparr>ft := FT_NOP\<rparr>) d flags = (True, s, ps\<lparr>ps_paf := SEARCH\<rparr>, px\<lparr>ft := FT_PAF\<rparr>)"
    using assms(1,2,4) by (simp add: paf_eval_def)
  ultimately show ?thesis by (subst paf_loop.simps) (simp add: paf_jump_def Let_def)
qed

text \<open>One segment: the frame is not complete and nothing is flushed, or it is and exactly it is flushed.\<close>

lemma paf_step:
  assumes "frame f" and "waiting f h s ps seq" and "h = take (length h) f" and "length h < length f" and "d \<noteq> []"
    and "take (length f) (h @ d) = take (length (h @ d)) f" and "length f \<le> limit" and "length (h @ d) < MAX_PAF_MAX" and "limit < 2 ^ 32"
  shows "\<exists>s' ps' flags'. (if length (h @ d) < length f
    then paf_check scan limit s ps d (length (h @ d)) seq flags = Some (- 1, s', ps', flags) \<and>
      waiting f (h @ d) s' ps' (seq + of_nat (length d))
    else paf_check scan limit s ps d (length (h @ d)) seq flags = Some (int (length f), s', ps', flags') \<and>
      waiting g [] s' ps' (seq + of_nat (length f - length h)))"
proof -
  let ?t = "length (h @ d)" let ?ps = "ps\<lparr>ps_seq := seq + of_nat (length d)\<rparr>"
  let ?px = "\<lparr>ft = FT_NOP, px_len = ?t, px_idx = length h\<rparr>"
  have w: "ps_tot ps = 0" "ps_seq ps = seq" "ps_pos ps + of_nat (length h) = seq" using assms(2) by (simp_all add: waiting_def)
  have f: "hdr < length f" using hdr_less [OF assms(1)] .
  have small: "length d < 2 ^ 31" using assms(8) by (simp add: MAX_PAF_MAX_def PAF_LIMIT_FUZZ_def)
  have fpt: "length f mod 2 ^ 32 = length f" using assms(7,9) by simp
  have chk: "paf_check scan limit s ps d ?t seq flags = paf_loop scan limit s ?ps ?px d flags"
    using w(2) assms(2,5,8) seq_new [of "length d" seq] small
    by (auto simp: paf_check_def paf_initialized_def waiting_def Let_def)
  have d: "0 < length d" using assms(5) by simp
  have next_pos: "ps_pos ps + of_nat (length f) = seq + of_nat (length f - length h)"
    unfolding w(3) [symmetric] using assms(4) by (simp add: of_nat_diff)
  from assms(2) consider
    (header) "length h \<le> hdr" "?t \<le> hdr" "ps_paf ps = SEARCH" "R h s"
    | (flush) "length h \<le> hdr" "hdr < ?t" "ps_paf ps = SEARCH" "R h s"
    | (body) "hdr < length h" "ps_paf ps = FLUSH" "ps_fpt ps = length f" "R [] s"
    by (cases "?t \<le> hdr") (auto simp: waiting_def)
  then show ?thesis
  proof cases
    case header
    have "h @ d = take ?t f" using assms(6) header(2) f by simp
    with scan_header [OF assms(1) header(4,2)] obtain s' where s': "scan s d flags = (SEARCH, None, s')" "R (h @ d) s'" by blast
    have "paf_loop scan limit s ?ps ?px d flags = Some (- 1, s', ?ps\<lparr>ps_fpt := 0\<rparr>, flags)"
      using header s'(1) d f assms(7) by (subst paf_loop.simps) (simp add: paf_eval_def paf_callback_def Let_def)
    moreover have "waiting f (h @ d) s' (?ps\<lparr>ps_fpt := 0\<rparr>) (seq + of_nat (length d))"
      using header s'(2) w by (simp add: waiting_def add.assoc [symmetric])
    ultimately show ?thesis using chk header(2) f by auto
  next
    case flush
    have "take hdr (h @ d) = take hdr (take (length f) (h @ d))" using f by (simp only: take_take min_absorb1 less_imp_le)
    then have "take hdr (h @ d) = take hdr f" unfolding assms(6) using flush(2) by (simp only: take_take min_absorb1 less_imp_le)
    from scan_flush [OF assms(1) flush(4,1,2) this] obtain s' where
      s': "scan s d flags = (FLUSH, Some (length f - length h), s')" "R [] s'" by blast
    let ?p1 = "?ps\<lparr>ps_fpt := length f, ps_paf := FLUSH\<rparr>"
    have eval: "paf_eval scan limit s ?ps ?px d flags =
      (if length f \<le> ?t then (True, s', ?p1, ?px\<lparr>px_idx := length f\<rparr>) else (False, s', ?p1, ?px\<lparr>px_idx := ?t\<rparr>))"
      using flush(3) s'(1) d fpt assms(4) by (simp add: paf_eval_def paf_callback_def Let_def)
    show ?thesis
    proof (cases "?t < length f")
      case True
      then have "paf_loop scan limit s ?ps ?px d flags = Some (- 1, s', ?p1, flags)"
        using eval by (subst paf_loop.simps) simp
      moreover have "waiting f (h @ d) s' ?p1 (seq + of_nat (length d))"
        using True flush(2) s'(2) w by (simp add: waiting_def add.assoc [symmetric])
      ultimately show ?thesis using chk True by auto
    next
      case False
      let ?p2 = "?p1\<lparr>ps_paf := SEARCH, ps_tot := 0, ps_pos := ps_pos ps + of_nat (length f), ps_seq := ps_pos ps + of_nat (length f)\<rparr>"
      have "0 < length f" using f by linarith
      with False flush_frame [of ?p1 f "?px\<lparr>px_idx := length f\<rparr>" limit s' "drop (length f - length h) d" flags] w(1) assms(8)
      obtain flags' where "paf_loop scan limit s' ?p1 (?px\<lparr>px_idx := length f\<rparr>) (drop (length f - length h) d) flags =
        Some (int (length f), s', ?p2, flags')" by auto
      moreover have "paf_loop scan limit s ?ps ?px d flags =
        paf_loop scan limit s' ?p1 (?px\<lparr>px_idx := length f\<rparr>) (drop (length f - length h) d) flags"
        using eval False assms(4) by (subst paf_loop.simps) simp
      moreover have "waiting g [] s' ?p2 (seq + of_nat (length f - length h))"
        using s'(2) next_pos by (simp add: waiting_def)
      ultimately show ?thesis using chk False by auto
    qed
  next
    case body
    show ?thesis
    proof (cases "?t < length f")
      case True
      then have "paf_loop scan limit s ?ps ?px d flags = Some (- 1, s, ?ps, flags)"
        using body(2,3) assms(7) by (subst paf_loop.simps) (simp add: paf_eval_def)
      moreover have "waiting f (h @ d) s ?ps (seq + of_nat (length d))"
        using True body w by (simp add: waiting_def add.assoc [symmetric])
      ultimately show ?thesis using chk True by auto
    next
      case False
      let ?p2 = "?ps\<lparr>ps_paf := SEARCH, ps_tot := 0, ps_pos := ps_pos ps + of_nat (length f), ps_seq := ps_pos ps + of_nat (length f)\<rparr>"
      have "0 < length f" using f by linarith
      with False flush_frame [of ?ps f ?px limit s d flags] w(1) assms(8) body(2,3)
      obtain flags' where "paf_loop scan limit s ?ps ?px d flags = Some (int (length f), s, ?p2, flags')" by auto
      moreover have "waiting g [] s ?p2 (seq + of_nat (length f - length h))"
        using body(4) next_pos by (simp add: waiting_def)
      ultimately show ?thesis using chk False by auto
    qed
  qed
qed

lemma feed_frames:
  assumes "\<forall>f\<in>set fs. frame f \<and> length f \<le> limit" and "limit < 2 ^ 32" and "flags \<noteq> 0"
    and "\<forall>d\<in>set segs. length d + limit < MAX_PAF_MAX" and "h @ concat segs = concat fs"
    and "fs \<noteq> [] \<longrightarrow> length h < length (hd fs) \<and> waiting (hd fs) h s ps seq"
  shows "\<exists>s' ps'. paf_feed scan limit flags s ps seq (length h) segs = Some (map length fs, s', ps')"
  using assms(1,4-6)
proof (induction "length (concat segs) + length segs" arbitrary: fs h s ps seq segs rule: less_induct)
  case less
  note IH = less.hyps and frames = less.prems(1) and small = less.prems(2) and eq = less.prems(3) and wait = less.prems(4)
  show ?case
  proof (cases segs)
    case Nil
    have "fs = []"
    proof (rule ccontr)
      assume "fs \<noteq> []"
      then have "length (hd fs) \<le> length (concat fs)" by (cases fs) auto
      with eq Nil wait \<open>fs \<noteq> []\<close> show False by simp
    qed
    with Nil show ?thesis by (simp add: paf_feed.simps)
  next
    case (Cons d ds)
    show ?thesis
    proof (cases "d = []")
      case True
      then have "paf_feed scan limit flags s ps seq (length h) segs = paf_feed scan limit flags s ps seq (length h) ds"
        using Cons by (subst paf_feed.simps) simp
      moreover have "\<exists>s' ps'. paf_feed scan limit flags s ps seq (length h) ds = Some (map length fs, s', ps')"
        using Cons True frames small eq wait by (intro IH) auto
      ultimately show ?thesis by simp
    next
      case ne: False
      have "fs \<noteq> []" using eq Cons ne by auto
      then obtain f gs where fs: "fs = f # gs" by (cases fs) auto
      have f: "frame f" "length f \<le> limit" "length h < length f" "waiting f h s ps seq" using frames wait fs by auto
      have all: "h @ d @ concat ds = f @ concat gs" using eq Cons fs by simp
      then have pre: "h = take (length h) f" using f(3) by (metis append_eq_conv_conj less_imp_le take_append take_all_iff diff_is_0_eq take0 append_Nil2)
      have cut: "take (length f) (h @ d) = take (length (h @ d)) f"
      proof -
        have "take (min (length f) (length (h @ d))) ((h @ d) @ concat ds) = take (min (length f) (length (h @ d))) (f @ concat gs)"
          using all by simp
        then show ?thesis by (cases "length f \<le> length (h @ d)") (auto simp: min_def)
      qed
      have len: "length (h @ d) < MAX_PAF_MAX" using small Cons f(2,3) by auto
      note step = paf_step [OF f(1,4) pre f(3) ne cut f(2) len assms(2), of flags "hd gs"]
      show ?thesis
      proof (cases "length (h @ d) < length f")
        case True
        from step True obtain s' ps' where
          c: "paf_check scan limit s ps d (length (h @ d)) seq flags = Some (- 1, s', ps', flags)"
            "waiting f (h @ d) s' ps' (seq + of_nat (length d))" by auto
        have "\<exists>s'' ps''. paf_feed scan limit flags s' ps' (seq + of_nat (length d)) (length (h @ d)) ds = Some (map length fs, s'', ps'')"
          using Cons ne frames small all c(2) True fs by (intro IH) auto
        moreover have "paf_feed scan limit flags s ps seq (length h) segs =
          paf_feed scan limit flags s' ps' (seq + of_nat (length d)) (length (h @ d)) ds"
          using c(1) Cons ne assms(3) by (subst paf_feed.simps) simp
        ultimately show ?thesis by simp
      next
        case False
        let ?k = "length f - length h"
        from step False obtain s' ps' flags' where
          c: "paf_check scan limit s ps d (length (h @ d)) seq flags = Some (int (length f), s', ps', flags')"
            "waiting (hd gs) [] s' ps' (seq + of_nat ?k)" by auto
        have rest: "drop ?k d @ concat ds = concat gs"
          using arg_cong [OF all, of "drop (length f)"] False f(3) by simp
        have k: "0 < ?k" "?k \<le> length d" using f(3) False by auto
        have "gs \<noteq> [] \<longrightarrow> length ([] :: bytes) < length (hd gs)"
        proof
          assume "gs \<noteq> []"
          then have "frame (hd gs)" using frames fs by (cases gs) auto
          from hdr_less [OF this] show "length ([] :: bytes) < length (hd gs)" by (simp only: list.size)
        qed
        moreover have "length (concat (drop ?k d # ds)) + length (drop ?k d # ds) < length (concat segs) + length segs"
          using Cons k by simp
        ultimately have "\<exists>s'' ps''. paf_feed scan limit flags s' ps' (seq + of_nat ?k) (length ([] :: bytes)) (drop ?k d # ds) = Some (map length gs, s'', ps'')"
          using Cons frames small rest c(2) fs by (intro IH) auto
        moreover have "paf_feed scan limit flags s ps seq (length h) segs =
          Option.bind (paf_feed scan limit flags s' ps' (seq + of_nat ?k) 0 (drop ?k d # ds)) (\<lambda>rest. Some (length f # fst rest, snd rest))"
          using c(1) Cons ne by (subst paf_feed.simps) simp
        ultimately show ?thesis using fs by auto
      qed
    qed
  qed
qed

text \<open>From the start of a session.\<close>

lemma check_from_start:
  assumes "ps_paf ps = START" and "d \<noteq> []" and "length d < 2 ^ 31"
  shows "paf_check scan limit s ps d q seq flags =
    paf_check scan limit s (ps\<lparr>ps_seq := seq, ps_pos := seq, ps_paf := SEARCH\<rparr>) d q seq flags"
  using assms seq_new [of "length d" seq] by (simp add: paf_check_def paf_initialized_def Let_def)

lemma feed_session:
  assumes "\<forall>f\<in>set fs. frame f \<and> length f \<le> limit" and "limit < 2 ^ 32" and "flags \<noteq> 0"
    and "\<forall>d\<in>set segs. length d + limit < MAX_PAF_MAX" and "concat segs = concat fs" and "R [] s"
  shows "\<exists>s' ps'. paf_feed scan limit flags s (paf_reset ps) seq 0 segs = Some (map length fs, s', ps')"
  using assms(4,5)
proof (induction segs)
  case Nil
  have "fs = []"
  proof (rule ccontr)
    assume "fs \<noteq> []"
    then have "frame (hd fs)" "hd fs = []" using assms(1) Nil by (cases fs; simp)+
    then show False using hdr_less [of "hd fs"] by simp
  qed
  then show ?case by (simp add: paf_feed.simps)
next
  case (Cons d ds)
  show ?case
  proof (cases "d = []")
    case True
    then have "paf_feed scan limit flags s (paf_reset ps) seq 0 (d # ds) = paf_feed scan limit flags s (paf_reset ps) seq 0 ds"
      by (subst paf_feed.simps) simp
    with Cons True show ?thesis by simp
  next
    case False
    let ?ps = "(paf_reset ps)\<lparr>ps_seq := seq, ps_pos := seq, ps_paf := SEARCH\<rparr>"
    have "length d < 2 ^ 31" using Cons.prems(1) by (simp add: MAX_PAF_MAX_def PAF_LIMIT_FUZZ_def)
    from check_from_start [OF _ False this, of "paf_reset ps"]
    have "paf_feed scan limit flags s (paf_reset ps) seq 0 (d # ds) = paf_feed scan limit flags s ?ps seq 0 (d # ds)"
      using False by (subst (1 2) paf_feed.simps) (simp add: paf_reset_def)
    moreover have "fs \<noteq> [] \<longrightarrow> length ([] :: bytes) < length (hd fs) \<and> waiting (hd fs) [] s ?ps seq"
    proof
      assume "fs \<noteq> []"
      then have "frame (hd fs)" using assms(1) by simp
      from hdr_less [OF this] have "length ([] :: bytes) < length (hd fs)" by (simp only: list.size)
      with assms(6) show "length ([] :: bytes) < length (hd fs) \<and> waiting (hd fs) [] s ?ps seq"
        by (simp add: waiting_def paf_reset_def)
    qed
    ultimately show ?thesis
      using feed_frames [OF assms(1-3) Cons.prems(1), of "[]" s ?ps seq] Cons.prems(2) by simp
  qed
qed

end

text \<open>
  A splitter that reads the header byte by byte, counting the bytes of the segment: it stays in the loop for
  every byte that continues a good header, and at the first byte behind the header it flushes. Such a loop
  is a splitter of frames.
\<close>

locale header_loop =
  fixes loop :: "'s \<Rightarrow> nat \<Rightarrow> bytes \<Rightarrow> splitter_status \<times> nat option \<times> 's" and R :: "bytes \<Rightarrow> 's \<Rightarrow> bool"
    and hdr :: nat and good :: "bytes \<Rightarrow> bool" and body :: "bytes \<Rightarrow> nat"
  assumes loop_end: "loop s n [] = (SEARCH, None, s)"
    and loop_byte: "R h s \<Longrightarrow> length h < hdr \<Longrightarrow> good (h @ [b]) \<Longrightarrow>
      \<exists>s'. R (h @ [b]) s' \<and> (\<forall>n bs. loop s n (b # bs) = loop s' (Suc n) bs)"
    and loop_flush: "R h s \<Longrightarrow> length h = hdr \<Longrightarrow> good h \<Longrightarrow> \<exists>s'. R [] s' \<and> (\<forall>n. loop s n (b # bs) = (FLUSH, Some (body h + n), s'))"
begin

definition header_frame :: "bytes \<Rightarrow> bool" where
  "header_frame f \<longleftrightarrow> hdr < length f \<and> (\<forall>k\<le>hdr. good (take k f)) \<and> length f = hdr + body (take hdr f)"

lemma loop_in_header:
  assumes "R h s" and "length (h @ d) \<le> hdr" and "\<forall>k\<le>hdr. good (take k f)" and "h @ d = take (length (h @ d)) f"
  shows "\<exists>s'. loop s n d = (SEARCH, None, s') \<and> R (h @ d) s'"
  using assms
proof (induction d arbitrary: h s n)
  case Nil
  then show ?case using loop_end by simp
next
  case (Cons b d)
  have "h @ [b] = take (Suc (length h)) f"
    using arg_cong [OF Cons.prems(4), of "take (Suc (length h))"] by (simp add: min_def)
  with Cons.prems(2,3) have "good (h @ [b])" by simp
  from loop_byte [OF Cons.prems(1) _ this] Cons.prems(2) obtain s' where
    s': "R (h @ [b]) s'" "\<forall>n bs. loop s n (b # bs) = loop s' (Suc n) bs" by auto
  from Cons.IH [OF s'(1)] Cons.prems(2-4) s'(2) show ?case by simp
qed

lemma loop_behind_header:
  assumes "R h s" and "length h \<le> hdr" and "hdr < length (h @ d)" and "\<forall>k\<le>hdr. good (take k f)" and "take hdr (h @ d) = take hdr f"
  shows "\<exists>s'. loop s n d = (FLUSH, Some (body (take hdr f) + hdr - length h + n), s') \<and> R [] s'"
  using assms
proof (induction d arbitrary: h s n)
  case Nil
  then show ?case by simp
next
  case (Cons b d)
  show ?case
  proof (cases "length h = hdr")
    case True
    then have h: "h = take hdr f" using Cons.prems(5) by simp
    with Cons.prems(4) have "good h" by simp
    from loop_flush [OF Cons.prems(1) True this, of b d] h True show ?thesis by auto
  next
    case False
    with Cons.prems(2) have lt: "length h < hdr" by simp
    have "h @ [b] = take (Suc (length h)) (take hdr (h @ b # d))" using lt by (simp add: min_def)
    then have "h @ [b] = take (Suc (length h)) f" unfolding Cons.prems(5) using lt by (simp add: min_def)
    with Cons.prems(4) lt have "good (h @ [b])" by simp
    from loop_byte [OF Cons.prems(1) lt this] obtain s' where
      s': "R (h @ [b]) s'" "\<forall>n bs. loop s n (b # bs) = loop s' (Suc n) bs" by blast
    have "body (take hdr f) + hdr - length (h @ [b]) + Suc n = body (take hdr f) + hdr - length h + n" using lt by simp
    with Cons.IH [OF s'(1), of "Suc n"] Cons.prems(3-5) lt s'(2) show ?thesis by simp
  qed
qed

end

sublocale header_loop \<subseteq> framed_splitter "\<lambda>s d fl. loop s 0 d" R hdr header_frame
proof
  show "hdr < length f" if "header_frame f" for f using that by (simp add: header_frame_def)
  show "\<exists>s'. loop s 0 d = (SEARCH, None, s') \<and> R (h @ d) s'"
    if "header_frame f" "R h s" "length (h @ d) \<le> hdr" "h @ d = take (length (h @ d)) f" for f h s d and fl :: u32
    using that loop_in_header by (simp add: header_frame_def)
  show "\<exists>s'. loop s 0 d = (FLUSH, Some (length f - length h), s') \<and> R [] s'"
    if "header_frame f" "R h s" "length h \<le> hdr" "hdr < length (h @ d)" "take hdr (h @ d) = take hdr f" for f h s d and fl :: u32
    using that loop_behind_header [of h s d f 0] by (simp add: header_frame_def add.commute)
qed

end
