(* ===== verification/Smtp_Paf.thy ===== *)
theory Smtp_Paf
  imports Mime_Paf Boyer_Moore Paf
begin

text \<open>
  The stream splitter of the SMTP inspector, service_inspectors/smtp/smtp_paf.cc and .h: it follows the
  commands of the client, recognises the ones that data follow, and in the data looks for the end of the
  mail and for the parts of a MIME message with the machines of Mime_Paf. The pointer into a command name
  is the rest of the name, None when it is null. Undefined steps are None. The lemmas show that the end
  of the data always leads back to the command state, and that the length of a data command is never used.
\<close>

section \<open>Definitions\<close>

datatype smtp_paf_state = SMTP_PAF_CMD_STATE | SMTP_PAF_DATA_STATE

datatype smtp_cmd_state = SMTP_CMD_UNKNOWN | SMTP_CMD_START | SMTP_CMD_DETECT | SMTP_CMD_DATA_LENGTH | SMTP_CMD_DATA_END

datatype smtp_data_cmd = AUTH_CMD | BDAT_CMD | DATA_CMD | XEXCH50_CMD

datatype length_status = LENGTH_INVALID | LENGTH_CONTINUE | LENGTH_DONE

record smtp_cmd_info =
  cmd_state :: smtp_cmd_state
  search_id :: smtp_data_cmd
  search_state :: "bytes option"

record smtp_paf_data =
  sm_data_end :: data_end_state
  sm_length :: u32
  smtp_state :: smtp_paf_state
  cmd_info :: smtp_cmd_info
  data_info :: mime_paf_info
  end_of_data :: bool

fun token_name :: "smtp_data_cmd \<Rightarrow> bytes" where
  "token_name AUTH_CMD = [0x41, 0x55, 0x54, 0x48]"
| "token_name BDAT_CMD = [0x42, 0x44, 0x41, 0x54]"
| "token_name DATA_CMD = [0x44, 0x41, 0x54, 0x41]"
| "token_name XEXCH50_CMD = [0x58, 0x45, 0x58, 0x43, 0x48, 0x35, 0x30]"

definition reset_data_states :: "smtp_paf_data \<Rightarrow> smtp_paf_data" where
  "reset_data_states pf = pf\<lparr>data_info := reset_mime_paf_state (data_info pf), sm_length := 0\<rparr>"

fun memchr :: "u8 \<Rightarrow> bytes \<Rightarrow> nat option" where
  "memchr c [] = None"
| "memchr c (x # xs) = (if x = c then Some 0 else map_option Suc (memchr c xs))"

definition smtp_paf_server :: "smtp_paf_data \<Rightarrow> bytes \<Rightarrow> splitter_status \<times> nat option \<times> smtp_paf_data" where
  "smtp_paf_server pf data =
     (case memchr 0x0a data of
        Some i \<Rightarrow> (FLUSH, Some (i + 1), pf\<lparr>smtp_state := SMTP_PAF_CMD_STATE\<rparr>)
      | None \<Rightarrow> (SEARCH, None, pf\<lparr>smtp_state := SMTP_PAF_CMD_STATE\<rparr>))"

definition init_cmd_search :: "smtp_cmd_info \<Rightarrow> u8 \<Rightarrow> smtp_cmd_info" where
  "init_cmd_search info ch =
     (let found = (\<lambda>id. info\<lparr>search_state := Some (tl (token_name id)), search_id := id\<rparr>)
      in if ch = 0x61 \<or> ch = 0x41 then found AUTH_CMD
         else if ch = 0x62 \<or> ch = 0x42 then found BDAT_CMD
         else if ch = 0x64 \<or> ch = 0x44 then found DATA_CMD
         else if ch = 0x78 \<or> ch = 0x58 then found XEXCH50_CMD
         else info\<lparr>search_state := None\<rparr>)"

definition validate_command :: "smtp_cmd_info \<Rightarrow> u8 \<Rightarrow> smtp_cmd_info" where
  "validate_command info val =
     (case search_state info of
        None \<Rightarrow> info
      | Some name \<Rightarrow>
          (case name of
             expected # rest \<Rightarrow>
               if toupper_u8 val = toupper_u8 expected
               then if rest = [] then info\<lparr>search_state := None, cmd_state := SMTP_CMD_DATA_LENGTH\<rparr>
                    else info\<lparr>search_state := Some rest\<rparr>
               else info\<lparr>search_state := None, cmd_state := SMTP_CMD_UNKNOWN\<rparr>
           | [] \<Rightarrow> info\<lparr>search_state := None, cmd_state := SMTP_CMD_UNKNOWN\<rparr>))"

text \<open>The sum is a 32-bit expression that is widened only afterwards.\<close>

definition get_length :: "u8 \<Rightarrow> u32 \<Rightarrow> length_status \<times> u32" where
  "get_length c len =
     (if c = 0x20 \<or> c = 0x09 then (if len \<noteq> 0 then (LENGTH_DONE, len) else (LENGTH_CONTINUE, len))
      else if isdigit_u8 c then
        (let tmp_len = uint (10 * len + (ucast c - 0x30) :: u32)
         in if tmp_len < 2 ^ 32 - 1 then (LENGTH_CONTINUE, word_of_int tmp_len) else (LENGTH_INVALID, 0))
      else (LENGTH_INVALID, 0))"

definition process_command :: "smtp_paf_data \<Rightarrow> u8 \<Rightarrow> bool \<times> smtp_paf_data" where
  "process_command pf val =
     (let ci = cmd_info pf
      in if val = 0x0a then
           (let pf' = (if cmd_state ci = SMTP_CMD_DATA_END
                       then (reset_data_states (pf\<lparr>smtp_state := SMTP_PAF_DATA_STATE\<rparr>))\<lparr>end_of_data := False\<rparr> else pf)
            in (True, pf'\<lparr>cmd_info := ci\<lparr>cmd_state := SMTP_CMD_START\<rparr>\<rparr>))
         else
           (False,
            case cmd_state ci of
              SMTP_CMD_START \<Rightarrow>
                (let ci' = init_cmd_search ci val
                 in pf\<lparr>cmd_info := ci'\<lparr>cmd_state := if search_state ci' \<noteq> None then SMTP_CMD_DETECT else SMTP_CMD_UNKNOWN\<rparr>\<rparr>)
            | SMTP_CMD_DETECT \<Rightarrow> pf\<lparr>cmd_info := validate_command ci val\<rparr>
            | SMTP_CMD_DATA_LENGTH \<Rightarrow>
                (let (st, len) = get_length val (sm_length pf)
                 in pf\<lparr>sm_length := len,
                       cmd_info := if st \<noteq> LENGTH_CONTINUE then ci\<lparr>cmd_state := SMTP_CMD_DATA_END\<rparr> else ci\<rparr>)
            | _ \<Rightarrow> pf))"

definition flush_based_length :: "smtp_paf_data \<Rightarrow> bool \<times> smtp_paf_data" where
  "flush_based_length pf =
     (if sm_length pf \<noteq> 0 then (sm_length pf - 1 = 0, pf\<lparr>sm_length := sm_length pf - 1\<rparr>) else (False, pf))"

definition data_done :: "smtp_paf_data \<Rightarrow> smtp_paf_data" where
  "data_done pf = reset_data_states (pf\<lparr>smtp_state := SMTP_PAF_CMD_STATE, end_of_data := True\<rparr>)"

definition process_data :: "smtp_paf_data \<Rightarrow> u8 \<Rightarrow> (bool \<times> smtp_paf_data) option" where
  "process_data pf data =
     (let (by_len, pf) = flush_based_length pf
      in if by_len then Some (True, data_done pf)
         else
           (let (ended, st) = check_data_end (sm_data_end pf) data; pf = pf\<lparr>sm_data_end := st\<rparr>
            in if ended then Some (True, data_done pf)
               else case process_mime_paf_data (data_info pf) data of
                      None \<Rightarrow> None
                    | Some (r, info) \<Rightarrow> Some (r, pf\<lparr>data_info := info\<rparr>)))"

text \<open>One byte of the AUTH data: whether the overflow event is raised, and the new state.\<close>

definition auth_byte :: "int \<Rightarrow> nat \<Rightarrow> nat \<Rightarrow> bool \<Rightarrow> smtp_paf_data \<Rightarrow> u8 \<Rightarrow> bool \<times> smtp_paf_data" where
  "auth_byte max_len len i alerted pf ch =
     (let overflow = (max_len \<noteq> 0 \<and> int i + boundary_len (data_info pf) > max_len \<and> \<not> alerted);
          pf = (if ch = 0x0a then data_done pf else pf);
          pf = (if i = len - 1 \<and> smtp_state pf \<noteq> SMTP_PAF_CMD_STATE
                then pf\<lparr>data_info := (data_info pf)\<lparr>boundary_len := to_int32 (boundary_len (data_info pf) + int len)\<rparr>\<rparr> else pf)
      in (overflow, pf))"

fun client_loop ::
  "int \<Rightarrow> nat \<Rightarrow> nat \<Rightarrow> nat \<Rightarrow> bool \<Rightarrow> smtp_paf_data \<Rightarrow> bytes \<Rightarrow>
   (splitter_status \<times> nat option \<times> bool \<times> smtp_paf_data) option" where
  "client_loop max_len len i boundary_start alert pf [] =
     Some (case scanning_boundary (data_info pf) boundary_start of
             Some fp \<Rightarrow> (LIMIT, Some fp, alert, pf)
           | None \<Rightarrow> (SEARCH, None, alert, pf))"
| "client_loop max_len len i boundary_start alert pf (ch # data) =
     (case smtp_state pf of
        SMTP_PAF_CMD_STATE \<Rightarrow>
          (let (flush, pf') = process_command pf ch
           in if flush then Some (FLUSH, Some (i + 1), alert, pf')
              else client_loop max_len len (i + 1) boundary_start alert pf' data)
      | SMTP_PAF_DATA_STATE \<Rightarrow>
          (case (if search_id (cmd_info pf) = AUTH_CMD
                 then (let (ev, pf') = auth_byte max_len len i alert pf ch in Some (False, alert \<or> ev, pf'))
                 else map_option (\<lambda>(r, pf'). (r, alert, pf')) (process_data pf ch)) of
             None \<Rightarrow> None
           | Some (flush, alert', pf') \<Rightarrow>
               if flush then Some (FLUSH, Some (i + 1), alert', pf')
               else client_loop max_len len (i + 1)
                      (if boundary_state (data_info pf') = BOUNDARY_UNKNOWN then i else boundary_start) alert' pf' data))"

definition smtp_paf_client ::
  "int \<Rightarrow> smtp_paf_data \<Rightarrow> bytes \<Rightarrow> (splitter_status \<times> nat option \<times> bool \<times> smtp_paf_data) option" where
  "smtp_paf_client max_len pf data = client_loop max_len (length data) 0 0 False pf data"

definition smtp_splitter_new :: smtp_paf_data where
  "smtp_splitter_new =
     reset_data_states
       \<lparr>sm_data_end = END_UNKNOWN, sm_length = 0, smtp_state = SMTP_PAF_CMD_STATE,
        cmd_info = \<lparr>cmd_state = SMTP_CMD_UNKNOWN, search_id = AUTH_CMD, search_state = None\<rparr>,
        data_info = \<lparr>data_state = FINDING_BOUNDARY, boundary = replicate 71 0, boundary_len = 0,
          boundary_search = Null, boundary_state = BOUNDARY_UNKNOWN\<rparr>,
        end_of_data = False\<rparr>"

definition smtp_scan ::
  "int \<Rightarrow> bool \<Rightarrow> smtp_paf_data \<Rightarrow> bytes \<Rightarrow> (splitter_status \<times> nat option \<times> bool \<times> smtp_paf_data) option" where
  "smtp_scan max_len from_server pf data =
     (if from_server then (let (st, fp, pf') = smtp_paf_server pf data in Some (st, fp, False, pf'))
      else smtp_paf_client max_len pf data)"

definition smtp_is_data_end :: "smtp_paf_data option \<Rightarrow> bool" where
  "smtp_is_data_end s = (case s of None \<Rightarrow> False | Some pf \<Rightarrow> end_of_data pf)"

section \<open>Invariant\<close>

definition smtp_ok :: "smtp_paf_data \<Rightarrow> bool" where
  "smtp_ok pf \<longleftrightarrow>
     length (boundary (data_info pf)) = MAX_MIME_BOUNDARY_LEN + 1 \<and>
     (smtp_state pf = SMTP_PAF_DATA_STATE \<longrightarrow>
        sm_length pf = 0 \<and> (search_id (cmd_info pf) \<noteq> AUTH_CMD \<longrightarrow> mime_ok (data_info pf)))"

lemma reset_data_states_fields [simp]:
  "sm_length (reset_data_states pf) = 0" "smtp_state (reset_data_states pf) = smtp_state pf"
  "cmd_info (reset_data_states pf) = cmd_info pf" "end_of_data (reset_data_states pf) = end_of_data pf"
  "data_info (reset_data_states pf) = reset_mime_paf_state (data_info pf)"
  by (simp_all add: reset_data_states_def)

lemma data_done_ok [simp]:
  "smtp_ok (data_done pf) \<longleftrightarrow> length (boundary (data_info pf)) = MAX_MIME_BOUNDARY_LEN + 1"
  "smtp_state (data_done pf) = SMTP_PAF_CMD_STATE" "end_of_data (data_done pf)"
  "length (boundary (data_info (data_done pf))) = length (boundary (data_info pf))"
  by (simp_all add: smtp_ok_def data_done_def)

lemma process_command_ok:
  assumes "smtp_ok pf" and "smtp_state pf = SMTP_PAF_CMD_STATE"
  shows "smtp_ok (snd (process_command pf c))"
  using assms reset_mime_ok [of "data_info pf"]
  by (auto simp: smtp_ok_def process_command_def Let_def split: smtp_cmd_state.splits prod.splits)

lemma process_data_step:
  assumes "smtp_ok pf" and "smtp_state pf = SMTP_PAF_DATA_STATE"
  shows "process_data pf c =
    (let (ended, st) = check_data_end (sm_data_end pf) c
     in if ended then Some (True, data_done (pf\<lparr>sm_data_end := st\<rparr>))
        else map_option (\<lambda>(r, info). (r, pf\<lparr>sm_data_end := st, data_info := info\<rparr>)) (process_mime_paf_data (data_info pf) c))"
  using assms by (auto simp: process_data_def flush_based_length_def smtp_ok_def Let_def split: prod.splits option.splits)

lemma process_data_ok:
  assumes "smtp_ok pf" and "smtp_state pf = SMTP_PAF_DATA_STATE" and "search_id (cmd_info pf) \<noteq> AUTH_CMD"
    and "process_data pf c = Some (r, pf')"
  shows "smtp_ok pf'"
proof -
  obtain ended st where st: "check_data_end (sm_data_end pf) c = (ended, st)" by (rule prod.exhaust)
  show ?thesis
  proof (cases ended)
    case True
    with assms st show ?thesis by (auto simp: process_data_step smtp_ok_def)
  next
    case False
    with assms(4) st obtain info' where info': "process_mime_paf_data (data_info pf) c = Some (r, info')"
      "pf' = pf\<lparr>sm_data_end := st, data_info := info'\<rparr>" by (auto simp: process_data_step [OF assms(1,2)])
    have "mime_ok info'" using assms(1-3) process_some_ok [OF _ info'(1)] by (simp add: smtp_ok_def)
    with assms(1,2) info'(2) show ?thesis by (simp add: smtp_ok_def mime_ok_length)
  qed
qed

lemma auth_byte_ok: "smtp_ok pf \<Longrightarrow> search_id (cmd_info pf) = AUTH_CMD \<Longrightarrow> smtp_ok (snd (auth_byte max_len len i alerted pf ch))"
  by (auto simp: auth_byte_def Let_def smtp_ok_def data_done_def)

lemma client_loop_ok:
  assumes "smtp_ok pf" and "client_loop max_len len i bs alert pf data = Some (st, fp, ev, pf')"
  shows "smtp_ok pf'"
  using assms
proof (induction data arbitrary: i bs alert pf)
  case Nil
  then show ?case by (auto split: option.splits)
next
  case (Cons ch data)
  note IH = Cons.IH and ok = Cons.prems(1) and run = Cons.prems(2)
  show ?case
  proof (cases "smtp_state pf")
    case SMTP_PAF_CMD_STATE
    with run process_command_ok [OF ok SMTP_PAF_CMD_STATE, of ch] show ?thesis
      by (cases "process_command pf ch") (auto split: if_splits dest: IH [rotated])
  next
    case SMTP_PAF_DATA_STATE
    show ?thesis
    proof (cases "search_id (cmd_info pf) = AUTH_CMD")
      case True
      with run SMTP_PAF_DATA_STATE auth_byte_ok [OF ok True, of max_len len i alert ch] show ?thesis
        by (cases "auth_byte max_len len i alert pf ch") (auto dest: IH [rotated])
    next
      case False
      with run SMTP_PAF_DATA_STATE obtain r p where p: "process_data pf ch = Some (r, p)"
        by (cases "process_data pf ch") auto
      with False run SMTP_PAF_DATA_STATE process_data_ok [OF ok SMTP_PAF_DATA_STATE False p] show ?thesis
        by (auto split: if_splits dest: IH [rotated])
    qed
  qed
qed

lemma smtp_splitter_new_ok: "smtp_ok smtp_splitter_new"
  by (simp add: smtp_splitter_new_def smtp_ok_def MAX_MIME_BOUNDARY_LEN_def)

section \<open>Sessions\<close>

fun smtp_run :: "int \<Rightarrow> smtp_paf_data \<Rightarrow> (bool \<times> bytes) list \<Rightarrow> smtp_paf_data option" where
  "smtp_run max_len pf [] = Some pf"
| "smtp_run max_len pf ((from_server, data) # segs) =
     (case smtp_scan max_len from_server pf data of
        None \<Rightarrow> None
      | Some (st, fp, ev, pf') \<Rightarrow> smtp_run max_len pf' segs)"

lemma smtp_scan_ok: "smtp_ok pf \<Longrightarrow> smtp_scan max_len from_server pf data = Some (st, fp, ev, pf') \<Longrightarrow> smtp_ok pf'"
  by (auto simp: smtp_scan_def smtp_paf_client_def smtp_paf_server_def smtp_ok_def [of "pf\<lparr>smtp_state := x\<rparr>" for x]
    split: if_splits option.splits intro: client_loop_ok) (simp_all add: smtp_ok_def)

lemma smtp_run_ok: "smtp_ok pf \<Longrightarrow> smtp_run max_len pf segs = Some pf' \<Longrightarrow> smtp_ok pf'"
  by (induction max_len pf segs rule: smtp_run.induct) (auto dest: smtp_scan_ok split: option.splits)

text \<open>
  C18. In every session of client and server segments, the splitter never flushes by length: whenever it
  is in the data state the length it has stored is 0, so flush_based_length does nothing, although a
  command such as BDAT has given one.
\<close>

theorem length_never_used:
  assumes "smtp_run max_len smtp_splitter_new segs = Some pf" and "smtp_state pf = SMTP_PAF_DATA_STATE"
  shows "sm_length pf = 0 \<and> flush_based_length pf = (False, pf)"
  using smtp_run_ok [OF smtp_splitter_new_ok assms(1)] assms(2) by (simp add: smtp_ok_def flush_based_length_def)

text \<open>The session of a client that sends a line, the command BDAT 3 LAST, and three bytes of data.\<close>

definition bdat_session :: "(bool \<times> bytes) list" where
  "bdat_session =
     [(False, [0x0a]), (False, [0x42, 0x44, 0x41, 0x54, 0x20, 0x33, 0x20, 0x4c, 0x41, 0x53, 0x54, 0x0a]),
      (False, [0x61, 0x62, 0x63])]"

lemma bdat_in_data:
  "map_option (\<lambda>pf. (smtp_state pf, search_id (cmd_info pf), overruns (data_info pf) 0x0d))
     (smtp_run 1000 smtp_splitter_new bdat_session) = Some (SMTP_PAF_DATA_STATE, BDAT_CMD, False)"
  by code_simp

theorem length_never_used_witness:
  "\<exists>pf. smtp_run 1000 smtp_splitter_new bdat_session = Some pf \<and> sm_length pf = 0 \<and> flush_based_length pf = (False, pf)"
  using bdat_in_data length_never_used [of 1000 bdat_session] by (cases "smtp_run 1000 smtp_splitter_new bdat_session") auto

text \<open>
  BDAT 3 LAST and its three bytes of data do not end the data, and a length beyond 32 bits is taken for a
  small one.
\<close>

lemma bdat_length_ignored:
  "Option.bind (smtp_run 1000 smtp_splitter_new (butlast bdat_session))
     (\<lambda>pf. map_option fst (smtp_scan 1000 False pf (snd (last bdat_session)))) = Some SEARCH"
  by code_simp

lemma get_length_wraps: "get_length 0x30 429496730 = (LENGTH_CONTINUE, 4)"
  by code_simp

section \<open>The end of the data\<close>

definition mail_data :: "int \<Rightarrow> smtp_paf_data \<Rightarrow> bool" where
  "mail_data k pf \<longleftrightarrow>
     smtp_ok pf \<and> smtp_state pf = SMTP_PAF_DATA_STATE \<and> search_id (cmd_info pf) \<noteq> AUTH_CMD \<and> collected_at_most k (data_info pf)"

lemma data_byte:
  assumes "smtp_ok pf" and "smtp_state pf = SMTP_PAF_DATA_STATE" and "search_id (cmd_info pf) \<noteq> AUTH_CMD"
    and "\<not> overruns (data_info pf) c" and "check_data_end (sm_data_end pf) c = (False, st)"
  shows "\<exists>r pf'. process_data pf c = Some (r, pf') \<and> (r \<longrightarrow> c = 0x0a) \<and> sm_data_end pf' = st \<and> cmd_info pf' = cmd_info pf \<and>
    smtp_state pf' = SMTP_PAF_DATA_STATE \<and> smtp_ok pf' \<and>
    (\<forall>k. 0 \<le> k \<longrightarrow> collected_at_most k (data_info pf) \<longrightarrow> collected_at_most (k + 1) (data_info pf')) \<and>
    (isspace_u8 c \<longrightarrow> collected_at_most 0 (data_info pf'))"
proof -
  have ok: "mime_ok (data_info pf)" using assms(1-3) by (simp add: smtp_ok_def)
  from process_ok [OF ok assms(4)] obtain r info where p: "process_mime_paf_data (data_info pf) c = Some (r, info)" by blast
  have s: "process_data pf c = Some (r, pf\<lparr>sm_data_end := st, data_info := info\<rparr>)"
    using assms(5) p by (simp add: process_data_step [OF assms(1,2)])
  from process_data_ok [OF assms(1-3) s] have "smtp_ok (pf\<lparr>sm_data_end := st, data_info := info\<rparr>)" .
  with s p assms(2) process_report [of "data_info pf" c info] process_collects [OF p] process_space [OF p ok] show ?thesis
    by (cases r) auto
qed

lemma client_data_step:
  assumes "smtp_state pf = SMTP_PAF_DATA_STATE" and "search_id (cmd_info pf) \<noteq> AUTH_CMD" and "process_data pf c = Some (r, pf')"
  shows "client_loop max_len len i bs alert pf (c # data) =
    (if r then Some (FLUSH, Some (i + 1), alert, pf')
     else client_loop max_len len (i + 1) (if boundary_state (data_info pf') = BOUNDARY_UNKNOWN then i else bs) alert pf' data)"
  using assms by simp

text \<open>Behind a line feed, a line with a single dot ends the data.\<close>

lemma dot_line:
  assumes "mail_data k pf" and "0 \<le> k" and "k < 60" and "sm_data_end pf = END_FIRST_LF"
  shows "\<exists>pf'. client_loop max_len len i bs alert pf (0x2e # 0x0d # 0x0a # rest) = Some (FLUSH, Some (i + 3), alert, pf') \<and>
    smtp_state pf' = SMTP_PAF_CMD_STATE \<and> end_of_data pf'"
proof -
  have a: "smtp_ok pf" "smtp_state pf = SMTP_PAF_DATA_STATE" "search_id (cmd_info pf) \<noteq> AUTH_CMD" "collected_at_most k (data_info pf)"
    using assms(1) by (simp_all add: mail_data_def)
  have "\<not> overruns (data_info pf) 0x2e" using collected_no_overrun [OF a(4)] assms(3) by simp
  from data_byte [OF a(1-3) this, of END_DOT] obtain r1 p1 where
    p1: "process_data pf 0x2e = Some (r1, p1)" "\<not> r1" "sm_data_end p1 = END_DOT" "cmd_info p1 = cmd_info pf"
      "smtp_state p1 = SMTP_PAF_DATA_STATE" "smtp_ok p1" "collected_at_most (k + 1) (data_info p1)"
    using assms(2,4) a(4) by (auto simp: check_data_end_def)
  have "\<not> overruns (data_info p1) 0x0d" using collected_no_overrun [OF p1(7)] assms(3) by simp
  moreover have "search_id (cmd_info p1) \<noteq> AUTH_CMD" using p1(4) a(3) by simp
  ultimately obtain r2 p2 where
    p2: "process_data p1 0x0d = Some (r2, p2)" "\<not> r2" "sm_data_end p2 = END_DOT" "cmd_info p2 = cmd_info pf"
      "smtp_state p2 = SMTP_PAF_DATA_STATE" "smtp_ok p2"
    using data_byte [OF p1(6,5), of "0x0d" END_DOT] p1(3,4) by (auto simp: check_data_end_def)
  have p3: "process_data p2 0x0a = Some (True, data_done (p2\<lparr>sm_data_end := END_UNKNOWN\<rparr>))"
    using process_data_step [OF p2(6,5), of "0x0a"] p2(3) by (simp add: check_data_end_def)
  show ?thesis
    using client_data_step [OF a(2,3) p1(1)] client_data_step [OF p1(5) _ p2(1)] client_data_step [OF p2(5) _ p3]
      p1(2,4) p2(2,4) a(3) by (simp del: client_loop.simps)
qed

text \<open>
  C17. In every session, from every data state of a mail, the end-of-data sequence CR LF dot CR LF leads
  back to the command state: scanning it flushes, and either the splitter is then in the command state with
  the end of the data recorded, or it has flushed a MIME part at the first line feed, and the scan of the
  remaining three bytes flushes at the last one and is in the command state. The only exception is a state
  in which 71 bytes of a boundary have been collected.
\<close>

theorem data_end_reached:
  assumes "smtp_run max_len smtp_splitter_new segs = Some pf" and "smtp_state pf = SMTP_PAF_DATA_STATE"
    and "search_id (cmd_info pf) \<noteq> AUTH_CMD" and "\<not> overruns (data_info pf) 0x0d"
  shows "\<exists>fp pf'. smtp_scan max_len False pf ([0x0d, 0x0a, 0x2e, 0x0d, 0x0a] @ rest) = Some (FLUSH, Some fp, False, pf') \<and>
    (fp \<in> {2, 5} \<and> smtp_state pf' = SMTP_PAF_CMD_STATE \<and> end_of_data pf' \<or>
     fp = 2 \<and> (\<exists>pf''. smtp_scan max_len False pf' ([0x2e, 0x0d, 0x0a] @ rest) = Some (FLUSH, Some 3, False, pf'') \<and>
       smtp_state pf'' = SMTP_PAF_CMD_STATE \<and> end_of_data pf''))"
proof -
  have ok: "smtp_ok pf" using smtp_run_ok [OF smtp_splitter_new_ok assms(1)] .
  define st1 where "st1 = snd (check_data_end (sm_data_end pf) 0x0d)"
  have st1: "check_data_end (sm_data_end pf) 0x0d = (False, st1)" "st1 \<in> {END_UNKNOWN, END_FIRST_LF, END_DOT}"
    by (cases "sm_data_end pf"; simp add: st1_def check_data_end_def)+
  from data_byte [OF ok assms(2-4) st1(1)] obtain r1 p1 where
    p1: "process_data pf 0x0d = Some (r1, p1)" "\<not> r1" "sm_data_end p1 = st1" "cmd_info p1 = cmd_info pf"
      "smtp_state p1 = SMTP_PAF_DATA_STATE" "smtp_ok p1" "collected_at_most 0 (data_info p1)"
    by (auto simp: isspace_u8_def)
  have id1: "search_id (cmd_info p1) \<noteq> AUTH_CMD" using p1(4) assms(3) by simp
  note step1 = client_data_step [OF assms(2,3) p1(1)]
  show ?thesis
  proof (cases "st1 = END_DOT")
    case True
    then have "process_data p1 0x0a = Some (True, data_done (p1\<lparr>sm_data_end := END_UNKNOWN\<rparr>))"
      using process_data_step [OF p1(6,5), of "0x0a"] p1(3) by (simp add: check_data_end_def)
    from client_data_step [OF p1(5) id1 this] step1 p1(2) show ?thesis
      by (simp add: smtp_scan_def smtp_paf_client_def del: client_loop.simps)
  next
    case False
    then have e: "check_data_end (sm_data_end p1) 0x0a = (False, END_FIRST_LF)" using st1(2) p1(3) by (auto simp: check_data_end_def)
    have "\<not> overruns (data_info p1) 0x0a" using collected_no_overrun [OF p1(7)] by simp
    from data_byte [OF p1(6,5) id1 this e] p1(4) obtain r2 p2 where
      p2: "process_data p1 0x0a = Some (r2, p2)" "sm_data_end p2 = END_FIRST_LF" "cmd_info p2 = cmd_info pf"
        "smtp_state p2 = SMTP_PAF_DATA_STATE" "smtp_ok p2" "collected_at_most 0 (data_info p2)"
      by auto
    have "mail_data 0 p2" using p2 assms(3) by (simp add: mail_data_def)
    note dot = dot_line [OF this order_refl _ p2(2)]
    note step2 = client_data_step [OF p1(5) id1 p2(1)]
    show ?thesis
    proof (cases r2)
      case True
      then show ?thesis using step1 step2 p1(2) dot [of max_len "Suc (Suc (Suc (length rest)))" 0 0 False rest]
        by (simp add: smtp_scan_def smtp_paf_client_def del: client_loop.simps)
    next
      case False
      let ?bs = "if boundary_state (data_info p2) = BOUNDARY_UNKNOWN then Suc 0 else 0"
      from dot obtain pf' where
        "client_loop max_len (Suc (Suc (Suc (Suc (Suc (length rest)))))) (Suc (Suc 0)) ?bs False p2 (0x2e # 0x0d # 0x0a # rest) =
          Some (FLUSH, Some (Suc (Suc 0) + 3), False, pf')" "smtp_state pf' = SMTP_PAF_CMD_STATE \<and> end_of_data pf'" by fastforce
      with False step1 step2 p1(2) show ?thesis
        by (intro exI [of _ 5] exI [of _ pf']) (simp add: smtp_scan_def smtp_paf_client_def del: client_loop.simps)
    qed
  qed
qed

theorem data_end_reached_witness:
  "\<exists>pf fp pf'. smtp_run 1000 smtp_splitter_new bdat_session = Some pf \<and>
    smtp_scan 1000 False pf ([0x0d, 0x0a, 0x2e, 0x0d, 0x0a] @ [0x51]) = Some (FLUSH, Some fp, False, pf') \<and>
    (fp \<in> {2, 5} \<and> smtp_state pf' = SMTP_PAF_CMD_STATE \<and> end_of_data pf' \<or>
     fp = 2 \<and> (\<exists>pf''. smtp_scan 1000 False pf' ([0x2e, 0x0d, 0x0a] @ [0x51]) = Some (FLUSH, Some 3, False, pf'') \<and>
       smtp_state pf'' = SMTP_PAF_CMD_STATE \<and> end_of_data pf''))"
proof -
  from bdat_in_data obtain pf where pf: "smtp_run 1000 smtp_splitter_new bdat_session = Some pf"
    "smtp_state pf = SMTP_PAF_DATA_STATE" "search_id (cmd_info pf) \<noteq> AUTH_CMD" "\<not> overruns (data_info pf) 0x0d"
    by (cases "smtp_run 1000 smtp_splitter_new bdat_session") auto
  from data_end_reached [OF this, of "[0x51]"] pf(1) show ?thesis by blast
qed

end
