(* ===== verification/Pop_Paf.thy ===== *)
theory Pop_Paf
  imports Mime_Paf Boyer_Moore Paf
begin

text \<open>
  The stream splitter of the POP inspector, service_inspectors/pop/pop_paf.cc and .h, with the command names of
  pop.cc. The splitter of the client follows the commands and tells the one of the server how the response
  will end; the splitter of the server looks for that end, and for the parts of a MIME message with the
  machines of Mime_Paf. The pointer into a command name is the command and an offset; a read behind the
  null byte of the name is None. The lemmas give the response each command line announces, and show that
  a multi-line response is flushed at its end, however both are cut into segments.
\<close>

section \<open>Definitions\<close>

datatype pop_expected_resp = POP_PAF_SINGLE_LINE_STATE | POP_PAF_MULTI_LINE_STATE | POP_PAF_DATA_STATE | POP_PAF_HAS_ARG

datatype pop_parse_cmd_state = POP_CMD_SEARCH | POP_CMD_FIN | POP_CMD_ARG

text \<open>The last enumerator of the source, \<^verbatim>\<open>CMD_LAST\<close>, only counts the others.\<close>

datatype pop_cmd =
  CMD_APOP | CMD_AUTH | CMD_CAPA | CMD_DELE | CMD_LIST | CMD_NOOP | CMD_PASS | CMD_QUIT | CMD_RETR | CMD_RSET |
  CMD_STAT | CMD_STLS | CMD_TOP | CMD_UIDL | CMD_USER

record pop_paf_parse_cmd =
  next_letter :: "(pop_cmd \<times> nat) option"
  exp_resp :: pop_expected_resp
  status :: pop_parse_cmd_state

record pop_paf_data =
  pop_state :: pop_expected_resp
  pop_cmd_state :: pop_paf_parse_cmd
  end_state :: data_end_state
  pop_data_info :: mime_paf_info
  cmd_continued :: bool
  pop_end_of_data :: bool

fun pop_known_cmds :: "pop_cmd \<Rightarrow> bytes" where
  "pop_known_cmds CMD_APOP = [0x41, 0x50, 0x4f, 0x50]"
| "pop_known_cmds CMD_AUTH = [0x41, 0x55, 0x54, 0x48]"
| "pop_known_cmds CMD_CAPA = [0x43, 0x41, 0x50, 0x41]"
| "pop_known_cmds CMD_DELE = [0x44, 0x45, 0x4c, 0x45]"
| "pop_known_cmds CMD_LIST = [0x4c, 0x49, 0x53, 0x54]"
| "pop_known_cmds CMD_NOOP = [0x4e, 0x4f, 0x4f, 0x50]"
| "pop_known_cmds CMD_PASS = [0x50, 0x41, 0x53, 0x53]"
| "pop_known_cmds CMD_QUIT = [0x51, 0x55, 0x49, 0x54]"
| "pop_known_cmds CMD_RETR = [0x52, 0x45, 0x54, 0x52]"
| "pop_known_cmds CMD_RSET = [0x52, 0x53, 0x45, 0x54]"
| "pop_known_cmds CMD_STAT = [0x53, 0x54, 0x41, 0x54]"
| "pop_known_cmds CMD_STLS = [0x53, 0x54, 0x4c, 0x53]"
| "pop_known_cmds CMD_TOP = [0x54, 0x4f, 0x50]"
| "pop_known_cmds CMD_UIDL = [0x55, 0x49, 0x44, 0x4c]"
| "pop_known_cmds CMD_USER = [0x55, 0x53, 0x45, 0x52]"

definition letter_at :: "pop_cmd \<Rightarrow> nat \<Rightarrow> u8 option" where
  "letter_at c i =
     (let name = pop_known_cmds c
      in if i < length name then Some (name ! i) else if i = length name then Some 0 else None)"

definition search_for_command :: "pop_paf_data \<Rightarrow> u8 \<Rightarrow> (bool \<times> pop_paf_data) option" where
  "search_for_command pf ch =
     (let cs = pop_cmd_state pf
      in case next_letter cs of
           None \<Rightarrow> None
         | Some (c, i) \<Rightarrow>
             (case letter_at c i of
                None \<Rightarrow> None
              | Some val \<Rightarrow>
                  if val = 0 \<and> (ch = 0x20 \<or> ch = 0x09 \<or> ch = 0x0d \<or> ch = 0x0a) then
                    if exp_resp cs = POP_PAF_HAS_ARG then Some (False, pf\<lparr>pop_cmd_state := cs\<lparr>status := POP_CMD_ARG\<rparr>\<rparr>)
                    else Some (True, pf\<lparr>pop_cmd_state := cs\<lparr>status := POP_CMD_FIN\<rparr>, pop_state := exp_resp cs\<rparr>)
                  else if toupper_u8 ch = toupper_u8 val then
                    Some (False, pf\<lparr>pop_cmd_state := cs\<lparr>next_letter := Some (c, Suc i)\<rparr>\<rparr>)
                  else Some (False, pf\<lparr>pop_cmd_state := cs\<lparr>status := POP_CMD_FIN\<rparr>\<rparr>)))"

definition init_command_search :: "pop_paf_data \<Rightarrow> u8 \<Rightarrow> bool \<times> pop_paf_data" where
  "init_command_search pf ch =
     (let cs = pop_cmd_state pf;
          expect = (\<lambda>r c. cs\<lparr>exp_resp := r, next_letter := Some (c, 1)\<rparr>);
          cs' = (if ch = 0x63 \<or> ch = 0x43 then expect POP_PAF_MULTI_LINE_STATE CMD_CAPA
                 else if ch = 0x6c \<or> ch = 0x4c then expect POP_PAF_HAS_ARG CMD_LIST
                 else if ch = 0x72 \<or> ch = 0x52 then expect POP_PAF_DATA_STATE CMD_RETR
                 else if ch = 0x74 \<or> ch = 0x54 then expect POP_PAF_DATA_STATE CMD_TOP
                 else if ch = 0x75 \<or> ch = 0x55 then expect POP_PAF_HAS_ARG CMD_UIDL
                 else cs\<lparr>status := POP_CMD_FIN\<rparr>)
      in (False, pf\<lparr>pop_state := POP_PAF_SINGLE_LINE_STATE, pop_cmd_state := cs'\<rparr>))"

definition pop_process_command :: "pop_paf_data \<Rightarrow> u8 \<Rightarrow> (bool \<times> pop_paf_data) option" where
  "pop_process_command pf ch =
     (if next_letter (pop_cmd_state pf) \<noteq> None then search_for_command pf ch else Some (init_command_search pf ch))"

definition pop_reset_data_states :: "pop_paf_data \<Rightarrow> pop_paf_data" where
  "pop_reset_data_states pf =
     pf\<lparr>pop_data_info := reset_mime_paf_state (pop_data_info pf), cmd_continued := False, end_state := END_UNKNOWN,
        pop_state := POP_PAF_SINGLE_LINE_STATE\<rparr>"

definition valid_response :: "u8 \<Rightarrow> bool" where
  "valid_response c \<longleftrightarrow> c = 0x2b"

text \<open>The state of the splitter of the server is None when the flow has none.\<close>

definition set_server_state :: "pop_expected_resp \<Rightarrow> pop_paf_data option \<Rightarrow> pop_paf_data option" where
  "set_server_state st srv = map_option (\<lambda>s. (pop_reset_data_states s)\<lparr>pop_end_of_data := False, pop_state := st\<rparr>) srv"

definition reset_client_cmd_info :: "pop_paf_data \<Rightarrow> pop_paf_data" where
  "reset_client_cmd_info pf = pf\<lparr>pop_cmd_state := (pop_cmd_state pf)\<lparr>next_letter := None, status := POP_CMD_SEARCH\<rparr>\<rparr>"

definition find_data_end_multi_line :: "pop_paf_data \<Rightarrow> u8 \<Rightarrow> bool \<Rightarrow> (bool \<times> pop_paf_data) option" where
  "find_data_end_multi_line pf ch mime_data =
     (let (ended, st) = check_data_end (end_state pf) ch; pf = pf\<lparr>end_state := st\<rparr>
      in if ended then
           Some (True, pop_reset_data_states (pf\<lparr>pop_end_of_data := True, pop_state := POP_PAF_SINGLE_LINE_STATE\<rparr>))
         else if mime_data then
           (case process_mime_paf_data (pop_data_info pf) ch of
              None \<Rightarrow> None
            | Some (r, info) \<Rightarrow>
                let pf = pf\<lparr>pop_data_info := info\<rparr>
                in Some (r, if r then pf\<lparr>cmd_continued := True\<rparr> else pf))
         else Some (False, pf))"

definition find_data_end_single_line :: "pop_paf_data \<Rightarrow> u8 \<Rightarrow> bool \<Rightarrow> bool \<times> pop_paf_data" where
  "find_data_end_single_line pf ch client =
     (if ch = 0x0a then (True, if client then reset_client_cmd_info pf else pop_reset_data_states pf) else (False, pf))"

fun pop_server_loop ::
  "nat \<Rightarrow> nat \<Rightarrow> pop_paf_data \<Rightarrow> bytes \<Rightarrow> (splitter_status \<times> nat option \<times> pop_paf_data) option" where
  "pop_server_loop i boundary_start pf [] =
     (let pf = pf\<lparr>cmd_continued := True\<rparr>
      in Some (case scanning_boundary (pop_data_info pf) boundary_start of
                 Some fp \<Rightarrow> (LIMIT, Some fp, pf)
               | None \<Rightarrow> (SEARCH, None, pf)))"
| "pop_server_loop i boundary_start pf (ch # data) =
     (case (case pop_state pf of
              POP_PAF_MULTI_LINE_STATE \<Rightarrow> find_data_end_multi_line pf ch False
            | POP_PAF_DATA_STATE \<Rightarrow> find_data_end_multi_line pf ch True
            | _ \<Rightarrow> Some (find_data_end_single_line pf ch False)) of
        None \<Rightarrow> None
      | Some (flush, pf') \<Rightarrow>
          if flush then Some (FLUSH, Some (i + 1), pf')
          else pop_server_loop (i + 1)
                 (if pop_state pf = POP_PAF_DATA_STATE \<and> boundary_state (pop_data_info pf') = BOUNDARY_UNKNOWN
                  then i else boundary_start) pf' data)"

definition pop_paf_server :: "pop_paf_data \<Rightarrow> bytes \<Rightarrow> (splitter_status \<times> nat option \<times> pop_paf_data) option" where
  "pop_paf_server pf data =
     (if cmd_continued pf then pop_server_loop 0 0 pf data
      else case data of
             [] \<Rightarrow> None
           | c # _ \<Rightarrow>
               pop_server_loop 0 0 (if valid_response c then pf else pf\<lparr>pop_state := POP_PAF_SINGLE_LINE_STATE\<rparr>) data)"

text \<open>One byte of the client: whether the line ends, the state of the server and the one of the client.\<close>

definition pop_client_byte ::
  "pop_paf_data option \<Rightarrow> pop_paf_data \<Rightarrow> u8 \<Rightarrow> (bool \<times> pop_paf_data option \<times> pop_paf_data) option" where
  "pop_client_byte srv pf ch =
     (case status (pop_cmd_state pf) of
        POP_CMD_SEARCH \<Rightarrow>
          (case pop_process_command pf ch of
             None \<Rightarrow> None
           | Some (known, pf') \<Rightarrow>
               let (flush, pf'') = find_data_end_single_line pf' ch True
               in Some (flush, if known then set_server_state (pop_state pf') srv else srv, pf''))
      | POP_CMD_FIN \<Rightarrow> (let (flush, pf') = find_data_end_single_line pf ch True in Some (flush, srv, pf'))
      | POP_CMD_ARG \<Rightarrow>
          (let (flush, pf') = find_data_end_single_line pf ch True
           in if flush then Some (True, set_server_state POP_PAF_MULTI_LINE_STATE srv, pf')
              else if isdigit_u8 ch then Some (False, srv, pf'\<lparr>pop_cmd_state := (pop_cmd_state pf')\<lparr>status := POP_CMD_FIN\<rparr>\<rparr>)
              else Some (False, srv, pf')))"

fun pop_client_loop ::
  "nat \<Rightarrow> pop_paf_data option \<Rightarrow> pop_paf_data \<Rightarrow> bytes \<Rightarrow>
   (splitter_status \<times> nat option \<times> pop_paf_data option \<times> pop_paf_data) option" where
  "pop_client_loop i srv pf [] = Some (SEARCH, None, srv, pf)"
| "pop_client_loop i srv pf (ch # data) =
     (case pop_client_byte srv pf ch of
        None \<Rightarrow> None
      | Some (flush, srv', pf') \<Rightarrow>
          if flush then Some (FLUSH, Some (i + 1), srv', pf') else pop_client_loop (i + 1) srv' pf' data)"

definition pop_paf_client ::
  "pop_paf_data option \<Rightarrow> pop_paf_data \<Rightarrow> bytes \<Rightarrow>
   (splitter_status \<times> nat option \<times> pop_paf_data option \<times> pop_paf_data) option" where
  "pop_paf_client srv pf data = pop_client_loop 0 srv pf data"

definition pop_splitter_new :: pop_paf_data where
  "pop_splitter_new =
     pop_reset_data_states
       \<lparr>pop_state = POP_PAF_SINGLE_LINE_STATE,
        pop_cmd_state = \<lparr>next_letter = None, exp_resp = POP_PAF_SINGLE_LINE_STATE, status = POP_CMD_SEARCH\<rparr>,
        end_state = END_UNKNOWN,
        pop_data_info = \<lparr>data_state = FINDING_BOUNDARY, boundary = replicate 71 0, boundary_len = 0,
          boundary_search = Null, boundary_state = BOUNDARY_UNKNOWN\<rparr>,
        cmd_continued = False, pop_end_of_data = False\<rparr>"

text \<open>A call for either direction of a flow; the first component is the splitter of the client.\<close>

definition pop_scan ::
  "bool \<Rightarrow> pop_paf_data \<times> pop_paf_data \<Rightarrow> bytes \<Rightarrow> (splitter_status \<times> nat option \<times> pop_paf_data \<times> pop_paf_data) option" where
  "pop_scan from_server s data =
     (case s of (cl, srv) \<Rightarrow>
        if from_server then map_option (\<lambda>(st, fp, srv'). (st, fp, cl, srv')) (pop_paf_server srv data)
        else (case pop_paf_client (Some srv) cl data of
                Some (st, fp, Some srv', cl') \<Rightarrow> Some (st, fp, cl', srv')
              | _ \<Rightarrow> None))"

definition pop_is_data_end :: "pop_paf_data option \<Rightarrow> bool" where
  "pop_is_data_end s = (case s of None \<Rightarrow> False | Some pf \<Rightarrow> pop_end_of_data pf)"

section \<open>Sessions\<close>

fun pop_run ::
  "pop_paf_data \<times> pop_paf_data \<Rightarrow> (bool \<times> bytes) list \<Rightarrow>
   ((splitter_status \<times> nat option) list \<times> pop_paf_data \<times> pop_paf_data) option" where
  "pop_run s [] = Some ([], s)"
| "pop_run s ((from_server, data) # segs) =
     (case pop_scan from_server s data of
        None \<Rightarrow> None
      | Some (st, fp, s') \<Rightarrow> map_option (\<lambda>(rs, s''). ((st, fp) # rs, s'')) (pop_run s' segs))"

lemma pop_run_append:
  "pop_run s (xs @ ys) =
     (case pop_run s xs of
        None \<Rightarrow> None
      | Some (rs, s') \<Rightarrow> map_option (\<lambda>(rs', s''). (rs @ rs', s'')) (pop_run s' ys))"
  by (induction s xs rule: pop_run.induct) (auto simp: option.map_comp comp_def split_beta option.map_id split: option.splits)

section \<open>Commands\<close>

definition awaits_command :: "pop_paf_data \<Rightarrow> bool" where
  "awaits_command pf \<longleftrightarrow> next_letter (pop_cmd_state pf) = None \<and> status (pop_cmd_state pf) = POP_CMD_SEARCH"

definition ends_word :: "u8 \<Rightarrow> bool" where
  "ends_word c \<longleftrightarrow> c = 0x20 \<or> c = 0x09 \<or> c = 0x0d"

text \<open>The effect of a recognised command, with the rest of its line behind the name.\<close>

fun reply_of :: "pop_expected_resp \<Rightarrow> bytes \<Rightarrow> pop_expected_resp option" where
  "reply_of POP_PAF_HAS_ARG r = (if r = [] \<or> list_ex isdigit_u8 r then None else Some POP_PAF_MULTI_LINE_STATE)"
| "reply_of st r = Some st"

text \<open>The response a command line announces, None when the splitter of the server is left alone.\<close>

definition response_to :: "bytes \<Rightarrow> pop_expected_resp option" where
  "response_to w =
     (let name = map toupper_u8 (takeWhile (\<lambda>c. \<not> ends_word c) w); r = dropWhile (\<lambda>c. \<not> ends_word c) w
      in if name = pop_known_cmds CMD_CAPA then Some POP_PAF_MULTI_LINE_STATE
         else if name = pop_known_cmds CMD_RETR \<or> name = pop_known_cmds CMD_TOP then Some POP_PAF_DATA_STATE
         else if name = pop_known_cmds CMD_LIST \<or> name = pop_known_cmds CMD_UIDL then reply_of POP_PAF_HAS_ARG r
         else None)"

definition announce :: "pop_expected_resp option \<Rightarrow> pop_paf_data option \<Rightarrow> pop_paf_data option" where
  "announce r srv = (case r of None \<Rightarrow> srv | Some st \<Rightarrow> set_server_state st srv)"

lemmas client_byte_simps =
  pop_client_byte_def find_data_end_single_line_def reset_client_cmd_info_def awaits_command_def announce_def

lemma client_flush_newline: "pop_client_byte srv pf c = Some (fl, srv', pf') \<Longrightarrow> fl \<longleftrightarrow> c = 0x0a"
  by (auto simp: client_byte_simps Let_def split: pop_parse_cmd_state.splits option.splits if_splits)

lemma client_loop_shift:
  "pop_client_loop (n + i) srv pf xs = map_option (\<lambda>(st, fp, r). (st, map_option ((+) n) fp, r)) (pop_client_loop i srv pf xs)"
proof (induction xs arbitrary: i srv pf)
  case (Cons c xs)
  from Cons.IH [of "Suc i"] show ?case by (auto split: option.splits)
qed simp

lemma client_loop_append:
  "0x0a \<notin> set xs \<Longrightarrow> pop_client_loop i srv pf (xs @ ys) =
     (case pop_client_loop i srv pf xs of None \<Rightarrow> None | Some (st, fp, srv', pf') \<Rightarrow> pop_client_loop (i + length xs) srv' pf' ys)"
  by (induction xs arbitrary: i srv pf) (auto split: option.splits dest: client_flush_newline)

lemma client_loop_searches:
  "0x0a \<notin> set xs \<Longrightarrow> pop_client_loop i srv pf xs = Some (st, fp, r) \<Longrightarrow> st = SEARCH \<and> fp = None"
  by (induction xs arbitrary: i srv pf) (auto split: option.splits if_splits dest: client_flush_newline)

lemma finished_line:
  assumes "0x0a \<notin> set xs" and "status (pop_cmd_state pf) = POP_CMD_FIN"
  shows "\<exists>pf'. pop_client_loop i srv pf (xs @ 0x0a # ys) = Some (FLUSH, Some (i + length xs + 1), srv, pf') \<and> awaits_command pf'"
  using assms
proof (induction xs arbitrary: i)
  case (Cons c xs)
  from Cons.IH [of "Suc i"] Cons.prems show ?case by (simp add: pop_client_byte_def find_data_end_single_line_def)
qed (simp add: client_byte_simps)

lemma argument_line:
  assumes "0x0a \<notin> set xs" and "status (pop_cmd_state pf) = POP_CMD_ARG"
  shows "\<exists>pf'. pop_client_loop i srv pf (xs @ 0x0a # ys) =
      Some (FLUSH, Some (i + length xs + 1), if list_ex isdigit_u8 xs then srv else set_server_state POP_PAF_MULTI_LINE_STATE srv, pf') \<and>
    awaits_command pf'"
  using assms
proof (induction xs arbitrary: i)
  case Nil
  then show ?case by (auto simp: client_byte_simps)
next
  case (Cons c xs)
  let ?fin = "pf\<lparr>pop_cmd_state := (pop_cmd_state pf)\<lparr>status := POP_CMD_FIN\<rparr>\<rparr>"
  from Cons.IH [of "Suc i"] Cons.prems finished_line [of xs ?fin "Suc i" srv ys] show ?case
    by (simp add: pop_client_byte_def find_data_end_single_line_def)
qed

lemma toupper_null [simp]: "toupper_u8 0 = 0" "toupper_u8 c = 0 \<longleftrightarrow> c = 0"
  by (auto simp: toupper_u8_def)

lemma name_letter:
  assumes "i < length (pop_known_cmds c)"
  shows "letter_at c i = Some (pop_known_cmds c ! i)" and "pop_known_cmds c ! i \<noteq> 0"
    and "toupper_u8 (pop_known_cmds c ! i) = pop_known_cmds c ! i"
    and "ends_word x \<Longrightarrow> toupper_u8 x \<noteq> pop_known_cmds c ! i"
proof -
  let ?n = "pop_known_cmds c"
  have "\<forall>l\<in>set ?n. l \<noteq> 0 \<and> toupper_u8 l = l \<and> l \<noteq> 0x20 \<and> l \<noteq> 0x09 \<and> l \<noteq> 0x0d"
    by (cases c) (simp_all add: toupper_u8_def)
  with nth_mem [OF assms] have l: "?n ! i \<noteq> 0" "toupper_u8 (?n ! i) = ?n ! i" "?n ! i \<noteq> 0x20" "?n ! i \<noteq> 0x09" "?n ! i \<noteq> 0x0d"
    by blast+
  then show "?n ! i \<noteq> 0" "toupper_u8 (?n ! i) = ?n ! i" by blast+
  show "letter_at c i = Some (?n ! i)" using assms by (simp add: letter_at_def)
  show "toupper_u8 x \<noteq> ?n ! i" if "ends_word x" using that l by (auto simp: ends_word_def toupper_u8_def)
qed

lemma name_end: "letter_at c (length (pop_known_cmds c)) = Some 0"
  by (simp add: letter_at_def)

lemma ends_word_newline [simp]: "\<not> ends_word 0x0a"
  by (simp add: ends_word_def)

text \<open>One byte while the letters of a name are compared.\<close>

lemma search_byte:
  assumes "status (pop_cmd_state pf) = POP_CMD_SEARCH" and "next_letter (pop_cmd_state pf) = Some (c, i)"
  shows
    "i < length (pop_known_cmds c) \<Longrightarrow> x \<noteq> 0x0a \<Longrightarrow> pop_client_byte srv pf x =
       Some (False, srv, pf\<lparr>pop_cmd_state := if toupper_u8 x = pop_known_cmds c ! i then (pop_cmd_state pf)\<lparr>next_letter := Some (c, Suc i)\<rparr>
         else (pop_cmd_state pf)\<lparr>status := POP_CMD_FIN\<rparr>\<rparr>)"
    "i = length (pop_known_cmds c) \<Longrightarrow> x \<noteq> 0x0a \<Longrightarrow> x \<noteq> 0 \<Longrightarrow> \<not> ends_word x \<Longrightarrow>
       pop_client_byte srv pf x = Some (False, srv, pf\<lparr>pop_cmd_state := (pop_cmd_state pf)\<lparr>status := POP_CMD_FIN\<rparr>\<rparr>)"
    "i = length (pop_known_cmds c) \<Longrightarrow> ends_word x \<Longrightarrow> exp_resp (pop_cmd_state pf) = POP_PAF_HAS_ARG \<Longrightarrow>
       pop_client_byte srv pf x = Some (False, srv, pf\<lparr>pop_cmd_state := (pop_cmd_state pf)\<lparr>status := POP_CMD_ARG\<rparr>\<rparr>)"
    "i = length (pop_known_cmds c) \<Longrightarrow> ends_word x \<Longrightarrow> exp_resp (pop_cmd_state pf) \<noteq> POP_PAF_HAS_ARG \<Longrightarrow>
       pop_client_byte srv pf x = Some (False, set_server_state (exp_resp (pop_cmd_state pf)) srv,
         pf\<lparr>pop_cmd_state := (pop_cmd_state pf)\<lparr>status := POP_CMD_FIN\<rparr>, pop_state := exp_resp (pop_cmd_state pf)\<rparr>)"
  using assms name_letter [of i c] name_end [of c]
  by (auto simp: pop_client_byte_def pop_process_command_def search_for_command_def find_data_end_single_line_def ends_word_def Let_def)

lemma search_newline:
  assumes "status (pop_cmd_state pf) = POP_CMD_SEARCH" and "next_letter (pop_cmd_state pf) = Some (c, i)"
    and "i \<le> length (pop_known_cmds c)"
  shows "\<exists>pf'. pop_client_byte srv pf 0x0a =
    Some (True, if i = length (pop_known_cmds c) \<and> exp_resp (pop_cmd_state pf) \<noteq> POP_PAF_HAS_ARG
                then set_server_state (exp_resp (pop_cmd_state pf)) srv else srv, pf') \<and> awaits_command pf'"
proof (cases "i = length (pop_known_cmds c)")
  case True
  with assms(1,2) name_end [of c] show ?thesis
    by (auto simp: client_byte_simps pop_process_command_def search_for_command_def Let_def)
next
  case False
  with assms(3) have "i < length (pop_known_cmds c)" by simp
  with assms(1,2) name_letter [OF this] show ?thesis
    by (auto simp: client_byte_simps pop_process_command_def search_for_command_def Let_def)
qed

text \<open>The rest of a line behind the letters of a name that have been read.\<close>

lemma name_line:
  assumes "0x0a \<notin> set xs" and "0 \<notin> set xs" and "status (pop_cmd_state pf) = POP_CMD_SEARCH"
    and "next_letter (pop_cmd_state pf) = Some (c, i)" and "i \<le> length (pop_known_cmds c)"
  shows "\<exists>pf'. pop_client_loop n srv pf (xs @ 0x0a # ys) = Some (FLUSH, Some (n + length xs + 1),
      announce (if map toupper_u8 (takeWhile (\<lambda>c. \<not> ends_word c) xs) = drop i (pop_known_cmds c)
                then reply_of (exp_resp (pop_cmd_state pf)) (dropWhile (\<lambda>c. \<not> ends_word c) xs) else None) srv, pf') \<and>
    awaits_command pf'"
  using assms
proof (induction xs arbitrary: n pf i)
  case Nil
  from search_newline [OF Nil(3-5), of srv] Nil(5) show ?case
    by (cases "exp_resp (pop_cmd_state pf)") (auto simp: announce_def)
next
  case (Cons x xs)
  let ?fin = "pf\<lparr>pop_cmd_state := (pop_cmd_state pf)\<lparr>status := POP_CMD_FIN\<rparr>\<rparr>"
  let ?arg = "pf\<lparr>pop_cmd_state := (pop_cmd_state pf)\<lparr>status := POP_CMD_ARG\<rparr>\<rparr>"
  let ?known = "?fin\<lparr>pop_state := exp_resp (pop_cmd_state pf)\<rparr>"
  let ?next = "pf\<lparr>pop_cmd_state := (pop_cmd_state pf)\<lparr>next_letter := Some (c, Suc i)\<rparr>\<rparr>"
  have x: "x \<noteq> 0x0a" "x \<noteq> 0" "0x0a \<notin> set xs" "0 \<notin> set xs" using Cons.prems(1,2) by auto
  have fin: "\<exists>pf'. pop_client_loop (Suc n) srv' ?fin (xs @ 0x0a # ys) = Some (FLUSH, Some (Suc n + length xs + 1), srv', pf') \<and>
      awaits_command pf'" for srv' by (rule finished_line) (use x in simp_all)
  note byte = search_byte [OF Cons.prems(3,4), of x srv]
  consider (letter) "i < length (pop_known_cmds c)" "toupper_u8 x = pop_known_cmds c ! i"
    | (other) "i < length (pop_known_cmds c)" "toupper_u8 x \<noteq> pop_known_cmds c ! i"
    | (longer) "i = length (pop_known_cmds c)" "\<not> ends_word x"
    | (ended) "i = length (pop_known_cmds c)" "ends_word x" using Cons.prems(5) by linarith
  then show ?case
  proof cases
    case letter
    then have "\<not> ends_word x" using name_letter(4) by blast
    moreover have "status (pop_cmd_state ?next) = POP_CMD_SEARCH" "next_letter (pop_cmd_state ?next) = Some (c, Suc i)"
      "Suc i \<le> length (pop_known_cmds c)" using Cons.prems(3) letter(1) by simp_all
    note rest = Cons.IH [OF x(3,4) this, of "Suc n"]
    moreover have "drop i (pop_known_cmds c) = toupper_u8 x # drop (Suc i) (pop_known_cmds c)"
      using letter by (simp add: Cons_nth_drop_Suc)
    ultimately show ?thesis using byte(1) [OF letter(1) x(1)] letter(2) by (simp cong: if_cong split del: if_split)
  next
    case other
    with byte(1) [OF other(1) x(1)] fin [of srv] show ?thesis
      by (cases "ends_word x") (simp_all add: announce_def Cons_nth_drop_Suc [symmetric])
  next
    case longer
    with byte(2) [OF longer(1) x(1,2) longer(2)] fin [of srv] show ?thesis by (simp add: announce_def)
  next
    case ended
    show ?thesis
    proof (cases "exp_resp (pop_cmd_state pf) = POP_PAF_HAS_ARG")
      case True
      have "\<not> isdigit_u8 x" using ended(2) by (auto simp: ends_word_def isdigit_u8_def)
      with True ended byte(3) argument_line [OF x(3), of ?arg "Suc n" srv ys] show ?thesis
        by (cases "list_ex isdigit_u8 xs") (simp_all add: announce_def)
    next
      case False
      then have "reply_of (exp_resp (pop_cmd_state pf)) r = Some (exp_resp (pop_cmd_state pf))" for r
        by (cases "exp_resp (pop_cmd_state pf)") simp_all
      with False ended byte(4)
        finished_line [OF x(3), of ?known "Suc n" "set_server_state (exp_resp (pop_cmd_state pf)) srv" ys]
      show ?thesis by (simp add: announce_def)
    qed
  qed
qed

lemma toupper_letter:
  "toupper_u8 c = 0x43 \<longleftrightarrow> c = 0x63 \<or> c = 0x43" "toupper_u8 c = 0x4c \<longleftrightarrow> c = 0x6c \<or> c = 0x4c"
  "toupper_u8 c = 0x52 \<longleftrightarrow> c = 0x72 \<or> c = 0x52" "toupper_u8 c = 0x54 \<longleftrightarrow> c = 0x74 \<or> c = 0x54"
  "toupper_u8 c = 0x55 \<longleftrightarrow> c = 0x75 \<or> c = 0x55"
  by (auto simp: toupper_u8_def diff_eq_eq)

text \<open>The commands whose responses are not a single line, and a whole line.\<close>

definition known_replies :: "(pop_cmd \<times> pop_expected_resp) set" where
  "known_replies =
     {(CMD_CAPA, POP_PAF_MULTI_LINE_STATE), (CMD_LIST, POP_PAF_HAS_ARG), (CMD_RETR, POP_PAF_DATA_STATE),
      (CMD_TOP, POP_PAF_DATA_STATE), (CMD_UIDL, POP_PAF_HAS_ARG)}"

lemma init_known:
  assumes "(c, r) \<in> known_replies" and "toupper_u8 x = hd (pop_known_cmds c)"
  shows "init_command_search pf x =
    (False, pf\<lparr>pop_state := POP_PAF_SINGLE_LINE_STATE, pop_cmd_state := (pop_cmd_state pf)\<lparr>exp_resp := r, next_letter := Some (c, 1)\<rparr>\<rparr>)"
  using assms by (auto simp: known_replies_def init_command_search_def toupper_letter Let_def)

lemma response_to_known:
  assumes "(c, r) \<in> known_replies" and "toupper_u8 x = hd (pop_known_cmds c)" and "\<not> ends_word x"
  shows "response_to (x # xs) =
    (if map toupper_u8 (takeWhile (\<lambda>c. \<not> ends_word c) xs) = drop 1 (pop_known_cmds c)
     then reply_of r (dropWhile (\<lambda>c. \<not> ends_word c) xs) else None)"
proof -
  have "(c, r) = (CMD_CAPA, POP_PAF_MULTI_LINE_STATE) \<or> (c, r) = (CMD_LIST, POP_PAF_HAS_ARG) \<or> (c, r) = (CMD_RETR, POP_PAF_DATA_STATE) \<or>
      (c, r) = (CMD_TOP, POP_PAF_DATA_STATE) \<or> (c, r) = (CMD_UIDL, POP_PAF_HAS_ARG)"
    using assms(1) by (simp add: known_replies_def)
  then show ?thesis using assms(2,3) by (elim disjE) (simp_all add: response_to_def Let_def)
qed

lemma command_line:
  assumes "0x0a \<notin> set w" and "0 \<notin> set w" and "awaits_command pf"
  shows "\<exists>pf'. pop_client_loop n srv pf (w @ 0x0a # ys) =
      Some (FLUSH, Some (n + length w + 1), announce (response_to w) srv, pf') \<and> awaits_command pf'"
proof (cases w)
  case Nil
  with assms(3) show ?thesis
    by (auto simp: client_byte_simps pop_process_command_def init_command_search_def response_to_def)
next
  case (Cons x xs)
  let ?pf = "snd (init_command_search pf x)"
  have x: "x \<noteq> 0x0a" "0x0a \<notin> set xs" "0 \<notin> set xs" using assms(1,2) Cons by auto
  have st: "status (pop_cmd_state pf) = POP_CMD_SEARCH" "next_letter (pop_cmd_state pf) = None"
    using assms(3) by (simp_all add: awaits_command_def)
  have byte: "pop_client_byte srv pf x = Some (False, srv, ?pf)"
    using st x(1) by (simp add: pop_client_byte_def pop_process_command_def init_command_search_def find_data_end_single_line_def Let_def)
  show ?thesis
  proof (cases "toupper_u8 x \<in> {0x43, 0x4c, 0x52, 0x54, 0x55}")
    case True
    then have "\<not> ends_word x" by (auto simp: toupper_letter ends_word_def)
    from True have "toupper_u8 x \<in> (\<lambda>(c, r). hd (pop_known_cmds c)) ` known_replies" by (simp add: known_replies_def)
    then obtain c r where c: "(c, r) \<in> known_replies" "toupper_u8 x = hd (pop_known_cmds c)" by fast
    have pf: "?pf = pf\<lparr>pop_state := POP_PAF_SINGLE_LINE_STATE, pop_cmd_state := (pop_cmd_state pf)\<lparr>exp_resp := r, next_letter := Some (c, 1)\<rparr>\<rparr>"
      using init_known [OF c] by simp
    have "1 \<le> length (pop_known_cmds c)" using c(1) by (auto simp: known_replies_def)
    with pf st have "\<exists>pf'. pop_client_loop (Suc n) srv ?pf (xs @ 0x0a # ys) = Some (FLUSH, Some (Suc n + length xs + 1),
        announce (if map toupper_u8 (takeWhile (\<lambda>c. \<not> ends_word c) xs) = drop 1 (pop_known_cmds c)
                  then reply_of r (dropWhile (\<lambda>c. \<not> ends_word c) xs) else None) srv, pf') \<and> awaits_command pf'"
      using name_line [OF x(2,3), of ?pf c 1 "Suc n" srv ys] by (simp cong: if_cong split del: if_split)
    with response_to_known [OF c \<open>\<not> ends_word x\<close>] byte Cons show ?thesis by (simp split del: if_split)
  next
    case False
    then have "?pf = pf\<lparr>pop_state := POP_PAF_SINGLE_LINE_STATE, pop_cmd_state := (pop_cmd_state pf)\<lparr>status := POP_CMD_FIN\<rparr>\<rparr>"
      by (auto simp: toupper_letter init_command_search_def Let_def)
    moreover have "response_to w = None" using False by (auto simp: response_to_def Cons Let_def)
    ultimately show ?thesis using finished_line [OF x(2), of ?pf "Suc n" srv ys] byte Cons by (simp add: announce_def)
  qed
qed

lemma client_byte_server: "pop_client_byte srv pf c = Some (fl, srv', pf') \<Longrightarrow> srv' = None \<longleftrightarrow> srv = None"
  by (auto simp: pop_client_byte_def set_server_state_def Let_def split: pop_parse_cmd_state.splits option.splits prod.splits if_splits)

lemma client_loop_server: "pop_client_loop i srv pf xs = Some (st, fp, srv', pf') \<Longrightarrow> srv' = None \<longleftrightarrow> srv = None"
proof (induction xs arbitrary: i srv pf)
  case (Cons c xs)
  from Cons.prems obtain fl r p where b: "pop_client_byte srv pf c = Some (fl, r, p)" by (auto split: option.splits)
  with Cons.prems Cons.IH [of "Suc i" r p] client_byte_server [OF b] show ?case by (cases fl) simp_all
qed simp

lemma client_segments:
  assumes "0x0a \<notin> set (concat segs)"
    and "pop_client_loop 0 (Some srv) cl (concat segs @ v) = Some (st, Some (length (concat segs) + k), Some srv', cl')"
  shows "pop_run (cl, srv) (map (Pair False) (segs @ [v])) = Some (replicate (length segs) (SEARCH, None) @ [(st, Some k)], cl', srv')"
  using assms
proof (induction segs arbitrary: cl srv)
  case Nil
  then show ?case by (simp add: pop_scan_def pop_paf_client_def)
next
  case (Cons seg segs)
  let ?rest = "concat segs @ v"
  from Cons.prems(1) have nl: "0x0a \<notin> set seg" "0x0a \<notin> set (concat segs)" by auto
  from Cons.prems(2) obtain st1 fp1 r1 cl1 where one: "pop_client_loop 0 (Some srv) cl seg = Some (st1, fp1, r1, cl1)"
    and rest: "pop_client_loop (length seg) r1 cl1 ?rest = Some (st, Some (length seg + (length (concat segs) + k)), Some srv', cl')"
    by (auto simp: client_loop_append [OF nl(1)] add.assoc split: option.splits)
  obtain srv1 where r1: "r1 = Some srv1" using client_loop_server [OF one] by auto
  from rest r1 have "pop_client_loop 0 (Some srv1) cl1 ?rest = Some (st, Some (length (concat segs) + k), Some srv', cl')"
    using client_loop_shift [of "length seg" 0 "Some srv1" cl1 ?rest, symmetric] by (auto simp: map_option_eq_Some)
  from Cons.IH [OF nl(2) this] one r1 client_loop_searches [OF nl(1) one] show ?case
    by (simp add: pop_scan_def pop_paf_client_def)
qed

lemma client_line:
  assumes "0x0a \<notin> set (concat segs @ v)" and "0 \<notin> set (concat segs @ v)" and "awaits_command cl"
  shows "\<exists>cl' srv'. pop_run (cl, srv) (map (Pair False) (segs @ [v @ 0x0a # after])) =
      Some (replicate (length segs) (SEARCH, None) @ [(FLUSH, Some (length v + 1))], cl', srv') \<and>
    awaits_command cl' \<and> announce (response_to (concat segs @ v)) (Some srv) = Some srv'"
proof -
  obtain cl' where cl': "pop_client_loop 0 (Some srv) cl ((concat segs @ v) @ 0x0a # after) =
      Some (FLUSH, Some (0 + length (concat segs @ v) + 1), announce (response_to (concat segs @ v)) (Some srv), cl')"
      "awaits_command cl'" using command_line [OF assms] by blast
  obtain srv' where srv': "announce (response_to (concat segs @ v)) (Some srv) = Some srv'"
    by (cases "response_to (concat segs @ v)") (simp_all add: announce_def set_server_state_def)
  have "pop_run (cl, srv) (map (Pair False) (segs @ [v @ 0x0a # after])) =
      Some (replicate (length segs) (SEARCH, None) @ [(FLUSH, Some (length v + 1))], cl', srv')"
    by (rule client_segments) (use assms(1) cl'(1) srv' in \<open>simp_all add: add.assoc\<close>)
  with cl'(2) srv' show ?thesis by blast
qed



section \<open>Responses\<close>

text \<open>The machine for the end of the data over a stretch of bytes, None when it has reported the end.\<close>

fun end_walk :: "data_end_state \<Rightarrow> bytes \<Rightarrow> data_end_state option" where
  "end_walk st [] = Some st"
| "end_walk st (c # cs) = (case check_data_end st c of (ended, st') \<Rightarrow> if ended then None else end_walk st' cs)"

lemma end_walk_append: "end_walk st (xs @ ys) = Option.bind (end_walk st xs) (\<lambda>st'. end_walk st' ys)"
  by (induction st xs rule: end_walk.induct) (auto split: prod.splits)

lemma end_walk_text: "0x0a \<notin> set xs \<Longrightarrow> end_walk END_UNKNOWN xs = Some END_UNKNOWN"
  by (induction xs) (auto simp: check_data_end_def)

definition dot_stuff :: "bytes \<Rightarrow> bytes" where
  "dot_stuff l = (if l \<noteq> [] \<and> hd l = 0x2e then 0x2e # l else l)"

definition line_text :: "bytes \<Rightarrow> bool" where
  "line_text l \<longleftrightarrow> 0x0d \<notin> set l \<and> 0x0a \<notin> set l"

text \<open>A positive multi-line response up to the carriage return of its last line.\<close>

definition multi_line_response :: "bytes \<Rightarrow> bytes list \<Rightarrow> bytes" where
  "multi_line_response l ls =
     0x2b # l @ [0x0d, 0x0a] @ concat (map (\<lambda>l. dot_stuff l @ [0x0d, 0x0a]) ls) @ [0x2e, 0x0d]"

lemma end_walk_line:
  assumes "line_text l"
  shows "end_walk END_FIRST_LF (dot_stuff l @ [0x0d, 0x0a]) = Some END_FIRST_LF"
proof (cases l)
  case Nil
  then show ?thesis by (simp add: dot_stuff_def check_data_end_def)
next
  case (Cons c cs)
  with assms have "end_walk END_UNKNOWN (cs @ [0x0d]) = Some END_UNKNOWN" "c \<noteq> 0x0d" "c \<noteq> 0x0a"
    by (auto intro!: end_walk_text simp: line_text_def)
  then have "end_walk END_UNKNOWN (cs @ [0x0d, 0x0a]) = Some END_FIRST_LF"
    using end_walk_append [of END_UNKNOWN "cs @ [0x0d]" "[0x0a]"] by (simp add: check_data_end_def)
  with \<open>c \<noteq> 0x0d\<close> \<open>c \<noteq> 0x0a\<close> Cons show ?thesis by (auto simp: dot_stuff_def check_data_end_def)
qed

lemma end_walk_lines:
  "list_all line_text ls \<Longrightarrow> end_walk END_FIRST_LF (concat (map (\<lambda>l. dot_stuff l @ [0x0d, 0x0a]) ls)) = Some END_FIRST_LF"
proof (induction ls)
  case (Cons l ls)
  then show ?case using end_walk_line [of l] end_walk_append [of END_FIRST_LF "dot_stuff l @ [0x0d, 0x0a]"] by simp
qed simp

lemma end_walk_response:
  assumes "line_text l" and "list_all line_text ls"
  shows "end_walk END_UNKNOWN (multi_line_response l ls) = Some END_DOT"
proof -
  have "end_walk END_UNKNOWN (0x2b # l @ [0x0d]) = Some END_UNKNOWN" using assms(1) by (intro end_walk_text) (auto simp: line_text_def)
  then have "end_walk END_UNKNOWN ((0x2b # l @ [0x0d]) @ [0x0a]) = Some END_FIRST_LF"
    by (simp only: end_walk_append) (simp add: check_data_end_def)
  with end_walk_lines [OF assms(2)]
  have "end_walk END_UNKNOWN (((0x2b # l @ [0x0d]) @ [0x0a]) @ concat (map (\<lambda>l. dot_stuff l @ [0x0d, 0x0a]) ls) @ [0x2e, 0x0d]) = Some END_DOT"
    by (simp only: end_walk_append) (simp add: check_data_end_def)
  then show ?thesis by (simp add: multi_line_response_def)
qed

lemma multi_loop:
  assumes "pop_state pf = POP_PAF_MULTI_LINE_STATE" and "end_walk (end_state pf) xs = Some st"
  shows "pop_server_loop i 0 pf (xs @ ys) = pop_server_loop (i + length xs) 0 (pf\<lparr>end_state := st\<rparr>) ys"
  using assms
proof (induction xs arbitrary: i pf)
  case (Cons c xs)
  then obtain st' where "check_data_end (end_state pf) c = (False, st')" by (auto split: prod.splits if_splits)
  with Cons.prems Cons.IH [of "pf\<lparr>end_state := st'\<rparr>" "Suc i"] show ?case by (simp add: find_data_end_multi_line_def)
qed auto

lemma server_segments:
  assumes "pop_state srv = POP_PAF_MULTI_LINE_STATE" and "end_walk (end_state srv) (concat segs @ v) = Some END_DOT"
    and "[] \<notin> set segs" and "cmd_continued srv \<or> hd (concat segs @ v @ [0x0a]) = 0x2b"
  shows "\<exists>srv'. pop_run (cl, srv) (map (Pair True) (segs @ [v @ 0x0a # after])) =
      Some (replicate (length segs) (SEARCH, None) @ [(FLUSH, Some (length v + 1))], cl, srv') \<and>
    pop_is_data_end (Some srv') \<and> pop_state srv' = POP_PAF_SINGLE_LINE_STATE"
  using assms
proof (induction segs arbitrary: srv)
  case Nil
  then have "pop_paf_server srv (v @ 0x0a # after) = pop_server_loop 0 0 srv (v @ 0x0a # after)"
    by (cases v) (auto simp: pop_paf_server_def valid_response_def)
  also have "\<dots> = pop_server_loop (0 + length v) 0 (srv\<lparr>end_state := END_DOT\<rparr>) (0x0a # after)"
    using Nil.prems(1,2) by (intro multi_loop) simp_all
  finally show ?case using Nil.prems(1)
    by (simp add: pop_scan_def find_data_end_multi_line_def check_data_end_def pop_is_data_end_def pop_reset_data_states_def)
next
  case (Cons seg segs)
  then obtain c cs where seg: "seg = c # cs" by (cases seg) auto
  from Cons.prems(2) obtain st where st: "end_walk (end_state srv) seg = Some st" "end_walk st (concat segs @ v) = Some END_DOT"
    by (auto simp: end_walk_append split: bind_splits)
  let ?srv = "srv\<lparr>end_state := st, cmd_continued := True\<rparr>"
  have "pop_paf_server srv seg = pop_server_loop 0 0 srv seg"
    using Cons.prems(4) seg by (auto simp: pop_paf_server_def valid_response_def)
  also have "\<dots> = Some (SEARCH, None, ?srv)"
    using multi_loop [OF Cons.prems(1) st(1), of 0 "[]"] by (simp add: scanning_boundary_def)
  finally show ?case using Cons.IH [of ?srv] Cons.prems(1,3) st(2) by (auto simp: pop_scan_def)
qed

text \<open>
  C20. A whole exchange. When the client sends a line that announces several lines and the server answers with a positive
  response of any lines, with dots in front doubled, then both are flushed at their last byte and nowhere else,
  however they are cut into segments; the splitter of the server reports the end of the data and expects a single line
  again, and the one of the client is ready for a command.
\<close>

theorem multi_line_exchange:
  assumes "0x0a \<notin> set (concat segs @ v)" and "0 \<notin> set (concat segs @ v)" and "awaits_command cl"
    and "response_to (concat segs @ v) = Some POP_PAF_MULTI_LINE_STATE"
    and "line_text l" and "list_all line_text ls" and "concat rsegs @ rv = multi_line_response l ls" and "[] \<notin> set rsegs"
  shows "\<exists>cl' srv'. pop_run (cl, srv) (map (Pair False) (segs @ [v @ [0x0a]]) @ map (Pair True) (rsegs @ [rv @ [0x0a]])) =
      Some (replicate (length segs) (SEARCH, None) @ [(FLUSH, Some (length v + 1))] @
            replicate (length rsegs) (SEARCH, None) @ [(FLUSH, Some (length rv + 1))], cl', srv') \<and>
    awaits_command cl' \<and> pop_is_data_end (Some srv') \<and> pop_state srv' = POP_PAF_SINGLE_LINE_STATE"
proof -
  from client_line [OF assms(1-3), of srv "[]"] assms(4) obtain cl' srv1 where
    one: "pop_run (cl, srv) (map (Pair False) (segs @ [v @ [0x0a]])) =
      Some (replicate (length segs) (SEARCH, None) @ [(FLUSH, Some (length v + 1))], cl', srv1)" "awaits_command cl'"
    and srv1: "pop_state srv1 = POP_PAF_MULTI_LINE_STATE" "end_state srv1 = END_UNKNOWN"
    by (auto simp: announce_def set_server_state_def pop_reset_data_states_def)
  have "concat rsegs @ rv @ [0x0a] = multi_line_response l ls @ [0x0a]" using assms(7) by (metis append_assoc)
  then have "hd (concat rsegs @ rv @ [0x0a]) = 0x2b" by (simp only: multi_line_response_def append_Cons list.sel)
  moreover have "end_walk (end_state srv1) (concat rsegs @ rv) = Some END_DOT"
    using assms(7) end_walk_response [OF assms(5,6)] srv1(2) by simp
  ultimately obtain srv' where
    two: "pop_run (cl', srv1) (map (Pair True) (rsegs @ [rv @ [0x0a]])) =
      Some (replicate (length rsegs) (SEARCH, None) @ [(FLUSH, Some (length rv + 1))], cl', srv')"
      "pop_is_data_end (Some srv')" "pop_state srv' = POP_PAF_SINGLE_LINE_STATE"
    using server_segments [OF srv1(1) _ assms(8), of rv cl' "[]"] by blast
  with one(2) show ?thesis unfolding pop_run_append one(1) by simp
qed

text \<open>The command CAPA and a response of one line that is a dot.\<close>

theorem multi_line_exchange_witness:
  "\<exists>cl' srv'. pop_run (pop_splitter_new, pop_splitter_new)
      [(False, [0x43, 0x41, 0x50, 0x41, 0x0d, 0x0a]), (True, [0x2b]), (True, [0x0d, 0x0a, 0x2e, 0x2e, 0x0d, 0x0a, 0x2e, 0x0d, 0x0a])] =
      Some ([(FLUSH, Some 6), (SEARCH, None), (FLUSH, Some 9)], cl', srv') \<and> pop_is_data_end (Some srv')"
proof -
  have "awaits_command pop_splitter_new"
    by (simp add: awaits_command_def pop_splitter_new_def pop_reset_data_states_def)
  moreover have "response_to [0x43, 0x41, 0x50, 0x41, 0x0d] = Some POP_PAF_MULTI_LINE_STATE"
    by (simp add: response_to_def ends_word_def toupper_u8_def Let_def)
  ultimately show ?thesis
    using multi_line_exchange [of "[]" "[0x43, 0x41, 0x50, 0x41, 0x0d]" pop_splitter_new "[]" "[[0x2e]]" "[[0x2b]]"
        "[0x0d, 0x0a, 0x2e, 0x2e, 0x0d, 0x0a, 0x2e, 0x0d]" pop_splitter_new]
    by (auto simp: line_text_def multi_line_response_def dot_stuff_def)
qed

text \<open>
  Two defects. A null byte equals the one that ends a name, so the pointer moves behind it and the next byte is
  compared with memory behind the name. And when LIST is ended by a bare line feed, the state for arguments is
  entered and left at the same byte: the server is not told that several lines follow.
\<close>

lemma null_byte_overruns:
  "pop_run (pop_splitter_new, pop_splitter_new) [(False, [0x43, 0x41, 0x50, 0x41, 0x00, 0x0a])] = None"
  by (simp add: pop_scan_def pop_paf_client_def pop_client_byte_def pop_process_command_def init_command_search_def
    search_for_command_def letter_at_def find_data_end_single_line_def pop_splitter_new_def pop_reset_data_states_def toupper_u8_def Let_def)

lemma bare_list_not_announced:
  "response_to [0x4c, 0x49, 0x53, 0x54] = None" "response_to [0x4c, 0x49, 0x53, 0x54, 0x0d] = Some POP_PAF_MULTI_LINE_STATE"
  by (simp_all add: response_to_def ends_word_def toupper_u8_def isdigit_u8_def Let_def)

end
