(* ===== verification/Frame_Splitters.thy ===== *)
theory Frame_Splitters
  imports Paf
begin

text \<open>
  Stream splitters for binary protocols: Modbus (service_inspectors/modbus/modbus_paf.cc), DNP3
  (service_inspectors/dnp3/dnp3_paf.cc) and TLS records (service_inspectors/ssl/ssl_splitter.cc). The scan of
  a segment is a loop over its bytes that counts the bytes processed. The first two are interpretations of
  the contract of length-delimited frames, so that the flushing driver cuts a stream of frames, however it is
  segmented, into exactly these frames.
\<close>

unbundle bit_operations_syntax

section \<open>Modbus\<close>

datatype modbus_paf_state = TRANS_ID_1 | TRANS_ID_2 | PROTO_ID_1 | PROTO_ID_2 | LENGTH_1 | LENGTH_2 | SET_FLUSH

text \<open>The last two fields count the queued events and the frames of the statistics.\<close>

record modbus_splitter =
  mb_state :: modbus_paf_state
  modbus_length :: u16
  mb_bad_length :: nat
  mb_frames :: nat

definition modbus_new :: modbus_splitter where
  "modbus_new = \<lparr>mb_state = TRANS_ID_1, modbus_length = 0, mb_bad_length = 0, mb_frames = 0\<rparr>"

definition modbus_byte :: "modbus_splitter \<Rightarrow> u8 \<Rightarrow> modbus_splitter" where
  "modbus_byte s b =
     (case mb_state s of
        TRANS_ID_1 \<Rightarrow> s\<lparr>mb_state := TRANS_ID_2\<rparr>
      | TRANS_ID_2 \<Rightarrow> s\<lparr>mb_state := PROTO_ID_1\<rparr>
      | PROTO_ID_1 \<Rightarrow> s\<lparr>mb_state := PROTO_ID_2\<rparr>
      | PROTO_ID_2 \<Rightarrow> s\<lparr>mb_state := LENGTH_1\<rparr>
      | LENGTH_1 \<Rightarrow> s\<lparr>modbus_length := modbus_length s OR push_bit 8 (ucast b), mb_state := LENGTH_2\<rparr>
      | LENGTH_2 \<Rightarrow> s\<lparr>modbus_length := modbus_length s OR ucast b, mb_state := SET_FLUSH\<rparr>
      | SET_FLUSH \<Rightarrow>
          s\<lparr>mb_state := TRANS_ID_1, modbus_length := 0, mb_frames := Suc (mb_frames s),
            mb_bad_length := if modbus_length s < 2 \<or> modbus_length s > 254 then Suc (mb_bad_length s) else mb_bad_length s\<rparr>)"

fun modbus_loop :: "modbus_splitter \<Rightarrow> nat \<Rightarrow> bytes \<Rightarrow> splitter_status \<times> nat option \<times> modbus_splitter" where
  "modbus_loop s n [] = (SEARCH, None, s)"
| "modbus_loop s n (b # data) =
     (if mb_state s = SET_FLUSH then (FLUSH, Some (unat (modbus_length s) + n), modbus_byte s b)
      else modbus_loop (modbus_byte s b) (Suc n) data)"

definition modbus_scan :: "modbus_splitter scanner" where
  "modbus_scan = (\<lambda>s data flags. modbus_loop s 0 data)"

section \<open>DNP3\<close>

datatype dnp3_paf_state = DNP3_START_1 | DNP3_START_2 | DNP3_LENGTH | DNP3_SET_FLUSH

record dnp3_paf_data =
  dn_state :: dnp3_paf_state
  dnp3_length :: u8
  real_length :: u16

definition dnp3_new :: dnp3_paf_data where
  "dnp3_new = \<lparr>dn_state = DNP3_START_1, dnp3_length = 0, real_length = 0\<rparr>"

definition dnp3_real_length :: "u8 \<Rightarrow> u16" where
  "dnp3_real_length len =
     (let user_data = ucast len - 5; num_crcs = 1 + user_data div 16 + (if user_data mod 16 \<noteq> 0 then 1 else 0)
      in ucast len + 2 * num_crcs)"

fun dnp3_paf :: "dnp3_paf_data \<Rightarrow> nat \<Rightarrow> bytes \<Rightarrow> splitter_status \<times> nat option \<times> dnp3_paf_data" where
  "dnp3_paf s n [] = (SEARCH, None, s)"
| "dnp3_paf s n (b # data) =
     (case dn_state s of
        DNP3_START_1 \<Rightarrow> if b = 0x05 then dnp3_paf (s\<lparr>dn_state := DNP3_START_2\<rparr>) (Suc n) data else (ABORT, None, s)
      | DNP3_START_2 \<Rightarrow> if b = 0x64 then dnp3_paf (s\<lparr>dn_state := DNP3_LENGTH\<rparr>) (Suc n) data else (ABORT, None, s)
      | DNP3_LENGTH \<Rightarrow>
          if b < 5 then (ABORT, None, s\<lparr>dnp3_length := b\<rparr>)
          else dnp3_paf (s\<lparr>dnp3_length := b, real_length := dnp3_real_length b, dn_state := DNP3_SET_FLUSH\<rparr>) (Suc n) data
      | DNP3_SET_FLUSH \<Rightarrow> (FLUSH, Some (unat (real_length s) + n), s\<lparr>dn_state := DNP3_START_1\<rparr>))"

definition dnp3_scan :: "dnp3_paf_data scanner" where
  "dnp3_scan = (\<lambda>s data flags. dnp3_paf s 0 data)"

section \<open>TLS records\<close>

datatype ssl_paf_state = SSL_START | SSL_VER_MJR | SSL_VER_MNR | SSL_LEN1 | SSL_LEN2 | SSL_DATA | SSL_LEN2_V2 | SSL_PAD_V2

record ssl_splitter =
  ssl_state :: ssl_paf_state
  remain_len :: u16
  len_byte0 :: u8
  len_byte1 :: u8
  is_sslv2 :: bool

definition ssl_new :: ssl_splitter where
  "ssl_new = \<lparr>ssl_state = SSL_START, remain_len = 0, len_byte0 = 0, len_byte1 = 0, is_sslv2 = False\<rparr>"

definition len_of_bytes :: "u8 \<Rightarrow> u8 \<Rightarrow> u16" where
  "len_of_bytes a b = push_bit 8 (ucast a) + ucast b"

text \<open>
  One pass of the loop at offset n of a segment of len bytes: an abort, or the new state, offset and last
  flush point.
\<close>

definition ssl_step :: "ssl_splitter \<Rightarrow> bytes \<Rightarrow> nat \<Rightarrow> nat \<Rightarrow> (ssl_splitter \<times> nat \<times> nat) option" where
  "ssl_step s data n last_fp =
     (let len = length data; c = data ! n
      in case ssl_state s of
           SSL_START \<Rightarrow>
             if 20 \<le> c \<and> c \<le> 24 then Some (s\<lparr>is_sslv2 := False, ssl_state := SSL_VER_MJR\<rparr>, Suc n, last_fp)
             else if c AND 0x80 \<noteq> 0 \<or> is_sslv2 s
             then Some (s\<lparr>len_byte0 := c, is_sslv2 := True, ssl_state := SSL_LEN2_V2\<rparr>, Suc n, last_fp)
             else if last_fp > 0 then Some (s, Suc len, last_fp) else None
         | SSL_VER_MJR \<Rightarrow> Some (s\<lparr>ssl_state := SSL_VER_MNR\<rparr>, Suc n, last_fp)
         | SSL_VER_MNR \<Rightarrow> Some (s\<lparr>ssl_state := SSL_LEN1\<rparr>, Suc n, last_fp)
         | SSL_LEN1 \<Rightarrow> Some (s\<lparr>len_byte0 := c, ssl_state := SSL_LEN2\<rparr>, Suc n, last_fp)
         | SSL_LEN2 \<Rightarrow>
             (let r = len_of_bytes (len_byte0 s) c; s = s\<lparr>len_byte1 := c, remain_len := r\<rparr>
              in if r = 0 then Some (s\<lparr>ssl_state := SSL_START\<rparr>, Suc n, n) else Some (s\<lparr>ssl_state := SSL_DATA\<rparr>, Suc n, last_fp))
         | SSL_DATA \<Rightarrow>
             (let skip = (if len - n > unat (remain_len s) then unat (remain_len s) else len - n);
                  s = s\<lparr>remain_len := remain_len s - of_nat skip\<rparr>
              in if remain_len s = 0 then Some (s\<lparr>ssl_state := SSL_START\<rparr>, n + skip, n + skip) else Some (s, n + skip, last_fp))
         | SSL_LEN2_V2 \<Rightarrow>
             (let s = s\<lparr>len_byte1 := c\<rparr>;
                  s = (if len_byte0 s AND 0x80 \<noteq> 0 then s\<lparr>len_byte0 := len_byte0 s AND 0x7f, ssl_state := SSL_DATA\<rparr>
                       else s\<lparr>len_byte0 := len_byte0 s AND 0x3f, ssl_state := SSL_PAD_V2\<rparr>)
              in Some (s\<lparr>remain_len := len_of_bytes (len_byte0 s) c\<rparr>, Suc n, last_fp))
         | SSL_PAD_V2 \<Rightarrow> Some (s\<lparr>ssl_state := SSL_DATA\<rparr>, Suc n, last_fp))"

partial_function (option) ssl_loop ::
  "ssl_splitter \<Rightarrow> bytes \<Rightarrow> nat \<Rightarrow> nat \<Rightarrow> (splitter_status \<times> nat option \<times> ssl_splitter) option" where
  "ssl_loop s data n last_fp =
     (if n < length data
      then case ssl_step s data n last_fp of
             None \<Rightarrow> Some (ABORT, None, s)
           | Some r \<Rightarrow> (case r of (s', n', fp') \<Rightarrow> ssl_loop s' data n' fp')
      else if last_fp > 0 then Some (FLUSH, Some last_fp, s\<lparr>remain_len := 0, ssl_state := SSL_START\<rparr>)
      else Some (SEARCH, None, s))"

declare ssl_loop.simps [code]

definition ssl_scan :: "ssl_splitter \<Rightarrow> bytes \<Rightarrow> (splitter_status \<times> nat option \<times> ssl_splitter) option" where
  "ssl_scan s data = ssl_loop s data 0 0"

section \<open>Frames\<close>

text \<open>A Modbus frame: four bytes of identifiers, the length of the rest in two bytes, and a rest that is not empty.\<close>

definition modbus_frame :: "bytes \<Rightarrow> bool" where
  "modbus_frame f \<longleftrightarrow> 6 < length f \<and> length f = 6 + 256 * unat (f ! 4) + unat (f ! 5)"

definition length_field :: "bytes \<Rightarrow> u16" where
  "length_field h = (if length h < 5 then 0 else push_bit 8 (ucast (h ! 4))) OR (if length h < 6 then 0 else ucast (h ! 5))"

definition modbus_at :: "bytes \<Rightarrow> modbus_splitter \<Rightarrow> bool" where
  "modbus_at h s \<longleftrightarrow>
     length h \<le> 6 \<and> modbus_length s = length_field h \<and>
     mb_state s = [TRANS_ID_1, TRANS_ID_2, PROTO_ID_1, PROTO_ID_2, LENGTH_1, LENGTH_2, SET_FLUSH] ! length h"

lemma two_bytes_sum: "unat (push_bit 8 (ucast a) + ucast b :: u16) = 256 * unat (a :: u8) + unat (b :: u8)"
  using unat_u8_less [of a] unat_u8_less [of b]
  by (simp add: unat_word_ariths push_bit_eq_mult unsigned_ucast_eq take_bit_eq_mod)

lemma two_bytes_value: "unat (push_bit 8 (ucast a) OR ucast b :: u16) = 256 * unat (a :: u8) + unat (b :: u8)"
proof -
  have "(push_bit 8 (ucast a) :: u16) AND ucast b = 0"
    by (rule bit_word_eqI) (auto simp: bit_simps dest: bit_imp_le_length)
  then have "push_bit 8 (ucast a) OR ucast b = push_bit 8 (ucast a) + (ucast b :: u16)"
    using word_plus_and_or [of "push_bit 8 (ucast a)" "ucast b :: u16"] by simp
  then show ?thesis by (simp add: two_bytes_sum)
qed

lemma modbus_at_byte:
  assumes "modbus_at h s" and "length h < 6"
  shows "modbus_at (h @ [b]) (modbus_byte s b) \<and> mb_state s \<noteq> SET_FLUSH"
proof -
  consider "length h = 0" | "length h = 1" | "length h = 2" | "length h = 3" | "length h = 4" | "length h = 5" using assms(2) by linarith
  then show ?thesis
    using assms(1) by cases (simp_all add: modbus_at_def modbus_byte_def length_field_def nth_append)
qed

interpretation modbus: header_loop modbus_loop modbus_at 6 "\<lambda>h. True" "\<lambda>h. unat (length_field h)"
proof
  show "modbus_loop s n [] = (SEARCH, None, s)" for s n by simp
  show "\<exists>s'. modbus_at (h @ [b]) s' \<and> (\<forall>n bs. modbus_loop s n (b # bs) = modbus_loop s' (Suc n) bs)"
    if "modbus_at h s" "length h < 6" for h s b
    using modbus_at_byte [OF that] by (intro exI [of _ "modbus_byte s b"]) simp
  show "\<exists>s'. modbus_at [] s' \<and> (\<forall>n. modbus_loop s n (b # bs) = (FLUSH, Some (unat (length_field h) + n), s'))"
    if "modbus_at h s" "length h = 6" for h s b bs
    using that by (intro exI [of _ "modbus_byte s b"]) (simp add: modbus_at_def modbus_byte_def length_field_def)
qed

lemma modbus_header_frame: "modbus.header_frame f \<longleftrightarrow> modbus_frame f"
  unfolding modbus.header_frame_def modbus_frame_def by (auto simp: length_field_def two_bytes_value)

text \<open>
  A DNP3 link frame: the start bytes, a length of at least 5 that counts the bytes behind it without the
  checksums, and behind the header and every 16 bytes of user data or part of them two bytes of checksum.
\<close>

definition dnp3_frame :: "bytes \<Rightarrow> bool" where
  "dnp3_frame f \<longleftrightarrow>
     3 < length f \<and> f ! 0 = 0x05 \<and> f ! 1 = 0x64 \<and> 5 \<le> unat (f ! 2) \<and>
     length f = 3 + unat (f ! 2) + 2 * (1 + (unat (f ! 2) - 5 + 15) div 16)"

definition dnp3_good :: "bytes \<Rightarrow> bool" where
  "dnp3_good h \<longleftrightarrow> (0 < length h \<longrightarrow> h ! 0 = 0x05) \<and> (1 < length h \<longrightarrow> h ! 1 = 0x64) \<and> (2 < length h \<longrightarrow> 5 \<le> unat (h ! 2))"

definition dnp3_at :: "bytes \<Rightarrow> dnp3_paf_data \<Rightarrow> bool" where
  "dnp3_at h s \<longleftrightarrow>
     length h \<le> 3 \<and> dn_state s = [DNP3_START_1, DNP3_START_2, DNP3_LENGTH, DNP3_SET_FLUSH] ! length h \<and>
     (length h = 3 \<longrightarrow> real_length s = dnp3_real_length (h ! 2))"

lemma blocks_of_16: "(n :: nat) div 16 + (if n mod 16 \<noteq> 0 then 1 else 0) = (n + 15) div 16"
proof -
  have "n + 15 = (n mod 16 + 15) + 16 * (n div 16)" by simp
  then have "(n + 15) div 16 = (n mod 16 + 15) div 16 + n div 16" by (metis add.commute div_mult_self2 zero_neq_numeral)
  moreover have "(n mod 16 + 15) div 16 = (if n mod 16 \<noteq> 0 then 1 else 0)"
    by (auto intro!: div_nat_eqI)
  ultimately show ?thesis by simp
qed

lemma dnp3_real_length_value:
  assumes "5 \<le> unat b"
  shows "unat (dnp3_real_length b) = unat b + 2 * (1 + (unat b - 5 + 15) div 16)"
proof -
  let ?u = "ucast b - 5 :: u16" and ?n = "unat b - 5"
  have b: "unat (ucast b :: u16) = unat b" using unat_u8_less [of b] by (simp add: unsigned_ucast_eq take_bit_eq_mod)
  have "(5 :: u16) \<le> ucast b" using assms b by (simp add: word_le_nat_alt)
  then have u: "unat ?u = ?n" using b by (simp add: unat_sub)
  have q: "unat (?u div 16) = ?n div 16" "unat (?u mod 16) = ?n mod 16" using u by (simp_all add: unat_div unat_mod)
  have c: "(?u mod 16 \<noteq> 0) = (?n mod 16 \<noteq> 0)" unfolding word_unat_eq_iff [of "?u mod 16"] q(2) by simp
  define k where "k = (if ?n mod 16 \<noteq> 0 then 1 else 0 :: nat)"
  have "?n div 16 + k = (?n + 15) div 16" unfolding k_def by (rule blocks_of_16)
  moreover define x where "x = 1 + ?u div 16 + (if ?u mod 16 \<noteq> 0 then 1 else 0)"
  ultimately have x: "unat x = 1 + (?n + 15) div 16" "(?n + 15) div 16 < 20"
  proof -
    assume k: "?n div 16 + k = (?n + 15) div 16"
    have n: "?n < 256" using unat_u8_less [of b] by linarith
    then have "?n div 16 \<le> 15" by (simp add: div_le_mono [of _ 255 16, simplified])
    then have "unat x = 1 + ?n div 16 + k"
      unfolding x_def c k_def using q(1) by (simp add: unat_word_ariths)
    with k show "unat x = 1 + (?n + 15) div 16" by simp
    from k \<open>?n div 16 \<le> 15\<close> show "(?n + 15) div 16 < 20" by (simp add: k_def split: if_splits)
  qed
  have "unat (ucast b + 2 * x) = unat b + 2 * unat x"
    using x b unat_u8_less [of b] by (simp add: unat_word_ariths)
  then show ?thesis unfolding dnp3_real_length_def Let_def x_def [symmetric] x(1) .
qed

lemma dnp3_at_byte:
  assumes "dnp3_at h s" and "length h < 3" and "dnp3_good (h @ [b])"
  shows "\<exists>s'. dnp3_at (h @ [b]) s' \<and> (\<forall>n bs. dnp3_paf s n (b # bs) = dnp3_paf s' (Suc n) bs)"
proof -
  consider "length h = 0" | "length h = 1" | "length h = 2" using assms(2) by linarith
  then show ?thesis
  proof cases
    case 1
    with assms show ?thesis
      by (intro exI [of _ "s\<lparr>dn_state := DNP3_START_2\<rparr>"]) (simp add: dnp3_at_def dnp3_good_def)
  next
    case 2
    with assms show ?thesis
      by (intro exI [of _ "s\<lparr>dn_state := DNP3_LENGTH\<rparr>"]) (simp add: dnp3_at_def dnp3_good_def nth_append)
  next
    case 3
    with assms(3) have "\<not> b < 5" by (simp add: dnp3_good_def nth_append word_less_nat_alt)
    with 3 assms(1) show ?thesis
      by (intro exI [of _ "s\<lparr>dnp3_length := b, real_length := dnp3_real_length b, dn_state := DNP3_SET_FLUSH\<rparr>"])
        (simp add: dnp3_at_def nth_append)
  qed
qed

interpretation dnp3: header_loop dnp3_paf dnp3_at 3 dnp3_good "\<lambda>h. unat (dnp3_real_length (h ! 2))"
proof
  show "dnp3_paf s n [] = (SEARCH, None, s)" for s n by simp
  show "\<exists>s'. dnp3_at (h @ [b]) s' \<and> (\<forall>n bs. dnp3_paf s n (b # bs) = dnp3_paf s' (Suc n) bs)"
    if "dnp3_at h s" "length h < 3" "dnp3_good (h @ [b])" for h s b
    using dnp3_at_byte [OF that] .
  show "\<exists>s'. dnp3_at [] s' \<and> (\<forall>n. dnp3_paf s n (b # bs) = (FLUSH, Some (unat (dnp3_real_length (h ! 2)) + n), s'))"
    if "dnp3_at h s" "length h = 3" for h s b bs
    using that by (intro exI [of _ "s\<lparr>dn_state := DNP3_START_1\<rparr>"]) (simp add: dnp3_at_def)
qed

lemma dnp3_header_frame: "dnp3_frame f \<Longrightarrow> dnp3.header_frame f"
  unfolding dnp3.header_frame_def dnp3_frame_def by (auto simp: dnp3_good_def dnp3_real_length_value)

section \<open>Streams of frames\<close>

text \<open>
  C7. A stream of Modbus frames, and a stream of DNP3 frames, is cut into exactly these frames: from the
  start of a session, whatever the segments in which the stream arrives, the flushing driver with the splitter
  of the protocol flushes the lengths of the frames in order, each when it is complete, as long as the frames
  do not exceed the limit of the splitter and the segments leave room for one frame below the maximum.
\<close>

theorem frames_flushed:
  assumes "limit < 2 ^ 32" and "flags \<noteq> 0" and "\<forall>d\<in>set segs. length d + limit < MAX_PAF_MAX"
    and "\<forall>f\<in>set fs. length f \<le> limit" and "concat segs = concat fs"
  shows "((\<forall>f\<in>set fs. modbus_frame f) \<longrightarrow>
      (\<exists>s ps'. paf_feed modbus_scan limit flags modbus_new (paf_reset ps) seq 0 segs = Some (map length fs, s, ps'))) \<and>
    ((\<forall>f\<in>set fs. dnp3_frame f) \<longrightarrow>
      (\<exists>s ps'. paf_feed dnp3_scan limit flags dnp3_new (paf_reset ps) seq 0 segs = Some (map length fs, s, ps')))"
proof (intro conjI impI)
  have "modbus_at [] modbus_new" by (simp add: modbus_at_def modbus_new_def length_field_def)
  then show "\<exists>s ps'. paf_feed modbus_scan limit flags modbus_new (paf_reset ps) seq 0 segs = Some (map length fs, s, ps')"
    if "\<forall>f\<in>set fs. modbus_frame f"
    unfolding modbus_scan_def using that assms by (intro modbus.feed_session) (simp_all add: modbus_header_frame)
  have "dnp3_at [] dnp3_new" by (simp add: dnp3_at_def dnp3_new_def)
  then show "\<exists>s ps'. paf_feed dnp3_scan limit flags dnp3_new (paf_reset ps) seq 0 segs = Some (map length fs, s, ps')"
    if "\<forall>f\<in>set fs. dnp3_frame f"
    unfolding dnp3_scan_def using that assms by (intro dnp3.feed_session) (simp_all add: dnp3_header_frame)
qed

theorem frames_flushed_witness:
  "(\<exists>s ps'. paf_feed modbus_scan 16384 1 modbus_new
       (paf_reset \<lparr>ps_seq = 0, ps_pos = 0, ps_fpt = 0, ps_tot = 0, ps_paf = START\<rparr>) 0xfffffffc 0
       [[0, 1, 0], [0, 0, 2, 9, 3, 0, 2, 0, 0, 0, 1], [], [7]] = Some (map length [[0, 1, 0, 0, 0, 2, 9, 3], [0, 2, 0, 0, 0, 1, 7 :: u8]], s, ps')) \<and>
   (\<exists>s ps'. paf_feed dnp3_scan 16384 1 dnp3_new
       (paf_reset \<lparr>ps_seq = 0, ps_pos = 0, ps_fpt = 0, ps_tot = 0, ps_paf = START\<rparr>) 7 0
       [[5], [0x64, 5, 0xc0, 1, 0], [2, 0, 0x11, 0x22]] = Some (map length [[5, 0x64, 5, 0xc0, 1, 0, 2, 0, 0x11, 0x22 :: u8]], s, ps'))"
proof
  show "\<exists>s ps'. paf_feed modbus_scan 16384 1 modbus_new
       (paf_reset \<lparr>ps_seq = 0, ps_pos = 0, ps_fpt = 0, ps_tot = 0, ps_paf = START\<rparr>) 0xfffffffc 0
       [[0, 1, 0], [0, 0, 2, 9, 3, 0, 2, 0, 0, 0, 1], [], [7]] = Some (map length [[0, 1, 0, 0, 0, 2, 9, 3], [0, 2, 0, 0, 0, 1, 7 :: u8]], s, ps')"
    by (rule frames_flushed [THEN conjunct1, rule_format]) (auto simp: MAX_PAF_MAX_def PAF_LIMIT_FUZZ_def modbus_frame_def)
  show "\<exists>s ps'. paf_feed dnp3_scan 16384 1 dnp3_new
       (paf_reset \<lparr>ps_seq = 0, ps_pos = 0, ps_fpt = 0, ps_tot = 0, ps_paf = START\<rparr>) 7 0
       [[5], [0x64, 5, 0xc0, 1, 0], [2, 0, 0x11, 0x22]] = Some (map length [[5, 0x64, 5, 0xc0, 1, 0, 2, 0, 0x11, 0x22 :: u8]], s, ps')"
    by (rule frames_flushed [THEN conjunct2, rule_format]) (auto simp: MAX_PAF_MAX_def PAF_LIMIT_FUZZ_def dnp3_frame_def)
qed

text \<open>A Modbus frame without a rest waits for the next byte of the stream.\<close>

lemma empty_frame_waits: "fst (modbus_scan modbus_new [0, 1, 0, 0, 0, 0] 1) = SEARCH"
  by code_simp

section \<open>TLS records in one segment\<close>

text \<open>Every scan returns: a pass moves forward, or leaves the data state with nothing left to skip.\<close>

lemma ssl_step_progress:
  assumes "ssl_step s data n fp = Some (s', n', fp')" and "n < length data"
  shows "n < n' \<or> n = n' \<and> ssl_state s = SSL_DATA \<and> ssl_state s' = SSL_START"
  using assms
  by (auto simp: ssl_step_def Let_def unat_eq_0 split: ssl_paf_state.splits if_splits)

lemma ssl_loop_returns: "\<exists>r. ssl_loop s data n fp = Some r"
proof (induction "2 * (length data - n) + (if ssl_state s = SSL_DATA then 1 else 0)" arbitrary: s n fp rule: less_induct)
  case less
  show ?case
  proof (cases "n < length data")
    case False
    then show ?thesis by (subst ssl_loop.simps) simp
  next
    case True
    show ?thesis
    proof (cases "ssl_step s data n fp")
      case None
      with True show ?thesis by (subst ssl_loop.simps) simp
    next
      case (Some r)
      obtain s' n' fp' where r: "r = (s', n', fp')" by (rule prod_cases3)
      from ssl_step_progress [OF Some [unfolded r] True]
      have "2 * (length data - n') + (if ssl_state s' = SSL_DATA then 1 else 0) < 2 * (length data - n) + (if ssl_state s = SSL_DATA then 1 else 0)"
        using True by auto
      from less.hyps [OF this, of fp'] Some r True show ?thesis by (subst ssl_loop.simps) simp
    qed
  qed
qed

text \<open>A record: its type, the version, the length of its body and the body.\<close>

definition ssl_record :: "u8 \<Rightarrow> u8 \<Rightarrow> u8 \<Rightarrow> bytes \<Rightarrow> bytes" where
  "ssl_record t v w body = [t, v, w, of_nat (length body div 256), of_nat (length body mod 256)] @ body"

lemma record_length_field:
  assumes "n < 65536"
  shows "unat (len_of_bytes (of_nat (n div 256)) (of_nat (n mod 256))) = n"
proof -
  have "n div 256 < 256" using assms by (simp add: div_less_iff_less_mult)
  then have "unat (of_nat (n div 256) :: u8) = n div 256" "unat (of_nat (n mod 256) :: u8) = n mod 256"
    by (simp_all add: unat_of_nat)
  then show ?thesis unfolding len_of_bytes_def two_bytes_sum by simp
qed

lemma ssl_loop_step:
  assumes "n < length data" and "ssl_step s data n fp = Some (s', n', fp')"
  shows "ssl_loop s data n fp = ssl_loop s' data n' fp'"
  using assms by (subst ssl_loop.simps) simp

lemma ssl_data_step:
  assumes "ssl_state s = SSL_DATA" and "unat (remain_len s) = k" and "n + k \<le> length data"
  shows "ssl_step s data n fp = Some (s\<lparr>remain_len := 0, ssl_state := SSL_START\<rparr>, n + k, n + k)"
proof -
  have "of_nat (unat (remain_len s)) = remain_len s" by simp
  then have "remain_len s - of_nat k = 0" unfolding assms(2) by simp
  moreover have "(if length data - n > k then k else length data - n) = k" using assms(3) by auto
  ultimately show ?thesis using assms(1) by (simp only: ssl_step_def Let_def assms(2) ssl_paf_state.case) simp
qed

lemma ssl_record_scanned:
  assumes "data = pre @ ssl_record t v w body @ post" and "20 \<le> t" and "t \<le> 24" and "body \<noteq> []" and "length body < 65536"
    and "ssl_state s = SSL_START"
  shows "\<exists>s'. ssl_state s' = SSL_START \<and>
    ssl_loop s data (length pre) fp = ssl_loop s' data (length pre + 5 + length body) (length pre + 5 + length body)"
proof -
  let ?n = "length pre" let ?a = "of_nat (length body div 256) :: u8" and ?b = "of_nat (length body mod 256) :: u8"
  let ?r = "len_of_bytes ?a ?b"
  have r: "unat ?r = length body" using record_length_field [OF assms(5)] .
  have at: "data ! ?n = t" "data ! Suc (Suc (Suc ?n)) = ?a" "data ! Suc (Suc (Suc (Suc ?n))) = ?b"
    and len: "length data = ?n + 5 + length body + length post" using assms(1) by (simp_all add: nth_append ssl_record_def)
  let ?s1 = "s\<lparr>is_sslv2 := False, ssl_state := SSL_VER_MJR\<rparr>" let ?s4 = "?s1\<lparr>len_byte0 := ?a, ssl_state := SSL_LEN2\<rparr>"
  let ?s5 = "?s4\<lparr>len_byte1 := ?b, remain_len := ?r, ssl_state := SSL_DATA\<rparr>"
  have r0: "?r \<noteq> 0" using r assms(4) by (metis length_0_conv unat_0)
  have "ssl_loop s data ?n fp = ssl_loop ?s1 data (Suc ?n) fp"
    using assms(2,3,6) at len by (intro ssl_loop_step) (simp_all add: ssl_step_def Let_def)
  also have "\<dots> = ssl_loop (?s1\<lparr>ssl_state := SSL_VER_MNR\<rparr>) data (Suc (Suc ?n)) fp"
    using len by (intro ssl_loop_step) (simp_all add: ssl_step_def Let_def)
  also have "\<dots> = ssl_loop (?s1\<lparr>ssl_state := SSL_LEN1\<rparr>) data (Suc (Suc (Suc ?n))) fp"
    using len by (intro ssl_loop_step) (simp_all add: ssl_step_def Let_def)
  also have "\<dots> = ssl_loop ?s4 data (Suc (Suc (Suc (Suc ?n)))) fp"
    using at len by (intro ssl_loop_step) (simp_all add: ssl_step_def Let_def)
  also have "\<dots> = ssl_loop ?s5 data (Suc (Suc (Suc (Suc (Suc ?n))))) fp"
    using at len r0 by (intro ssl_loop_step) (simp_all add: ssl_step_def Let_def)
  also have "\<dots> = ssl_loop (?s5\<lparr>remain_len := 0, ssl_state := SSL_START\<rparr>) data (?n + 5 + length body) (?n + 5 + length body)"
    using ssl_data_step [of ?s5 "length body" "Suc (Suc (Suc (Suc (Suc ?n))))" data fp] r len assms(4)
    by (intro ssl_loop_step) simp_all
  finally show ?thesis by (intro exI [of _ "?s5\<lparr>remain_len := 0, ssl_state := SSL_START\<rparr>"]) simp
qed

text \<open>A segment of whole records is flushed at its end.\<close>

definition record_ok :: "u8 \<times> u8 \<times> u8 \<times> bytes \<Rightarrow> bool" where
  "record_ok = (\<lambda>(t, v, w, body). 20 \<le> t \<and> t \<le> 24 \<and> body \<noteq> [] \<and> length body < 65536)"

definition record_bytes :: "u8 \<times> u8 \<times> u8 \<times> bytes \<Rightarrow> bytes" where
  "record_bytes = (\<lambda>(t, v, w, body). ssl_record t v w body)"

lemma records_scanned:
  assumes "list_all record_ok rs" and "data = pre @ concat (map record_bytes rs)" and "ssl_state s = SSL_START" and "rs = [] \<longrightarrow> 0 < fp \<and> fp = length pre"
  shows "\<exists>s'. ssl_loop s data (length pre) fp = Some (FLUSH, Some (length data), s') \<and> ssl_state s' = SSL_START"
  using assms
proof (induction rs arbitrary: pre s fp)
  case Nil
  then show ?case by (subst ssl_loop.simps) auto
next
  case (Cons r rs)
  obtain t v w body where r: "r = (t, v, w, body)" by (metis prod_cases4)
  have ok: "20 \<le> t" "t \<le> 24" "body \<noteq> []" "length body < 65536" using Cons.prems(1) r by (simp_all add: record_ok_def)
  have data: "data = pre @ ssl_record t v w body @ concat (map record_bytes rs)" using Cons.prems(2) r by (simp add: record_bytes_def)
  from ssl_record_scanned [OF data ok Cons.prems(3), of fp] obtain s' where
    s': "ssl_state s' = SSL_START"
      "ssl_loop s data (length pre) fp = ssl_loop s' data (length pre + 5 + length body) (length pre + 5 + length body)" by blast
  have len: "length (pre @ ssl_record t v w body) = length pre + 5 + length body" by (simp add: ssl_record_def)
  have "\<exists>s''. ssl_loop s' data (length (pre @ ssl_record t v w body)) (length pre + 5 + length body) = Some (FLUSH, Some (length data), s'') \<and>
    ssl_state s'' = SSL_START"
    using Cons.prems(1) data s'(1) len by (intro Cons.IH) simp_all
  then show ?case unfolding s'(2) len .
qed

lemma records_flushed:
  assumes "list_all record_ok rs" and "rs \<noteq> []"
  shows "\<exists>s. ssl_scan ssl_new (concat (map record_bytes rs)) =
    Some (FLUSH, Some (length (concat (map record_bytes rs))), s) \<and> ssl_state s = SSL_START"
  using records_scanned [OF assms(1), of "concat (map record_bytes rs)" "[]" ssl_new 0] assms(2)
  by (simp add: ssl_scan_def ssl_new_def)

text \<open>
  A record of length 0 is flushed up to its last byte instead of behind it; that byte then starts the next
  record, and the scan aborts.
\<close>

lemma empty_record_aborts:
  "map_option (\<lambda>(st, fp, s). (st, fp)) (ssl_scan ssl_new [0x17, 3, 3, 0, 0]) = Some (FLUSH, Some 4) \<and>
   map_option fst (Option.bind (ssl_scan ssl_new [0x17, 3, 3, 0, 0]) (\<lambda>(st, fp, s). ssl_scan s (drop 4 [0x17, 3, 3, 0, 0]))) = Some ABORT"
  by code_simp

end
